(* ===== verification/Prelude.thy ===== *)
theory Prelude
  imports Main "HOL-Library.Word"
begin

text \<open>
  The shared vocabulary of the development: the machine-integer types of the C code, the
  error codes the kernel side returns, the outcome of an operation that indexes memory,
  byte strings with little-endian loads and stores (the target machines of the Makefiles,
  x86_64 and arm64, are little endian), and the lemmas on lists, words and indices that the
  component theories share.
\<close>

unbundle bit_operations_syntax

section \<open>Types\<close>

type_synonym u8 = "8 word"
type_synonym u16 = "16 word"
type_synonym u32 = "32 word"
type_synonym u64 = "64 word"

text \<open>
  The negated error codes of the kernel side. \<open>EKernel\<close> carries a (negative) code
  that a kernel service handed to the module, which the module returns unchanged.
\<close>

datatype errno = EFAULT | EINVAL | ENODEV | ENOSPC | ENOMEM | ENXIO | EAGAIN
  | ERESTARTSYS | EKernel int

text \<open>
  An operation either returns, or it reaches an array access whose index is outside the
  array or a division by zero. C checks neither; the model stops there.
\<close>

datatype 'a outcome = Return 'a | OutOfBounds | DivideByZero

fun bind_outcome :: "'a outcome \<Rightarrow> ('a \<Rightarrow> 'b outcome) \<Rightarrow> 'b outcome" where
  "bind_outcome (Return x) f = f x"
| "bind_outcome OutOfBounds f = OutOfBounds"
| "bind_outcome DivideByZero f = DivideByZero"

lemma bind_outcome_Return:
  "(bind_outcome m f = Return y) = (\<exists>x. m = Return x \<and> f x = Return y)"
  by (cases m) auto

lemma map_outcome_bind [simp]:
  "map_outcome f (bind_outcome m g) = bind_outcome m (\<lambda>x. map_outcome f (g x))"
  by (cases m) simp_all

lemma bind_map_outcome [simp]:
  "bind_outcome (map_outcome f m) g = bind_outcome m (\<lambda>x. g (f x))"
  by (cases m) simp_all

lemma map_outcome_Return: "map_outcome f m = Return y \<Longrightarrow> \<exists>x. m = Return x \<and> y = f x"
  by (cases m) simp_all

text \<open>The remainder of C: its sign is that of the dividend.\<close>

definition c_rem :: "int \<Rightarrow> int \<Rightarrow> int" where
  "c_rem a b = sgn a * (\<bar>a\<bar> mod \<bar>b\<bar>)"

section \<open>Automation\<close>

named_theorems ring_simps "index arithmetic of the ring buffers"
named_theorems byte_simps "loads and stores on byte strings"
named_theorems layout_simps "offsets and sizes of the shared page"

section \<open>Words and indices\<close>

lemma unat_mod_word [ring_simps]:
  fixes a b :: "'a::len word"
  shows "unat (a mod b) = unat a mod unat b"
  by (simp add: unat_mod_distrib)

lemma unat_succ_small:
  fixes a :: "'a::len word"
  assumes "unat a + 1 < 2 ^ LENGTH('a)"
  shows "unat (a + 1) = unat a + 1"
  using assms by (simp add: unat_word_ariths)

lemma unat_eq_iff: "(a = b) = (unat a = unat b)"
  for a b :: "'a::len word"
  by (simp add: word_unat_eq_iff)

lemma unat_of_nat_small:
  assumes "n < 2 ^ LENGTH('a::len)"
  shows "unat (of_nat n :: 'a word) = n"
  using assms by (simp add: unat_of_nat take_bit_nat_eq_self)

section \<open>Byte strings\<close>

definition read_at :: "nat \<Rightarrow> nat \<Rightarrow> 'a list \<Rightarrow> 'a list" where
  "read_at off n bs = take n (drop off bs)"

definition write_at :: "nat \<Rightarrow> 'a list \<Rightarrow> 'a list \<Rightarrow> 'a list" where
  "write_at off xs bs = take off bs @ xs @ drop (off + length xs) bs"

lemma length_write_at [simp]:
  "off + length xs \<le> length bs \<Longrightarrow> length (write_at off xs bs) = length bs"
  by (simp add: write_at_def)

lemma nth_write_at [byte_simps]:
  assumes "off + length xs \<le> length bs" "i < length bs"
  shows "write_at off xs bs ! i =
    (if off \<le> i \<and> i < off + length xs then xs ! (i - off) else bs ! i)"
  using assms by (auto simp: write_at_def nth_append min_def)

lemma length_read_at [simp]:
  "off + n \<le> length bs \<Longrightarrow> length (read_at off n bs) = n"
  by (simp add: read_at_def)

lemma nth_read_at [byte_simps]:
  "off + n \<le> length bs \<Longrightarrow> i < n \<Longrightarrow> read_at off n bs ! i = bs ! (off + i)"
  by (simp add: read_at_def)

lemma read_at_write_same [byte_simps]:
  assumes "off + length xs \<le> length bs" "n = length xs"
  shows "read_at off n (write_at off xs bs) = xs"
  using assms by (simp add: read_at_def write_at_def)

lemma read_at_write_other [byte_simps]:
  assumes "off + length xs \<le> length bs" "o' + n \<le> length bs"
    and "o' + n \<le> off \<or> off + length xs \<le> o'"
  shows "read_at o' n (write_at off xs bs) = read_at o' n bs"
  by (rule nth_equalityI) (use assms in \<open>auto simp: nth_read_at nth_write_at\<close>)

section \<open>Little-endian words\<close>

definition le_bytes :: "nat \<Rightarrow> 'a::len word \<Rightarrow> u8 list" where
  "le_bytes n w = map (\<lambda>i. ucast (drop_bit (8 * i) w)) [0..<n]"

fun le_word :: "u8 list \<Rightarrow> 'a::len word" where
  "le_word [] = 0"
| "le_word (b # bs) = ucast b OR push_bit 8 (le_word bs)"

lemma length_le_bytes [simp]: "length (le_bytes n w) = n"
  by (simp add: le_bytes_def)

lemma le_bytes_Suc: "le_bytes (Suc n) w = ucast w # le_bytes n (drop_bit 8 w)"
  by (rule nth_equalityI)
    (auto simp: le_bytes_def nth_Cons add.commute simp del: upt_Suc split: nat.splits)

lemma le_word_le_bytes:
  "le_word (le_bytes n w) = take_bit (8 * n) (w :: 'a::len word)"
proof (induction n arbitrary: w)
  case 0
  then show ?case by (simp add: le_bytes_def)
next
  case (Suc n)
  have "le_word (le_bytes (Suc n) w)
      = ucast (ucast w :: u8) OR push_bit 8 (take_bit (8 * n) (drop_bit 8 w))"
    by (simp add: le_bytes_Suc Suc.IH)
  also have "\<dots> = take_bit (8 * Suc n) w"
    by (rule bit_word_eqI) (auto simp: bit_simps)
  finally show ?case .
qed

text \<open>Decoding what was encoded, for the widths that the code stores.\<close>

lemma le_word_le_bytes_full [byte_simps]:
  "LENGTH('a::len) \<le> 8 * n \<Longrightarrow> le_word (le_bytes n w) = (w :: 'a word)"
  by (simp add: le_word_le_bytes take_bit_word_eq_self)

definition load16 :: "nat \<Rightarrow> u8 list \<Rightarrow> u16" where
  "load16 off bs = le_word (read_at off 2 bs)"

definition load32 :: "nat \<Rightarrow> u8 list \<Rightarrow> u32" where
  "load32 off bs = le_word (read_at off 4 bs)"

definition store16 :: "nat \<Rightarrow> u16 \<Rightarrow> u8 list \<Rightarrow> u8 list" where
  "store16 off v bs = write_at off (le_bytes 2 v) bs"

definition store32 :: "nat \<Rightarrow> u32 \<Rightarrow> u8 list \<Rightarrow> u8 list" where
  "store32 off v bs = write_at off (le_bytes 4 v) bs"

lemma length_store [simp]:
  "off + 2 \<le> length bs \<Longrightarrow> length (store16 off v bs) = length bs"
  "off + 4 \<le> length bs \<Longrightarrow> length (store32 off w bs) = length bs"
  by (simp_all add: store16_def store32_def)

lemma load_store_same [byte_simps]:
  "off + 2 \<le> length bs \<Longrightarrow> load16 off (store16 off v bs) = v"
  "off + 4 \<le> length bs \<Longrightarrow> load32 off (store32 off w bs) = w"
  by (simp_all add: load16_def load32_def store16_def store32_def byte_simps)

lemma read_at_store [byte_simps]:
  "off + 2 \<le> length bs \<Longrightarrow> o' + n \<le> length bs \<Longrightarrow> o' + n \<le> off \<or> off + 2 \<le> o' \<Longrightarrow>
    read_at o' n (store16 off v bs) = read_at o' n bs"
  "off + 4 \<le> length bs \<Longrightarrow> o' + n \<le> length bs \<Longrightarrow> o' + n \<le> off \<or> off + 4 \<le> o' \<Longrightarrow>
    read_at o' n (store32 off w bs) = read_at o' n bs"
  by (simp_all add: store16_def store32_def read_at_write_other)

lemma load_store_other [byte_simps]:
  "off + 2 \<le> length bs \<Longrightarrow> o' + 2 \<le> length bs \<Longrightarrow> o' + 2 \<le> off \<or> off + 2 \<le> o' \<Longrightarrow>
    load16 o' (store16 off v bs) = load16 o' bs"
  "off + 2 \<le> length bs \<Longrightarrow> o' + 4 \<le> length bs \<Longrightarrow> o' + 4 \<le> off \<or> off + 2 \<le> o' \<Longrightarrow>
    load32 o' (store16 off v bs) = load32 o' bs"
  "off + 4 \<le> length bs \<Longrightarrow> o' + 2 \<le> length bs \<Longrightarrow> o' + 2 \<le> off \<or> off + 4 \<le> o' \<Longrightarrow>
    load16 o' (store32 off w bs) = load16 o' bs"
  "off + 4 \<le> length bs \<Longrightarrow> o' + 4 \<le> length bs \<Longrightarrow> o' + 4 \<le> off \<or> off + 4 \<le> o' \<Longrightarrow>
    load32 o' (store32 off w bs) = load32 o' bs"
  by (simp_all add: load16_def load32_def read_at_store)

end
