(* ===== verification/Layout.thy ===== *)
theory Layout
  imports Prelude
begin

text \<open>
  The shared page (\<open>include/telemetry_uapi.h\<close>, \<open>include/net_filter_uapi.h\<close>,
  \<open>include/block_filter_uapi.h\<close>): the constants of the headers, the C structures as
  records, and the layout that the C rules give those structures, computed by an executable
  layout function so that the sizes, offsets and overlays that the code depends on are
  theorems. The records keep the page by fields; the layout theorems are what allows that:
  the fields lie at disjoint offsets inside the 4096 bytes.
\<close>

section \<open>Constants of the headers\<close>

definition TELEMETRY_PAGE_SIZE :: nat where "TELEMETRY_PAGE_SIZE = 4096"
definition TELEMETRY_MINORS :: nat where "TELEMETRY_MINORS = 6"

definition MINOR_TELEMETRY_MMAP :: nat where "MINOR_TELEMETRY_MMAP = 0"
definition MINOR_TELEMETRY_CHAR :: nat where "MINOR_TELEMETRY_CHAR = 1"
definition MINOR_TELEMETRY_NET :: nat where "MINOR_TELEMETRY_NET = 2"
definition MINOR_TELEMETRY_BLOCK :: nat where "MINOR_TELEMETRY_BLOCK = 3"
definition MINOR_TELEMETRY_MEM :: nat where "MINOR_TELEMETRY_MEM = 4"
definition MINOR_TELEMETRY_CPU :: nat where "MINOR_TELEMETRY_CPU = 5"

definition PAGE_SIZE_4K :: nat where "PAGE_SIZE_4K = TELEMETRY_PAGE_SIZE"
definition ZONE_A_SIZE :: nat where "ZONE_A_SIZE = 1024"
definition ZONE_B_SIZE :: nat where "ZONE_B_SIZE = 3072"

definition TELEMETRY_RING_BUFFER_CAPACITY :: nat where
  "TELEMETRY_RING_BUFFER_CAPACITY = 1024"
definition TELEMETRY_NETFILTER_RING_BUFFER_CAPACITY :: nat where
  "TELEMETRY_NETFILTER_RING_BUFFER_CAPACITY = 768"
definition TELEMETRY_BLOCKFILTER_RING_BUFFER_CAPACITY :: nat where
  "TELEMETRY_BLOCKFILTER_RING_BUFFER_CAPACITY = 512"
definition TELEMETRY_MEMORY_RING_BUFFER_CAPACITY :: nat where
  "TELEMETRY_MEMORY_RING_BUFFER_CAPACITY = 512"
definition TELEMETRY_CPU_RING_BUFFER_CAPACITY :: nat where
  "TELEMETRY_CPU_RING_BUFFER_CAPACITY = 256"

definition TELEMETRY_FLAG_WRITER_ASLEEP :: u32 where
  "TELEMETRY_FLAG_WRITER_ASLEEP = push_bit 0 1"
definition TELEMETRY_FLAG_NET_OVERFLOW_RESET :: u32 where
  "TELEMETRY_FLAG_NET_OVERFLOW_RESET = push_bit 1 1"
definition TELEMETRY_FLAG_NET_THREAD_ACTIVE :: u32 where
  "TELEMETRY_FLAG_NET_THREAD_ACTIVE = push_bit 2 1"
definition TELEMETRY_FLAG_BLOCK_OVERFLOW_RESET :: u32 where
  "TELEMETRY_FLAG_BLOCK_OVERFLOW_RESET = push_bit 3 1"
definition TELEMETRY_FLAG_BLOCK_THREAD_ACTIVE :: u32 where
  "TELEMETRY_FLAG_BLOCK_THREAD_ACTIVE = push_bit 4 1"

lemmas minor_defs = MINOR_TELEMETRY_MMAP_def MINOR_TELEMETRY_CHAR_def
  MINOR_TELEMETRY_NET_def MINOR_TELEMETRY_BLOCK_def MINOR_TELEMETRY_MEM_def
  MINOR_TELEMETRY_CPU_def

lemmas capacity_defs [layout_simps] = TELEMETRY_PAGE_SIZE_def PAGE_SIZE_4K_def
  ZONE_A_SIZE_def ZONE_B_SIZE_def TELEMETRY_RING_BUFFER_CAPACITY_def
  TELEMETRY_NETFILTER_RING_BUFFER_CAPACITY_def TELEMETRY_BLOCKFILTER_RING_BUFFER_CAPACITY_def
  TELEMETRY_MEMORY_RING_BUFFER_CAPACITY_def TELEMETRY_CPU_RING_BUFFER_CAPACITY_def

lemmas flag_defs = TELEMETRY_FLAG_WRITER_ASLEEP_def TELEMETRY_FLAG_NET_OVERFLOW_RESET_def
  TELEMETRY_FLAG_NET_THREAD_ACTIVE_def TELEMETRY_FLAG_BLOCK_OVERFLOW_RESET_def
  TELEMETRY_FLAG_BLOCK_THREAD_ACTIVE_def

section \<open>The C layout of a structure\<close>

text \<open>
  A member is its name, its size and its alignment. \<open>packed\<close> structures lay members
  out without padding and have alignment 1; otherwise every member is placed at the next
  multiple of its alignment and the size is rounded up to the largest alignment.
\<close>

type_synonym member = "string \<times> nat \<times> nat"

definition align_up :: "nat \<Rightarrow> nat \<Rightarrow> nat" where
  "align_up n a = (n + a - 1) div a * a"

fun place :: "bool \<Rightarrow> nat \<Rightarrow> member list \<Rightarrow> (string \<times> nat \<times> nat) list" where
  "place packed n [] = []"
| "place packed n ((f, sz, al) # ms) =
     (let off = (if packed then n else align_up n al) in (f, off, sz) # place packed (off + sz) ms)"

fun struct_end :: "bool \<Rightarrow> nat \<Rightarrow> member list \<Rightarrow> nat" where
  "struct_end packed n [] = n"
| "struct_end packed n ((f, sz, al) # ms) =
     struct_end packed ((if packed then n else align_up n al) + sz) ms"

definition struct_align :: "bool \<Rightarrow> member list \<Rightarrow> nat" where
  "struct_align packed ms = (if packed then 1 else foldr (\<lambda>(f, sz, al) m. max al m) ms 1)"

definition struct_sizeof :: "bool \<Rightarrow> member list \<Rightarrow> nat" where
  "struct_sizeof packed ms = align_up (struct_end packed 0 ms) (struct_align packed ms)"

definition offsetof :: "bool \<Rightarrow> member list \<Rightarrow> string \<Rightarrow> nat option" where
  "offsetof packed ms f = map_option fst (map_of (place packed 0 ms) f)"

text \<open>A member of a nested structure lies at the sum of the two offsets.\<close>

definition offset_in :: "nat option \<Rightarrow> nat option \<Rightarrow> nat option" where
  "offset_in a b = (case (a, b) of (Some x, Some y) \<Rightarrow> Some (x + y) | _ \<Rightarrow> None)"

section \<open>The structures of the headers\<close>

text \<open>Scalars: a \<open>u32\<close> has size and alignment 4, a \<open>u16\<close> 2, a \<open>char\<close> 1.\<close>

definition rd_lane_members :: "member list" where
  "rd_lane_members = [(''rd_idx'', 4, 4)]"
definition wr_lane_members :: "member list" where
  "wr_lane_members = [(''wr_idx'', 4, 4)]"
definition net_wr_lane_members :: "member list" where
  "net_wr_lane_members = [(''wr_idx'', 4, 4), (''ticket_dispenser'', 4, 4)]"
definition ctrl_lane_members :: "member list" where
  "ctrl_lane_members = [(''state_flags'', 4, 4)]"

text \<open>\<open>ALIGN_TO_CACHELINE\<close> aligns each of the three lanes to 64 bytes.\<close>

definition tenant_lane_members :: "member list" where
  "tenant_lane_members =
    [(''rx'', struct_sizeof False rd_lane_members, 64),
     (''tx'', struct_sizeof False wr_lane_members, 64),
     (''ctrl'', struct_sizeof False ctrl_lane_members, 64)]"

definition net_tenant_lane_members :: "member list" where
  "net_tenant_lane_members =
    [(''rx'', struct_sizeof False rd_lane_members, 64),
     (''tx'', struct_sizeof False net_wr_lane_members, 64),
     (''ctrl'', struct_sizeof False ctrl_lane_members, 64)]"

definition tenant_lane_size :: nat where
  "tenant_lane_size = struct_sizeof False tenant_lane_members"

definition shared_ring_members :: "member list" where
  "shared_ring_members =
    [(''char_ctl'', tenant_lane_size, 64), (''net_ctl'', tenant_lane_size, 64),
     (''block_ctl'', tenant_lane_size, 64), (''mem_ctl'', tenant_lane_size, 64),
     (''cpu_ctl'', tenant_lane_size, 64),
     (''meta_pad'', ZONE_A_SIZE - 5 * 192, 1),
     (''char_buffer'', TELEMETRY_RING_BUFFER_CAPACITY, 1),
     (''net_buffer'', TELEMETRY_NETFILTER_RING_BUFFER_CAPACITY, 1),
     (''block_buffer'', TELEMETRY_BLOCKFILTER_RING_BUFFER_CAPACITY, 1),
     (''memory_buffer'', TELEMETRY_MEMORY_RING_BUFFER_CAPACITY, 1),
     (''cpu_buffer'', TELEMETRY_CPU_RING_BUFFER_CAPACITY, 1)]"

definition net_packet_metric_members :: "member list" where
  "net_packet_metric_members =
    [(''src_ip'', 4, 4), (''dest_ip'', 4, 4), (''src_port'', 2, 2), (''dest_port'', 2, 2),
     (''pkt_len'', 4, 4)]"

definition net_payload_slot_members :: "member list" where
  "net_payload_slot_members =
    [(''packet_metrics'', struct_sizeof True net_packet_metric_members,
        struct_align True net_packet_metric_members),
     (''slot_ticket'', 4, 4), (''reserved'', 12, 1)]"

definition NETFILTER_SLOT_SIZE :: nat where
  "NETFILTER_SLOT_SIZE = struct_sizeof False net_payload_slot_members"
definition NETFILTER_SLOT_CAPACITY :: nat where
  "NETFILTER_SLOT_CAPACITY = TELEMETRY_NETFILTER_RING_BUFFER_CAPACITY div NETFILTER_SLOT_SIZE"

definition block_io_metric_members :: "member list" where
  "block_io_metric_members =
    [(''dev_major'', 4, 4), (''dev_minor'', 4, 4), (''sector_low'', 4, 4), (''sector_high'', 4, 4),
     (''nr_sectors'', 4, 4), (''bytes'', 4, 4), (''op'', 4, 4), (''flags'', 4, 4)]"

definition block_payload_slot_members :: "member list" where
  "block_payload_slot_members =
    [(''io_metrics'', struct_sizeof True block_io_metric_members,
        struct_align True block_io_metric_members),
     (''slot_ticket'', 4, 4), (''reserved'', 28, 1)]"

definition BLOCKFILTER_SLOT_SIZE :: nat where
  "BLOCKFILTER_SLOT_SIZE = struct_sizeof False block_payload_slot_members"
definition BLOCKFILTER_SLOT_CAPACITY :: nat where
  "BLOCKFILTER_SLOT_CAPACITY =
     TELEMETRY_BLOCKFILTER_RING_BUFFER_CAPACITY div BLOCKFILTER_SLOT_SIZE"

lemmas member_defs = rd_lane_members_def wr_lane_members_def net_wr_lane_members_def
  ctrl_lane_members_def tenant_lane_members_def net_tenant_lane_members_def
  tenant_lane_size_def shared_ring_members_def net_packet_metric_members_def
  net_payload_slot_members_def block_io_metric_members_def block_payload_slot_members_def

lemmas struct_defs = struct_sizeof_def struct_align_def align_up_def offsetof_def offset_in_def

lemma tenant_lane_size [layout_simps]: "tenant_lane_size = 192"
  by (simp add: member_defs struct_defs)

lemma net_slot_size [layout_simps]: "NETFILTER_SLOT_SIZE = 32"
  by (simp add: NETFILTER_SLOT_SIZE_def member_defs struct_defs)

lemma net_slot_capacity [layout_simps]: "NETFILTER_SLOT_CAPACITY = 24"
  by (simp add: NETFILTER_SLOT_CAPACITY_def layout_simps)

lemma block_slot_size [layout_simps]: "BLOCKFILTER_SLOT_SIZE = 64"
  by (simp add: BLOCKFILTER_SLOT_SIZE_def member_defs struct_defs)

lemma block_slot_capacity [layout_simps]: "BLOCKFILTER_SLOT_CAPACITY = 8"
  by (simp add: BLOCKFILTER_SLOT_CAPACITY_def layout_simps)

text \<open>Where every member of the page lies.\<close>

lemma shared_ring_placement:
  "place False 0 shared_ring_members =
    [(''char_ctl'', 0, 192), (''net_ctl'', 192, 192), (''block_ctl'', 384, 192),
     (''mem_ctl'', 576, 192), (''cpu_ctl'', 768, 192), (''meta_pad'', 960, 64),
     (''char_buffer'', 1024, 1024), (''net_buffer'', 2048, 768), (''block_buffer'', 2816, 512),
     (''memory_buffer'', 3328, 512), (''cpu_buffer'', 3840, 256)]"
  by (simp add: shared_ring_members_def layout_simps align_up_def)

fun contiguous :: "nat \<Rightarrow> (string \<times> nat \<times> nat) list \<Rightarrow> nat \<Rightarrow> bool" where
  "contiguous n [] e = (n = e)"
| "contiguous n ((f, off, sz) # ps) e = (off = n \<and> contiguous (off + sz) ps e)"

section \<open>The page as a record\<close>

text \<open>
  \<open>tenant_lane_t\<close> and \<open>net_tenant_lane_t\<close>. The code reads the network lane of
  the page through a cast to \<open>net_tenant_lane_t\<close>, whose additional counter lies in the
  padding of \<open>tenant_lane_t\<close>; the record extension is that overlay.
\<close>

record tenant_lane =
  rd_idx :: u32
  wr_idx :: u32
  state_flags :: u32

record net_tenant_lane = tenant_lane +
  ticket_dispenser :: u32

record shared_ring =
  char_ctl :: tenant_lane
  net_ctl :: net_tenant_lane
  block_ctl :: tenant_lane
  mem_ctl :: tenant_lane
  cpu_ctl :: tenant_lane
  char_buffer :: "u8 list"
  net_buffer :: "u8 list"
  block_buffer :: "u8 list"
  memory_buffer :: "u8 list"
  cpu_buffer :: "u8 list"

text \<open>What \<open>get_zeroed_page\<close> hands out.\<close>

definition zero_lane :: tenant_lane where
  "zero_lane = \<lparr>rd_idx = 0, wr_idx = 0, state_flags = 0\<rparr>"

definition zeroed_page :: shared_ring where
  "zeroed_page = \<lparr>char_ctl = zero_lane,
     net_ctl = \<lparr>rd_idx = 0, wr_idx = 0, state_flags = 0, ticket_dispenser = 0\<rparr>,
     block_ctl = zero_lane, mem_ctl = zero_lane, cpu_ctl = zero_lane,
     char_buffer = replicate TELEMETRY_RING_BUFFER_CAPACITY 0,
     net_buffer = replicate TELEMETRY_NETFILTER_RING_BUFFER_CAPACITY 0,
     block_buffer = replicate TELEMETRY_BLOCKFILTER_RING_BUFFER_CAPACITY 0,
     memory_buffer = replicate TELEMETRY_MEMORY_RING_BUFFER_CAPACITY 0,
     cpu_buffer = replicate TELEMETRY_CPU_RING_BUFFER_CAPACITY 0\<rparr>"

text \<open>The arrays of the page have the lengths of their declarations.\<close>

definition page_ok :: "shared_ring \<Rightarrow> bool" where
  "page_ok r \<longleftrightarrow>
     length (char_buffer r) = TELEMETRY_RING_BUFFER_CAPACITY \<and>
     length (net_buffer r) = TELEMETRY_NETFILTER_RING_BUFFER_CAPACITY \<and>
     length (block_buffer r) = TELEMETRY_BLOCKFILTER_RING_BUFFER_CAPACITY \<and>
     length (memory_buffer r) = TELEMETRY_MEMORY_RING_BUFFER_CAPACITY \<and>
     length (cpu_buffer r) = TELEMETRY_CPU_RING_BUFFER_CAPACITY"

lemma page_ok_zeroed [simp]: "page_ok zeroed_page"
  by (simp add: page_ok_def zeroed_page_def)

text \<open>The metric of a packet, \<open>struct net_packet_metric\<close>, and its 16 bytes.\<close>

record net_packet_metric =
  src_ip :: u32
  dest_ip :: u32
  src_port :: u16
  dest_port :: u16
  pkt_len :: u32

definition metric_bytes :: "net_packet_metric \<Rightarrow> u8 list" where
  "metric_bytes m = le_bytes 4 (src_ip m) @ le_bytes 4 (dest_ip m) @ le_bytes 2 (src_port m)
     @ le_bytes 2 (dest_port m) @ le_bytes 4 (pkt_len m)"

definition sizeof_net_packet_metric :: nat where
  "sizeof_net_packet_metric = struct_sizeof True net_packet_metric_members"

lemma sizeof_metric [layout_simps]: "sizeof_net_packet_metric = 16"
  by (simp add: sizeof_net_packet_metric_def member_defs struct_defs)

lemma length_metric_bytes [simp]: "length (metric_bytes m) = 16"
  by (simp add: metric_bytes_def)

section \<open>Properties of the layout\<close>

text \<open>
  The page is exactly 4096 bytes: the members of \<open>shared_telemetry_ring\<close> follow one
  another without gap or overlap, Zone A (five 192-byte lanes and the padding) fills the
  first 1024 bytes and the five buffers the other 3072.
\<close>

theorem shared_ring_fills_page:
  "struct_sizeof False shared_ring_members = TELEMETRY_PAGE_SIZE
   \<and> contiguous 0 (place False 0 shared_ring_members) TELEMETRY_PAGE_SIZE
   \<and> offsetof False shared_ring_members ''char_buffer'' = Some ZONE_A_SIZE
   \<and> ZONE_A_SIZE + ZONE_B_SIZE = TELEMETRY_PAGE_SIZE"
proof -
  have "struct_sizeof False shared_ring_members = TELEMETRY_PAGE_SIZE"
    by (simp add: shared_ring_members_def struct_defs layout_simps)
  moreover have "contiguous 0 (place False 0 shared_ring_members) TELEMETRY_PAGE_SIZE"
    by (simp add: shared_ring_placement layout_simps)
  moreover have "offsetof False shared_ring_members ''char_buffer'' = Some ZONE_A_SIZE"
    by (simp add: offsetof_def shared_ring_placement layout_simps)
  moreover have "ZONE_A_SIZE + ZONE_B_SIZE = TELEMETRY_PAGE_SIZE"
    by (simp add: layout_simps)
  ultimately show ?thesis by blast
qed

text \<open>
  The casts are overlays: \<open>net_tenant_lane_t\<close> has the size of
  \<open>tenant_lane_t\<close>, the three shared fields lie at the same offsets in both, the
  additional ticket counter lies in padding that no field of \<open>tenant_lane_t\<close> uses,
  every field starts its own cache line, and the slot pools fill the network and block
  buffers (24 slots of 32 bytes, 8 slots of 64 bytes) exactly.
\<close>

theorem casts_are_overlays:
  "struct_sizeof False net_tenant_lane_members = struct_sizeof False tenant_lane_members
   \<and> offset_in (offsetof False net_tenant_lane_members ''rx'')
          (offsetof False rd_lane_members ''rd_idx'')
       = offset_in (offsetof False tenant_lane_members ''rx'')
          (offsetof False rd_lane_members ''rd_idx'')
   \<and> offset_in (offsetof False net_tenant_lane_members ''tx'')
          (offsetof False net_wr_lane_members ''wr_idx'')
       = offset_in (offsetof False tenant_lane_members ''tx'')
          (offsetof False wr_lane_members ''wr_idx'')
   \<and> offset_in (offsetof False net_tenant_lane_members ''ctrl'')
          (offsetof False ctrl_lane_members ''state_flags'')
       = offset_in (offsetof False tenant_lane_members ''ctrl'')
          (offsetof False ctrl_lane_members ''state_flags'')
   \<and> offset_in (offsetof False net_tenant_lane_members ''tx'')
          (offsetof False net_wr_lane_members ''ticket_dispenser'') = Some 68
   \<and> place False 0 tenant_lane_members = [(''rx'', 0, 4), (''tx'', 64, 4), (''ctrl'', 128, 4)]
   \<and> NETFILTER_SLOT_CAPACITY * NETFILTER_SLOT_SIZE = TELEMETRY_NETFILTER_RING_BUFFER_CAPACITY
   \<and> BLOCKFILTER_SLOT_CAPACITY * BLOCKFILTER_SLOT_SIZE
       = TELEMETRY_BLOCKFILTER_RING_BUFFER_CAPACITY"
  by (intro conjI) (simp_all add: member_defs struct_defs layout_simps)

end
