(* ===== verification/TicketRing.thy ===== *)
theory TicketRing
  imports Layout
begin

text \<open>
  The slot rings of the packet and block tenants. A producer draws a ticket from a counter,
  fills slot \<open>ticket mod N\<close> and stamps it with the ticket; a consumer walks the expected
  ticket numbers and compares stamps. The first part is the contract of such a ring (a locale)
  with the history it holds. The second part is the two walks that both consumers of the code
  make over the stamps, \<open>Scatter-Gather\<close> and \<open>Skip-Ahead\<close>, with the termination
  of their loops and what they find on a ring that holds a given history.
\<close>

section \<open>Ticket arithmetic\<close>

lemma sint_nonneg_iff: "(0 \<le> sint w) = (unat w < 2 ^ 31)" for w :: u32
proof
  assume nonneg: "0 \<le> sint w"
  have less: "sint w < 2 ^ 31" using sint_less [of w] by simp
  have "uint w = take_bit 32 (sint w)" by (simp add: uint_sint)
  also have "\<dots> = sint w" using nonneg less by (simp add: take_bit_int_eq_self)
  finally have "int (unat w) < int (2 ^ 31)" using less by simp
  then show "unat w < 2 ^ 31" by (simp only: of_nat_less_iff)
next
  assume "unat w < 2 ^ 31"
  then have "int (unat w) < int (2 ^ 31)" by (simp only: of_nat_less_iff)
  then have "uint w < 2 ^ 31" by (simp only: of_nat_unat of_nat_power of_nat_numeral)
  moreover have "- (2 ^ 31) \<le> uint w" by (rule order_trans [of _ 0]) simp_all
  ultimately have "signed_take_bit 31 (uint w) = uint w" by (intro signed_take_bit_int_eq_self)
  then have "sint w = uint w" by (simp add: sint_uint)
  then show "0 \<le> sint w" by simp
qed

lemma unat_diff_succ:
  "w \<noteq> e \<Longrightarrow> unat (w - (e + 1)) + 1 = unat (w - e)" for w e :: u32
proof -
  assume "w \<noteq> e"
  then have "w - e \<noteq> 0" by simp
  then have "unat (w - e - 1) = unat (w - e) - 1" "0 < unat (w - e)"
    by (simp_all add: unat_minus_one unat_gt_0)
  then show ?thesis by (simp add: diff_diff_add [symmetric])
qed

lemma of_nat_word_inj:
  "a < 2 ^ 32 \<Longrightarrow> b < 2 ^ 32 \<Longrightarrow> (of_nat a = (of_nat b :: u32)) = (a = b)"
  by (simp add: word_of_nat_eq_iff take_bit_nat_eq_self)

text \<open>The slot number: the remainder by a \<open>size_t\<close> is taken in 64 bits and cut to 32.\<close>

lemma unat_slot_number:
  fixes t :: u32
  assumes "0 < n" "n < 2 ^ 32"
  shows "unat (ucast (ucast t mod of_nat n :: u64) :: u32) = unat t mod n"
proof -
  have less: "unat t mod n < 2 ^ 32" by (rule order_less_trans [of _ n]) (use assms in simp_all)
  have "take_bit 64 (unat t) = unat t"
    by (rule take_bit_nat_eq_self) (rule order_less_trans [OF unsigned_less], simp)
  moreover have "unat (of_nat n :: u64) = n" by (rule unat_of_nat_small) (use assms in simp)
  ultimately have "unat (ucast t mod of_nat n :: u64) = unat t mod n"
    by (simp add: unat_mod_distrib unsigned_ucast_eq)
  then show ?thesis using less by (simp add: unsigned_ucast_eq take_bit_nat_eq_self)
qed

text \<open>Different slots of size \<open>s\<close> do not overlap.\<close>

lemma slots_apart: "i \<noteq> j \<Longrightarrow> i * s + s \<le> j * s \<or> j * s + s \<le> i * s" for i j s :: nat
proof (induction i j rule: linorder_wlog)
  case (le a b)
  then have "Suc a * s \<le> b * s" by (intro mult_le_mono1) simp
  then show ?case by simp
next
  case (sym a b)
  then show ?case by auto
qed

section \<open>The contract of a ticket ring\<close>

text \<open>
  What a ring of \<open>n\<close> slots holds after the payloads \<open>h\<close> were pushed in this order:
  the counter is their number, the last \<open>n\<close> of them are in their slots with their
  tickets, and a slot that was never used has ticket 0.
\<close>

definition ring_holds ::
  "nat \<Rightarrow> u32 \<Rightarrow> (nat \<Rightarrow> u32) \<Rightarrow> (nat \<Rightarrow> 'm) \<Rightarrow> 'm list \<Rightarrow> bool" where
  "ring_holds n counter tick pay h \<longleftrightarrow>
     counter = of_nat (length h)
     \<and> (\<forall>t < length h. length h \<le> t + n \<longrightarrow> tick (t mod n) = of_nat t \<and> pay (t mod n) = h ! t)
     \<and> (\<forall>i < n. length h \<le> i \<longrightarrow> tick i = 0)"

locale ticket_ring =
  fixes n :: nat
    and ok :: "'s \<Rightarrow> bool"
    and counter :: "'s \<Rightarrow> u32"
    and tick :: "'s \<Rightarrow> nat \<Rightarrow> u32"
    and pay :: "'s \<Rightarrow> nat \<Rightarrow> 'm"
    and push :: "'m \<Rightarrow> 's \<Rightarrow> 's"
  assumes slots: "0 < n"
    and push_ok: "ok s \<Longrightarrow> ok (push m s)"
    and push_counter: "ok s \<Longrightarrow> counter (push m s) = counter s + 1"
    and push_tick: "ok s \<Longrightarrow> i < n \<Longrightarrow>
      tick (push m s) i = (if i = unat (counter s) mod n then counter s else tick s i)"
    and push_pay: "ok s \<Longrightarrow> i < n \<Longrightarrow>
      pay (push m s) i = (if i = unat (counter s) mod n then m else pay s i)"
begin

abbreviation holds :: "'m list \<Rightarrow> 's \<Rightarrow> bool" where
  "holds h s \<equiv> ring_holds n (counter s) (tick s) (pay s) h"

text \<open>Two tickets of one window share a slot only if they are equal.\<close>

lemma window_slot:
  assumes "t < l" "l < t + n" "t mod n = l mod n"
  shows False
proof -
  have "(l - t) mod n = 0"
    using assms by (metis dvd_minus_mod less_imp_le_nat mod_eq_dvd_iff_nat mod_0_imp_dvd
        dvd_imp_mod_0)
  then show False using assms by (simp add: mod_eq_0_iff_dvd nat_dvd_not_less)
qed

lemma holds_push_slot:
  assumes s: "ok s" "holds h s" and same: "unat (counter s) mod n = length h mod n"
  shows "holds (h @ [m]) (push m s)"
proof -
  let ?l = "length h"
  have c: "counter s = of_nat ?l" using s(2) by (simp add: ring_holds_def)
  have slot: "i < n \<Longrightarrow> tick (push m s) i = (if i = ?l mod n then of_nat ?l else tick s i)"
    "i < n \<Longrightarrow> pay (push m s) i = (if i = ?l mod n then m else pay s i)" for i
    using push_tick [OF s(1)] push_pay [OF s(1)] c same by auto
  have old: "tick (push m s) (t mod n) = of_nat t \<and> pay (push m s) (t mod n) = (h @ [m]) ! t"
    if t: "t < Suc ?l" "Suc ?l \<le> t + n" for t
  proof (cases "t = ?l")
    case True
    then show ?thesis using slot slots by simp
  next
    case False
    then have "t mod n \<noteq> ?l mod n" using t window_slot [of t ?l] by auto
    then show ?thesis
      using slot [of "t mod n"] slots s(2) t False by (auto simp: ring_holds_def nth_append)
  qed
  have fresh: "tick (push m s) i = 0" if "i < n" "Suc ?l \<le> i" for i
  proof -
    have "?l mod n = ?l" using that by simp
    then show ?thesis using slot(1) [of i] that s(2) by (auto simp: ring_holds_def)
  qed
  show ?thesis
    using old fresh push_counter [OF s(1)] c by (simp add: ring_holds_def)
qed

text \<open>
  Any sequence of pushes: up to the wrap-around of the counter for every number of slots, and
  without end if the number of slots divides the number of counter values.
\<close>

lemma holds_slot:
  assumes "holds h s" "length h < 2 ^ 32 \<or> n dvd 2 ^ 32"
  shows "unat (counter s) mod n = length h mod n"
proof -
  have "unat (counter s) = length h mod 2 ^ 32" using assms(1) by (simp add: ring_holds_def unat_of_nat)
  then show ?thesis using assms(2) by (auto simp: mod_mod_cancel)
qed

lemma holds_push_all:
  assumes "ok s" "holds h s" "length h + length ms \<le> 2 ^ 32 \<or> n dvd 2 ^ 32"
  shows "ok (fold push ms s) \<and> holds (h @ ms) (fold push ms s)"
  using assms
proof (induction ms arbitrary: h s)
  case Nil
  then show ?case by simp
next
  case (Cons m ms)
  then have "unat (counter s) mod n = length h mod n" by (intro holds_slot) auto
  then have "holds (h @ [m]) (push m s)" by (rule holds_push_slot [OF Cons.prems(1,2)])
  from Cons.IH [OF push_ok [OF Cons.prems(1)] this] Cons.prems(3) show ?case by simp
qed

text \<open>
  Otherwise the slot of the first ticket after the wrap-around is that of a ticket which is
  younger than \<open>n\<close>: its record is gone, and that of the oldest ticket stays.
\<close>

lemma wrap_push:
  assumes s: "ok s" "holds h s" and len: "length h = 2 ^ 32" and n: "\<not> n dvd 2 ^ 32" "n < 2 ^ 32"
  defines "k \<equiv> 2 ^ 32 mod n"
  shows "0 < k" "k < n" "tick s 0 = of_nat (2 ^ 32 - k)" "pay s 0 = h ! (2 ^ 32 - k)"
    "tick (push m s) 0 = 0" "pay (push m s) 0 = m" "tick (push m s) k = of_nat (2 ^ 32 - n)"
    "pay (push m s) k = h ! (2 ^ 32 - n)"
proof -
  show k: "0 < k" "k < n" using n slots by (auto simp: k_def dvd_eq_mod_eq_0)
  have zero: "counter s = 0" using s(2) len by (simp add: ring_holds_def)
  have window: "tick s (t mod n) = of_nat t \<and> pay s (t mod n) = h ! t"
    if "t < 2 ^ 32" "2 ^ 32 \<le> t + n" for t
    using s(2) that len unfolding ring_holds_def by simp
  have "(2 ^ 32 - k) mod n = 0" by (simp add: k_def minus_mod_eq_mult_div)
  then show "tick s 0 = of_nat (2 ^ 32 - k)" "pay s 0 = h ! (2 ^ 32 - k)"
    using window [of "2 ^ 32 - k"] k n(2) by simp_all
  show "tick (push m s) 0 = 0" "pay (push m s) 0 = m"
    using push_tick [OF s(1), of 0 m] push_pay [OF s(1), of 0 m] slots zero by simp_all
  have "(2 ^ 32 - n) mod n = k" using n(2) by (simp add: k_def le_mod_geq)
  then show "tick (push m s) k = of_nat (2 ^ 32 - n)" "pay (push m s) k = h ! (2 ^ 32 - n)"
    using window [of "2 ^ 32 - n"] push_tick [OF s(1), of k m] push_pay [OF s(1), of k m] k n(2) slots zero
    by simp_all
qed

end

section \<open>The walks over the stamps\<close>

text \<open>Every slot that a ticket has reached is that of one of the last tickets.\<close>

lemma window_of_slot:
  assumes "i < n" "i < l"
  shows "\<exists>v<l. l \<le> v + n \<and> v mod n = (i :: nat)"
proof -
  let ?q = "(l - 1 - i) div n"
  have "n * ?q + (l - 1 - i) mod n = l - 1 - i" by simp
  moreover have "(l - 1 - i) mod n < n" using assms(1) by simp
  ultimately have "i + n * ?q < l" "l \<le> i + n * ?q + n" using assms(2) by linarith+
  moreover have "(i + n * ?q) mod n = i" using assms(1) by simp
  ultimately show ?thesis by blast
qed

text \<open>
  What a walk does with a slot: it looks at the slot of a ticket, or it accepts the slot as the
  packet of that ticket.
\<close>

datatype action = Examine u32 | Accept u32

definition slot_of :: "nat \<Rightarrow> u32 \<Rightarrow> nat" where
  "slot_of n e = unat e mod n"

definition hit :: "nat \<Rightarrow> (nat \<Rightarrow> u32) \<Rightarrow> u32 \<Rightarrow> bool" where
  "hit n tick e \<longleftrightarrow> tick (slot_of n e) = e"

text \<open>
  Among \<open>n + 1\<close> successive tickets one has no slot that bears its stamp: two of them share
  a slot. That ends the Scatter-Gather walk.
\<close>

definition run_length :: "nat \<Rightarrow> (nat \<Rightarrow> u32) \<Rightarrow> u32 \<Rightarrow> nat" where
  "run_length n tick e = (LEAST k. \<not> hit n tick (e + of_nat k))"

lemma some_miss:
  assumes "0 < n" "n < 2 ^ 32"
  shows "\<exists>k \<le> n. \<not> hit n tick (e + of_nat k)"
proof (rule ccontr)
  assume "\<not> ?thesis"
  then have all: "tick (slot_of n (e + of_nat k)) = e + of_nat k" if "k \<le> n" for k
    using that by (auto simp: hit_def)
  have "inj_on (\<lambda>k. slot_of n (e + of_nat k)) {0..n}"
  proof (rule inj_onI)
    fix a b
    assume "a \<in> {0..n}" "b \<in> {0..n}"
      and same: "slot_of n (e + of_nat a) = slot_of n (e + of_nat b)"
    then have le: "a \<le> n" "b \<le> n" by auto
    have "tick (slot_of n (e + of_nat a)) = e + of_nat a" by (rule all) (rule le)
    moreover have "tick (slot_of n (e + of_nat b)) = e + of_nat b" by (rule all) (rule le)
    ultimately have "e + of_nat a = e + of_nat b" by (metis same)
    then have "(of_nat a :: u32) = of_nat b" by (simp only: add_left_cancel)
    moreover have "a < 2 ^ 32" "b < 2 ^ 32"
      using le assms(2) by linarith+
    ultimately show "a = b" by (simp only: of_nat_word_inj)
  qed
  moreover have "(\<lambda>k. slot_of n (e + of_nat k)) ` {0..n} \<subseteq> {0..<n}"
    using assms(1) by (auto simp: slot_of_def)
  ultimately have "card {0..n} \<le> card {0..<n}" by (intro card_inj_on_le) auto
  then show False by simp
qed

lemma run_length_le:
  assumes "0 < n" "n < 2 ^ 32"
  shows "run_length n tick e \<le> n"
proof -
  obtain k where k: "k \<le> n" "\<not> hit n tick (e + of_nat k)" using some_miss [OF assms] by blast
  have "run_length n tick e \<le> k" unfolding run_length_def by (rule Least_le) (rule k(2))
  with k(1) show ?thesis by simp
qed

lemma run_length_miss:
  assumes "0 < n" "n < 2 ^ 32"
  shows "\<not> hit n tick (e + of_nat (run_length n tick e))"
proof -
  obtain k where "\<not> hit n tick (e + of_nat k)" using some_miss [OF assms] by blast
  then show ?thesis unfolding run_length_def by (rule LeastI)
qed

lemma run_length_hit: "k < run_length n tick e \<Longrightarrow> hit n tick (e + of_nat k)"
  unfolding run_length_def by (drule not_less_Least) simp

lemma run_length_unique:
  assumes "\<forall>k < m. hit n tick (e + of_nat k)" "\<not> hit n tick (e + of_nat m)"
  shows "run_length n tick e = m"
  unfolding run_length_def
  by (rule Least_equality) (use assms linorder_not_less in blast)+

lemma run_length_step:
  assumes "0 < n" "n < 2 ^ 32" "hit n tick e"
  shows "run_length n tick e = Suc (run_length n tick (e + 1))"
proof (rule run_length_unique)
  let ?m = "run_length n tick (e + 1)"
  have shift: "e + of_nat (Suc k) = e + 1 + of_nat k" for k by (simp add: add.assoc)
  show "\<forall>k < Suc ?m. hit n tick (e + of_nat k)"
  proof (intro allI impI)
    fix k assume "k < Suc ?m"
    then show "hit n tick (e + of_nat k)"
    proof (cases k)
      case 0
      then show ?thesis using assms(3) by simp
    next
      case (Suc j)
      have "hit n tick (e + 1 + of_nat j)"
        by (rule run_length_hit) (use \<open>k < Suc ?m\<close> Suc in simp)
      then show ?thesis unfolding Suc shift .
    qed
  qed
  show "\<not> hit n tick (e + of_nat (Suc ?m))"
    using run_length_miss [OF assms(1,2), of tick "e + 1"] unfolding shift .
qed

text \<open>
  The Scatter-Gather walk: accept successive tickets until the first that is missing. The
  number of slots is a positive constant of the code.
\<close>

function gather :: "nat \<Rightarrow> (nat \<Rightarrow> u32) \<Rightarrow> u32 \<Rightarrow> u32 \<times> action list" where
  "gather n tick e =
     (if 0 < n \<and> n < 2 ^ 32 \<and> tick (slot_of n e) = e
      then (case gather n tick (e + 1) of (e', acts) \<Rightarrow> (e', Examine e # Accept e # acts))
      else (e, [Examine e]))"
  by pat_completeness auto
termination
  by (relation "measure (\<lambda>(n, tick, e). run_length n tick e)")
    (auto simp: run_length_step hit_def)

declare gather.simps [simp del]

definition visits :: "u32 list \<Rightarrow> action list" where
  "visits es = concat (map (\<lambda>e. [Examine e, Accept e]) es)"

lemma visits_simps [simp]:
  "visits [] = []" "visits (e # es) = Examine e # Accept e # visits es"
  "visits (es @ fs) = visits es @ visits fs"
  by (simp_all add: visits_def)

definition tickets_from :: "u32 \<Rightarrow> nat \<Rightarrow> u32 list" where
  "tickets_from e k = map (\<lambda>i. e + of_nat i) [0..<k]"

lemma tickets_from_0 [simp]: "tickets_from e 0 = []"
  by (simp add: tickets_from_def)

lemma tickets_from_Suc: "tickets_from e (Suc k) = e # tickets_from (e + 1) k"
  by (rule nth_equalityI)
    (auto simp: tickets_from_def nth_Cons add.assoc simp del: upt_Suc split: nat.splits)

lemma gather_spec:
  assumes "0 < n" "n < 2 ^ 32"
  shows "gather n tick e = (e + of_nat (run_length n tick e),
    visits (tickets_from e (run_length n tick e)) @ [Examine (e + of_nat (run_length n tick e))])"
  using assms
proof (induction n tick e rule: gather.induct)
  case (1 n tick e)
  show ?case
  proof (cases "hit n tick e")
    case True
    then show ?thesis
      using 1 by (subst gather.simps) (simp add: hit_def run_length_step tickets_from_Suc add.assoc)
  next
    case False
    then have "run_length n tick e = 0" using run_length_unique [of 0] by simp
    then show ?thesis using False by (subst gather.simps) (simp add: hit_def)
  qed
qed


text \<open>
  The Skip-Ahead walk goes up to a hint, compared by cyclic distance. \<open>scan\<close> looks past a
  hole for the next ticket that is there; \<open>skip\<close> accepts tickets and leaps over holes.
\<close>

definition within :: "u32 \<Rightarrow> u32 \<Rightarrow> bool" where
  "within hint e \<longleftrightarrow> 0 \<le> sint (hint - e)"

definition distance :: "u32 \<Rightarrow> u32 \<Rightarrow> nat" where
  "distance hint e = (if within hint e then unat (hint - e) + 1 else 0)"

lemma distance_step: "within hint e \<Longrightarrow> distance hint (e + 1) < distance hint e"
  using unat_diff_succ [of hint e]
  by (cases "hint = e") (auto simp: distance_def within_def sint_nonneg_iff)

function scan :: "nat \<Rightarrow> (nat \<Rightarrow> u32) \<Rightarrow> u32 \<Rightarrow> u32 \<Rightarrow> u32 option \<times> action list" where
  "scan n tick hint s =
     (if within hint s then
        if tick (slot_of n s) = s then (Some s, [Examine s])
        else (case scan n tick hint (s + 1) of (r, acts) \<Rightarrow> (r, Examine s # acts))
      else (None, []))"
  by pat_completeness auto
termination
  by (relation "measure (\<lambda>(n, tick, hint, s). distance hint s)") (auto simp: distance_step)

declare scan.simps [simp del]

text \<open>A scan that finds a ticket found a hit within the hint, not before where it started.\<close>

lemma scan_Some:
  "scan n tick hint s = (Some t, acts) \<Longrightarrow>
     within hint t \<and> hit n tick t \<and> distance hint t \<le> distance hint s"
proof (induction n tick hint s arbitrary: acts rule: scan.induct)
  case (1 n tick hint s)
  show ?case
  proof (cases "within hint s \<and> \<not> hit n tick s")
    case True
    obtain acts' where "scan n tick hint (s + 1) = (Some t, acts')"
      using "1.prems" True by (auto simp: scan.simps [of n tick hint s] hit_def split: prod.splits)
    then show ?thesis
      using "1.IH" True distance_step [of hint s] by (fastforce simp: hit_def)
  next
    case False
    then show ?thesis
      using "1.prems" by (auto simp: scan.simps [of n tick hint s] hit_def split: if_splits)
  qed
qed

function skip :: "nat \<Rightarrow> (nat \<Rightarrow> u32) \<Rightarrow> u32 \<Rightarrow> u32 \<Rightarrow> u32 \<times> action list" where
  "skip n tick hint e =
     (if within hint e then
        if tick (slot_of n e) = e then
          (case skip n tick hint (e + 1) of (e', acts) \<Rightarrow> (e', Examine e # Accept e # acts))
        else
          (case scan n tick hint (e + 1) of
             (Some scan_ticket, scanned) \<Rightarrow>
               (case skip n tick hint scan_ticket of
                  (e', acts) \<Rightarrow> (e', Examine e # scanned @ acts))
           | (None, scanned) \<Rightarrow> (e, Examine e # scanned))
      else (e, []))"
  by pat_completeness auto
termination
proof (relation "measure (\<lambda>(n, tick, hint, e). distance hint e)", goal_cases)
  case 1
  then show ?case by simp
next
  case 2
  then show ?case by (simp add: distance_step)
next
  case (3 n tick hint e x scanned t)
  then have "distance hint t \<le> distance hint (e + 1)"
    using scan_Some [of n tick hint "e + 1" t scanned] by simp
  also have "\<dots> < distance hint e" using 3 by (simp add: distance_step)
  finally show ?case by simp
qed

declare skip.simps [simp del]

text \<open>The tickets a walk accepted.\<close>

definition accepted :: "action list \<Rightarrow> u32 list" where
  "accepted acts = concat (map (\<lambda>a. case a of Accept e \<Rightarrow> [e] | Examine e \<Rightarrow> []) acts)"

lemma accepted_simps [simp]:
  "accepted [] = []" "accepted (Examine e # acts) = accepted acts"
  "accepted (Accept e # acts) = e # accepted acts" "accepted (as @ bs) = accepted as @ accepted bs"
  by (simp_all add: accepted_def)

lemma accepted_visits [simp]: "accepted (visits es) = es"
  by (induction es) auto

lemma scan_accepts_nothing: "scan n tick hint s = (r, acts) \<Longrightarrow> accepted acts = []"
proof (induction n tick hint s arbitrary: r acts rule: scan.induct)
  case (1 n tick hint s)
  then show ?case
    by (auto simp: scan.simps [of n tick hint s] split: if_splits prod.splits)
qed

section \<open>The walks in natural numbers\<close>

text \<open>
  Below \<open>2 ^ 31\<close> tickets the cyclic comparison is the comparison of the ticket numbers.
\<close>

lemma within_of_nat:
  assumes "a < 2 ^ 31" "b < 2 ^ 31"
  shows "within (of_nat a) (of_nat b) = (b \<le> a)"
proof -
  have u: "unat (of_nat a :: u32) = a" "unat (of_nat b :: u32) = b"
    by (rule unat_of_nat_small; use assms in simp)+
  have "unat (of_nat a - of_nat b :: u32) = (if b \<le> a then a - b else a + 2 ^ 32 - b)"
    by (simp add: unat_sub_if' u)
  then show ?thesis using assms by (auto simp: within_def sint_nonneg_iff)
qed

lemma scan_nat:
  assumes "H < 2 ^ 31 - 1" "t \<le> H + 1"
  shows "\<exists>acts. accepted acts = [] \<and>
    (if \<exists>i. t \<le> i \<and> i \<le> H \<and> hit n tick (of_nat i)
     then \<exists>i. t \<le> i \<and> i \<le> H \<and> hit n tick (of_nat i)
       \<and> (\<forall>j. t \<le> j \<and> j < i \<longrightarrow> \<not> hit n tick (of_nat j))
       \<and> scan n tick (of_nat H) (of_nat t) = (Some (of_nat i), acts)
     else scan n tick (of_nat H) (of_nat t) = (None, acts))"
  using assms(2)
proof (induction "H + 1 - t" arbitrary: t)
  case 0
  then have "\<not> within (of_nat H) (of_nat t)" "\<not> (\<exists>i. t \<le> i \<and> i \<le> H)"
    using assms(1) within_of_nat [of H t] by auto
  moreover from this(1) have "scan n tick (of_nat H) (of_nat t) = (None, [])"
    by (subst scan.simps) simp
  ultimately show ?case by (intro exI [of _ "[]"]) auto
next
  case (Suc k)
  then have t: "t \<le> H" "within (of_nat H) (of_nat t)" using assms(1) by (auto simp: within_of_nat)
  have succ: "of_nat t + 1 = (of_nat (Suc t) :: u32)" by simp
  have k: "k = H + 1 - Suc t" using Suc.hyps(2) by simp
  show ?case
  proof (cases "hit n tick (of_nat t)")
    case True
    have "scan n tick (of_nat H) (of_nat t) = (Some (of_nat t), [Examine (of_nat t)])"
      using t True by (subst scan.simps) (simp add: hit_def)
    moreover have "\<exists>i. t \<le> i \<and> i \<le> H \<and> hit n tick (of_nat i)" using t True by blast
    ultimately show ?thesis
      using t True by (intro exI [of _ "[Examine (of_nat t)]"]) (auto intro!: exI [of _ t])
  next
    case False
    have step: "scan n tick (of_nat H) (of_nat t) = (case scan n tick (of_nat H) (of_nat (Suc t)) of
        (r, acts) \<Rightarrow> (r, Examine (of_nat t) # acts))"
      using t False by (subst scan.simps) (simp add: hit_def succ del: of_nat_Suc)
    have ex: "(\<exists>i. t \<le> i \<and> i \<le> H \<and> hit n tick (of_nat i))
        = (\<exists>i. Suc t \<le> i \<and> i \<le> H \<and> hit n tick (of_nat i))"
      using False by (metis add_leD1 le_antisym not_less_eq_eq Suc_eq_plus1)
    have all: "(\<forall>j. t \<le> j \<and> j < i \<longrightarrow> \<not> hit n tick (of_nat j))
        = (\<forall>j. Suc t \<le> j \<and> j < i \<longrightarrow> \<not> hit n tick (of_nat j))" for i
      using False by (metis add_leD1 le_antisym not_less_eq_eq Suc_eq_plus1)
    obtain acts where acts: "accepted acts = []"
      "if \<exists>i. Suc t \<le> i \<and> i \<le> H \<and> hit n tick (of_nat i)
       then \<exists>i. Suc t \<le> i \<and> i \<le> H \<and> hit n tick (of_nat i)
         \<and> (\<forall>j. Suc t \<le> j \<and> j < i \<longrightarrow> \<not> hit n tick (of_nat j))
         \<and> scan n tick (of_nat H) (of_nat (Suc t)) = (Some (of_nat i), acts)
       else scan n tick (of_nat H) (of_nat (Suc t)) = (None, acts)"
      using Suc.hyps(1) [of "Suc t", OF k] t by (simp del: of_nat_Suc) blast
    show ?thesis
      unfolding ex all step
      using acts by (intro exI [of _ "Examine (of_nat t) # acts"])
        (auto split: if_splits intro: Suc_leD)
  qed
qed


text \<open>
  The Skip-Ahead walk accepts exactly the tickets up to the hint that are there, in order, and
  stops where none is left.
\<close>

definition hits_in :: "nat \<Rightarrow> (nat \<Rightarrow> u32) \<Rightarrow> nat \<Rightarrow> nat \<Rightarrow> nat list" where
  "hits_in n tick a b = filter (\<lambda>i. hit n tick (of_nat i)) [a..<b]"

lemma hits_in_gap:
  assumes "a \<le> b" "b \<le> c" "\<forall>j. a \<le> j \<and> j < b \<longrightarrow> \<not> hit n tick (of_nat j)"
  shows "hits_in n tick a c = hits_in n tick b c"
proof -
  have "[a..<c] = [a..<b] @ [b..<c]" using assms by (metis le_add_diff_inverse upt_add_eq_append)
  moreover have "filter (\<lambda>i. hit n tick (of_nat i)) [a..<b] = []"
    using assms(3) by (auto simp: filter_empty_conv)
  ultimately show ?thesis by (simp add: hits_in_def)
qed

lemma skip_nat:
  assumes "H < 2 ^ 31 - 1" "t \<le> H + 1"
  shows "\<exists>t' acts. skip n tick (of_nat H) (of_nat t) = (of_nat t', acts) \<and> t \<le> t' \<and> t' \<le> H + 1
    \<and> accepted acts = map of_nat (hits_in n tick t t')
    \<and> (\<forall>i. t' \<le> i \<and> i \<le> H \<longrightarrow> \<not> hit n tick (of_nat i))
    \<and> (t' = t \<or> (\<exists>i. t' = Suc i \<and> hit n tick (of_nat i)))"
  using assms(2)
proof (induction "H + 1 - t" arbitrary: t rule: less_induct)
  case less
  show ?case
  proof (cases "t \<le> H")
    case False
    then have "skip n tick (of_nat H) (of_nat t) = (of_nat t, [])"
      using assms(1) less.prems within_of_nat [of H t] by (subst skip.simps) simp
    then show ?thesis using False less.prems by (auto simp: hits_in_def)
  next
    case t: True
    then have w: "within (of_nat H) (of_nat t)" using assms(1) by (simp add: within_of_nat)
    have succ: "of_nat t + 1 = (of_nat (Suc t) :: u32)" by simp
    have lt: "H + 1 - Suc t < H + 1 - t" using t by simp
    show ?thesis
    proof (cases "hit n tick (of_nat t)")
      case True
      obtain t' acts where IH: "skip n tick (of_nat H) (of_nat (Suc t)) = (of_nat t', acts)"
        "Suc t \<le> t'" "t' \<le> H + 1" "accepted acts = map of_nat (hits_in n tick (Suc t) t')"
        "\<forall>i. t' \<le> i \<and> i \<le> H \<longrightarrow> \<not> hit n tick (of_nat i)"
        "t' = Suc t \<or> (\<exists>i. t' = Suc i \<and> hit n tick (of_nat i))"
        using less.hyps [of "Suc t", OF lt] t by (simp del: of_nat_Suc) blast
      have "skip n tick (of_nat H) (of_nat t)
          = (of_nat t', Examine (of_nat t) # Accept (of_nat t) # acts)"
        using w True by (subst skip.simps)
          (simp add: hit_def succ IH(1) del: of_nat_Suc)
      moreover have "hits_in n tick t t' = t # hits_in n tick (Suc t) t'"
        using IH(2) True by (simp add: hits_in_def upt_conv_Cons)
      ultimately show ?thesis using IH True by (intro exI [of _ t']) auto
    next
      case False
      obtain sc where sc: "accepted sc = []"
        "if \<exists>i. Suc t \<le> i \<and> i \<le> H \<and> hit n tick (of_nat i)
         then \<exists>i. Suc t \<le> i \<and> i \<le> H \<and> hit n tick (of_nat i)
           \<and> (\<forall>j. Suc t \<le> j \<and> j < i \<longrightarrow> \<not> hit n tick (of_nat j))
           \<and> scan n tick (of_nat H) (of_nat (Suc t)) = (Some (of_nat i), sc)
         else scan n tick (of_nat H) (of_nat (Suc t)) = (None, sc)"
        using scan_nat [OF assms(1), of "Suc t" n tick] t by (auto simp del: of_nat_Suc)
      show ?thesis
      proof (cases "\<exists>i. Suc t \<le> i \<and> i \<le> H \<and> hit n tick (of_nat i)")
        case ex: False
        then have "skip n tick (of_nat H) (of_nat t) = (of_nat t, Examine (of_nat t) # sc)"
          using w False sc(2) by (subst skip.simps) (simp add: hit_def succ del: of_nat_Suc)
        moreover have "\<forall>i. t \<le> i \<and> i \<le> H \<longrightarrow> \<not> hit n tick (of_nat i)"
          using ex False by (metis Suc_eq_plus1 le_antisym not_less_eq_eq)
        ultimately show ?thesis using t sc(1) by (intro exI [of _ t]) (auto simp: hits_in_def)
      next
        case True
        then obtain i where i: "Suc t \<le> i" "i \<le> H" "hit n tick (of_nat i)"
          "\<forall>j. Suc t \<le> j \<and> j < i \<longrightarrow> \<not> hit n tick (of_nat j)"
          "scan n tick (of_nat H) (of_nat (Suc t)) = (Some (of_nat i), sc)"
          using sc(2) by auto
        have lt': "H + 1 - i < H + 1 - t" using i(1) t by linarith
        obtain t' acts where IH: "skip n tick (of_nat H) (of_nat i) = (of_nat t', acts)"
          "i \<le> t'" "t' \<le> H + 1" "accepted acts = map of_nat (hits_in n tick i t')"
          "\<forall>j. t' \<le> j \<and> j \<le> H \<longrightarrow> \<not> hit n tick (of_nat j)"
          "t' = i \<or> (\<exists>i. t' = Suc i \<and> hit n tick (of_nat i))"
          using less.hyps [of i, OF lt'] i(1,2) by (simp del: of_nat_Suc) blast
        have "skip n tick (of_nat H) (of_nat t) = (of_nat t', Examine (of_nat t) # sc @ acts)"
          using w False i(5) IH(1) by (subst skip.simps) (simp add: hit_def succ del: of_nat_Suc)
        moreover have "\<not> hit n tick (of_nat j)" if "t \<le> j \<and> j < i" for j
          using i(4) that False by (cases "j = t") (auto simp del: of_nat_Suc)
        then have "hits_in n tick t t' = hits_in n tick i t'"
          using i(1) IH(2) by (intro hits_in_gap) auto
        moreover have "t' \<noteq> i" using IH(5) i(2,3) by blast
        ultimately show ?thesis using IH sc(1) i(1) by (intro exI [of _ t']) auto
      qed
    qed
  qed
qed

section \<open>The walks on a ring that holds a history\<close>

text \<open>Which tickets are there: those of the last \<open>n\<close> payloads.\<close>

lemma holds_hit_iff:
  assumes "0 < n" "ring_holds n c tick pay h" "0 < length h" "length h < 2 ^ 32" "t \<le> length h"
  shows "hit n tick (of_nat t) = (t < length h \<and> length h \<le> t + n)"
proof -
  let ?d = "length h"
  have slot: "slot_of n (of_nat t) = t mod n"
    using assms(4,5) unat_of_nat_small [where 'a = 32, of t] by (simp add: slot_of_def)
  have window: "tick (u mod n) = of_nat u" if "u < ?d" "?d \<le> u + n" for u
    using assms(2) that by (simp add: ring_holds_def)
  have miss: "\<not> hit n tick (of_nat t)" if u: "u < ?d" "?d \<le> u + n" "u mod n = t mod n" "u \<noteq> t" for u
    using window [OF u(1,2)] u assms(4,5) of_nat_word_inj [of u t] by (simp add: hit_def slot)
  consider (win) "t < ?d" "?d \<le> t + n" | (old) "t + n < ?d" | (fresh) "t = ?d" "?d < n"
    | (last) "t = ?d" "n \<le> ?d"
    using assms(5) by linarith
  then show ?thesis
  proof cases
    case win
    then show ?thesis using window [OF win] by (simp add: hit_def slot)
  next
    case old
    let ?u = "t + n * ((?d - 1 - t) div n)"
    have "(?d - 1 - t) mod n < n" using assms(1) by simp
    then have div: "n * ((?d - 1 - t) div n) \<le> ?d - 1 - t"
      "?d - 1 - t < n * ((?d - 1 - t) div n) + n"
      using mult_div_mod_eq [of n "?d - 1 - t"] by linarith+
    moreover have "0 < n * ((?d - 1 - t) div n)"
      using old assms(1) by (simp add: div_greater_zero_iff)
    ultimately have "?u < ?d" "?d \<le> ?u + n" "?u \<noteq> t" using old by linarith+
    with miss [of ?u] old show ?thesis by simp
  next
    case fresh
    have "tick (t mod n) = 0" using assms(2) fresh by (simp add: ring_holds_def)
    moreover have "of_nat ?d \<noteq> (0 :: u32)"
      using assms(3,4) of_nat_word_inj [of ?d 0] by simp
    ultimately show ?thesis unfolding hit_def slot using fresh by simp
  next
    case last
    with miss [of "?d - n"] assms(1,3) show ?thesis by (simp add: le_mod_geq)
  qed
qed

lemma hit_empty:
  assumes "0 < n" "ring_holds n c tick pay []" "i < n"
  shows "hit n tick (of_nat t) = (t mod 2 ^ 32 = 0)"
proof -
  have "tick (slot_of n (of_nat t)) = 0"
    using assms by (simp add: ring_holds_def slot_of_def)
  then show ?thesis by (auto simp: hit_def word_of_nat_eq_0_iff dvd_eq_mod_eq_0)
qed

text \<open>
  Scatter-Gather on a ring that holds a history: a consumer that is at most \<open>n\<close> tickets
  behind gets all of them; one that was lapped gets nothing.
\<close>

lemma gather_history:
  assumes "0 < n" "n < 2 ^ 32" "ring_holds n c tick pay h" "0 < length h" "length h < 2 ^ 32"
    and "t \<le> length h" "length h \<le> t + n"
  shows "gather n tick (of_nat t) = (of_nat (length h),
    visits (map of_nat [t..<length h]) @ [Examine (of_nat (length h))])"
proof -
  have t: "of_nat t + of_nat k = (of_nat (t + k) :: u32)" for k by simp
  have run: "run_length n tick (of_nat t) = length h - t"
  proof (rule run_length_unique)
    show "\<forall>k < length h - t. hit n tick (of_nat t + of_nat k)"
      unfolding t using holds_hit_iff [OF assms(1,3,4,5)] assms(6,7) by (auto simp del: of_nat_add)
    show "\<not> hit n tick (of_nat t + of_nat (length h - t))"
      unfolding t using holds_hit_iff [OF assms(1,3,4,5), of "length h"] assms(6) by simp
  qed
  have "tickets_from (of_nat t) (length h - t) = map of_nat [t..<length h]"
    by (rule nth_equalityI) (auto simp: tickets_from_def)
  then show ?thesis
    using gather_spec [OF assms(1,2), of tick "of_nat t"] assms(6) unfolding run t by simp
qed

lemma gather_lapped:
  assumes "0 < n" "n < 2 ^ 32" "ring_holds n c tick pay h" "length h < 2 ^ 32"
    and "t + n < length h"
  shows "gather n tick (of_nat t) = (of_nat t, [Examine (of_nat t)])"
proof -
  have "\<not> hit n tick (of_nat t)" using holds_hit_iff [OF assms(1,3) _ assms(4), of t] assms(5) by fastforce
  then have "run_length n tick (of_nat t) = 0" using run_length_unique [of 0] by simp
  then show ?thesis using gather_spec [OF assms(1,2), of tick "of_nat t"] by simp
qed

text \<open>
  Skip-Ahead with a hint \<open>H\<close> on such a ring: it accepts, in order, the tickets from its
  position up to the hint that are still there.
\<close>

lemma skip_history:
  assumes "0 < n" "ring_holds n c tick pay h" "0 < length h" "length h < 2 ^ 31 - 1"
    and "H \<le> length h" "t \<le> H + 1" "t \<le> length h"
  shows "\<exists>acts. skip n tick (of_nat H) (of_nat t) = (of_nat (if length h \<le> H + n
      then max t (min (H + 1) (length h)) else t), acts)
    \<and> accepted acts = map of_nat [max t (length h - n)..<min (H + 1) (length h)]"
proof -
  let ?d = "length h"
  have hit: "hit n tick (of_nat i) = (i < ?d \<and> ?d \<le> i + n)" if "i \<le> ?d" for i
    using holds_hit_iff [OF assms(1-3) _ that] assms(4) by simp
  obtain t' acts where walk: "skip n tick (of_nat H) (of_nat t) = (of_nat t', acts)"
    "t \<le> t'" "t' \<le> H + 1" "accepted acts = map of_nat (hits_in n tick t t')"
    "\<forall>i. t' \<le> i \<and> i \<le> H \<longrightarrow> \<not> hit n tick (of_nat i)" "t' = t \<or> (\<exists>i. t' = Suc i \<and> hit n tick (of_nat i))"
    using skip_nat [of H t n tick] assms(4-6) by auto
  have le: "t' \<le> ?d"
  proof (rule ccontr)
    assume "\<not> t' \<le> ?d"
    then have "t' = ?d + 1" "t' - 1 = ?d" using walk(3) assms(5) by auto
    then show False using walk(6) hit [of ?d] assms(7) by auto
  qed
  have t': "t' = (if ?d \<le> H + n then max t (min (H + 1) ?d) else t)"
  proof (cases "t' = t")
    case True
    have "\<not> (?d \<le> H + n \<and> t < min (H + 1) ?d)"
    proof
      assume *: "?d \<le> H + n \<and> t < min (H + 1) ?d"
      let ?i = "min H (?d - 1)"
      have "t' \<le> ?i" "?i \<le> H" "?i \<le> ?d" "?i < ?d" "?d \<le> ?i + n"
        using * True assms(1,3) by auto
      then show False using walk(5) hit [of ?i] by blast
    qed
    then show ?thesis using True assms(6,7) by auto
  next
    case False
    then obtain i where "t' = Suc i" "hit n tick (of_nat i)" using walk(6) by blast
    then have last: "?d \<le> t' - 1 + n" "t < t'" using hit [of i] le False walk(2) by auto
    have "t' = min (H + 1) ?d"
    proof (rule ccontr)
      assume "t' \<noteq> min (H + 1) ?d"
      then have "t' \<le> H" "t' < ?d" using walk(3) le by auto
      then show False using walk(5) hit [of t'] last by auto
    qed
    then show ?thesis using last by auto
  qed
  have "hits_in n tick t t' = filter (\<lambda>i. ?d \<le> i + n) [t..<t']"
    unfolding hits_in_def by (rule filter_cong) (use hit le in auto)
  also have "\<dots> = [max t (?d - n)..<t']"
  proof (cases "?d - n \<le> t")
    case True
    then have "filter (\<lambda>i. ?d \<le> i + n) [t..<t'] = [t..<t']" by (auto simp: filter_id_conv)
    then show ?thesis using True by (simp add: max_def)
  next
    case False
    show ?thesis
    proof (cases "?d - n \<le> t'")
      case True
      have "[t..<t'] = [t..<?d - n] @ [?d - n..<t']"
        using True False by (metis le_add_diff_inverse nle_le upt_add_eq_append)
      moreover have "filter (\<lambda>i. ?d \<le> i + n) [t..<?d - n] = []" by (auto simp: filter_empty_conv)
      moreover have "filter (\<lambda>i. ?d \<le> i + n) [?d - n..<t'] = [?d - n..<t']"
        by (auto simp: filter_id_conv)
      ultimately show ?thesis using False by (simp add: max_def)
    next
      case False': False
      then have "filter (\<lambda>i. ?d \<le> i + n) [t..<t'] = []" by (auto simp: filter_empty_conv)
      then show ?thesis using False False' by (simp add: max_def)
    qed
  qed
  also have "\<dots> = [max t (?d - n)..<min (H + 1) ?d]"
    using t' assms(1) by (auto simp: max_def min_def split: if_splits)
  finally show ?thesis using walk(1,4) t' by auto
qed

end
