(* ===== verification/NetFilter.thy ===== *)
theory NetFilter
  imports TicketRing
begin

text \<open>
  The packet hook (\<open>net_filter/net_filter_kernel.c\<close>): \<open>packet_telemetry_hook\<close>
  with the stores into the bytes of the network buffer at the offsets of
  \<open>net_payload_slot_t\<close>, the compare-and-swap loop on the write hint with the
  interference of other CPUs, the history that the ring then holds (an interpretation of
  \<open>ticket_ring\<close>), and the registration of the hook.
\<close>

section \<open>Slots of the network buffer\<close>

definition net_slot_at :: "nat \<Rightarrow> string \<Rightarrow> nat" where
  "net_slot_at i f = i * NETFILTER_SLOT_SIZE + the (offsetof False net_payload_slot_members f)"

definition net_metric_at :: "nat \<Rightarrow> string \<Rightarrow> nat" where
  "net_metric_at i f =
     net_slot_at i ''packet_metrics'' + the (offsetof True net_packet_metric_members f)"

lemma net_offsets [layout_simps]:
  "net_metric_at i ''src_ip'' = i * 32" "net_metric_at i ''dest_ip'' = i * 32 + 4"
  "net_metric_at i ''src_port'' = i * 32 + 8" "net_metric_at i ''dest_port'' = i * 32 + 10"
  "net_metric_at i ''pkt_len'' = i * 32 + 12" "net_slot_at i ''slot_ticket'' = i * 32 + 16"
  by (simp_all add: net_metric_at_def net_slot_at_def member_defs struct_defs layout_simps)

definition net_slot_metric :: "u8 list \<Rightarrow> nat \<Rightarrow> net_packet_metric" where
  "net_slot_metric pool i =
     \<lparr>src_ip = load32 (net_metric_at i ''src_ip'') pool,
      dest_ip = load32 (net_metric_at i ''dest_ip'') pool,
      src_port = load16 (net_metric_at i ''src_port'') pool,
      dest_port = load16 (net_metric_at i ''dest_port'') pool,
      pkt_len = load32 (net_metric_at i ''pkt_len'') pool\<rparr>"

definition net_slot_ticket :: "u8 list \<Rightarrow> nat \<Rightarrow> u32" where
  "net_slot_ticket pool i = load32 (net_slot_at i ''slot_ticket'') pool"

definition store_net_metric :: "nat \<Rightarrow> net_packet_metric \<Rightarrow> u8 list \<Rightarrow> u8 list" where
  "store_net_metric i m pool =
     store32 (net_metric_at i ''pkt_len'') (pkt_len m)
      (store16 (net_metric_at i ''dest_port'') (dest_port m)
       (store16 (net_metric_at i ''src_port'') (src_port m)
        (store32 (net_metric_at i ''dest_ip'') (dest_ip m)
         (store32 (net_metric_at i ''src_ip'') (src_ip m) pool))))"

definition store_net_ticket :: "nat \<Rightarrow> u32 \<Rightarrow> u8 list \<Rightarrow> u8 list" where
  "store_net_ticket i t pool = store32 (net_slot_at i ''slot_ticket'') t pool"

lemmas net_slot_defs = net_slot_metric_def net_slot_ticket_def store_net_metric_def
  store_net_ticket_def

lemma length_store_net [simp]:
  assumes "length pool = 768" "i < 24"
  shows "length (store_net_metric i m pool) = 768" "length (store_net_ticket i t pool) = 768"
  using assms by (simp_all add: net_slot_defs layout_simps)

lemma net_store_same [byte_simps]:
  assumes "length pool = 768" "i < 24"
  shows "net_slot_metric (store_net_metric i m pool) i = m"
    "net_slot_ticket (store_net_metric i m pool) i = net_slot_ticket pool i"
    "net_slot_ticket (store_net_ticket i t pool) i = t"
    "net_slot_metric (store_net_ticket i t pool) i = net_slot_metric pool i"
  using assms by (simp_all add: net_slot_defs layout_simps byte_simps)

lemma net_store_other [byte_simps]:
  assumes "length pool = 768" "i < 24" "j < 24" "i \<noteq> j"
  shows "net_slot_metric (store_net_metric i m pool) j = net_slot_metric pool j"
    "net_slot_ticket (store_net_metric i m pool) j = net_slot_ticket pool j"
    "net_slot_ticket (store_net_ticket i t pool) j = net_slot_ticket pool j"
    "net_slot_metric (store_net_ticket i t pool) j = net_slot_metric pool j"
  using slots_apart [OF assms(4), of 32] assms(1-3)
  by (elim disjE; simp add: net_slot_defs layout_simps byte_simps)+

section \<open>The write hint\<close>

text \<open>
  The loop condition as C computes it: the difference is taken in 32 bits and the capacity,
  a \<open>size_t\<close>, is added in 64; the sum is cut to a signed 32-bit integer, and the
  remainder by the \<open>size_t\<close> capacity is unsigned again.
\<close>

definition wr_advance_cond :: "u32 \<Rightarrow> u32 \<Rightarrow> bool" where
  "wr_advance_cond slot_idx current_wr \<longleftrightarrow>
     (let distance = ucast (slot_idx - current_wr) + of_nat NETFILTER_SLOT_CAPACITY :: u64;
          truncated = ucast distance :: u32;
          remainder = scast truncated mod of_nat NETFILTER_SLOT_CAPACITY :: u64
      in 0 \<le> remainder)"

text \<open>
  The compare-and-swap loop. The list gives what other CPUs do to the hint before each
  attempt (a store of a value, or nothing); after it the hint is left alone. The result is
  the hint in memory and the number of failed attempts.
\<close>

function wr_advance_loop ::
  "u32 \<Rightarrow> u32 \<Rightarrow> u32 \<Rightarrow> u32 option list \<Rightarrow> nat \<Rightarrow> u32 \<times> nat" where
  "wr_advance_loop slot_idx current_wr mem others failed =
     (if wr_advance_cond slot_idx current_wr then
        (let mem' = (case others of Some v # _ \<Rightarrow> v | _ \<Rightarrow> mem)
         in if mem' = current_wr then (slot_idx + 1, failed)
            else wr_advance_loop slot_idx mem' mem' (tl others) (failed + 1))
      else (mem, failed))"
  by pat_completeness auto
termination
  by (relation "measure (\<lambda>(slot_idx, current_wr, mem, others, failed).
      2 * length others + (if mem = current_wr then 0 else 1))")
    (auto split: list.splits option.splits)

declare wr_advance_loop.simps [simp del]

lemma wr_advance_cond_true [simp]: "wr_advance_cond slot_idx current_wr"
  by (simp add: wr_advance_cond_def Let_def)

lemma wr_advance_result: "fst (wr_advance_loop slot_idx cur mem others failed) = slot_idx + 1"
proof (induction slot_idx cur mem others failed rule: wr_advance_loop.induct)
  case (1 slot_idx cur mem others failed)
  then show ?case
    by (subst wr_advance_loop.simps) (auto simp: Let_def split: list.splits option.splits)
qed

lemma wr_advance_failed:
  "snd (wr_advance_loop slot_idx cur mem others failed)
     \<le> failed + length others + (if mem = cur then 0 else 1)"
proof (induction slot_idx cur mem others failed rule: wr_advance_loop.induct)
  case (1 slot_idx cur mem others failed)
  show ?case
    using "1.IH" [OF wr_advance_cond_true refl]
    by (subst wr_advance_loop.simps)
      (force simp: Let_def split: list.splits option.splits if_splits)
qed

section \<open>The hook\<close>

text \<open>
  The parts of a packet that the hook reads. The header accessors of \<open>sk_buff\<close> give a
  pointer that the code compares with \<open>NULL\<close>.
\<close>

record iphdr =
  protocol :: u8
  tot_len :: u16
  saddr :: u32
  daddr :: u32

record tcphdr =
  source :: u16
  dest :: u16

record sk_buff =
  ip_hdr :: "iphdr option"
  tcp_hdr :: "tcphdr option"

datatype nf_verdict = NF_DROP | NF_ACCEPT

definition IPPROTO_TCP :: u8 where "IPPROTO_TCP = 6"

text \<open>What the slot gets: addresses, ports and length as they are in the headers.\<close>

definition packet_metric :: "iphdr \<Rightarrow> tcphdr \<Rightarrow> net_packet_metric" where
  "packet_metric network_header transport_header =
     \<lparr>src_ip = saddr network_header, dest_ip = daddr network_header,
      src_port = source transport_header, dest_port = dest transport_header,
      pkt_len = ucast (tot_len network_header)\<rparr>"

text \<open>The guards of the hook, in order.\<close>

definition traced_metric :: "sk_buff option \<Rightarrow> net_packet_metric option" where
  "traced_metric skb = (case skb of None \<Rightarrow> None | Some skb \<Rightarrow>
     (case ip_hdr skb of None \<Rightarrow> None | Some network_header \<Rightarrow>
        if protocol network_header \<noteq> IPPROTO_TCP then None
        else (case tcp_hdr skb of None \<Rightarrow> None | Some transport_header \<Rightarrow>
          Some (packet_metric network_header transport_header))))"

lemma traced_metric_None [simp]: "traced_metric None = None"
  by (simp add: traced_metric_def)

text \<open>Claim a ticket, fill its slot, stamp it, and move the hint.\<close>

definition claim_ticket :: "shared_ring \<Rightarrow> u32 \<times> shared_ring" where
  "claim_ticket r = (ticket_dispenser (net_ctl r),
     r\<lparr>net_ctl := (net_ctl r)\<lparr>ticket_dispenser := ticket_dispenser (net_ctl r) + 1\<rparr>\<rparr>)"

definition slot_index :: "u32 \<Rightarrow> u32" where
  "slot_index my_ticket = ucast (ucast my_ticket mod of_nat NETFILTER_SLOT_CAPACITY :: u64)"

definition fill_slot :: "u32 \<Rightarrow> net_packet_metric \<Rightarrow> shared_ring \<Rightarrow> shared_ring" where
  "fill_slot slot_idx m r = r\<lparr>net_buffer := store_net_metric (unat slot_idx) m (net_buffer r)\<rparr>"

definition stamp_slot :: "u32 \<Rightarrow> u32 \<Rightarrow> shared_ring \<Rightarrow> shared_ring" where
  "stamp_slot slot_idx my_ticket r =
     r\<lparr>net_buffer := store_net_ticket (unat slot_idx) my_ticket (net_buffer r)\<rparr>"

definition advance_hint :: "u32 \<Rightarrow> u32 option list \<Rightarrow> shared_ring \<Rightarrow> shared_ring" where
  "advance_hint slot_idx others r =
     (let current_wr = wr_idx (net_ctl r);
          (mem, failed) = wr_advance_loop slot_idx current_wr current_wr others 0
      in r\<lparr>net_ctl := (net_ctl r)\<lparr>wr_idx := mem\<rparr>\<rparr>)"

definition record_packet ::
  "u32 option list \<Rightarrow> net_packet_metric \<Rightarrow> shared_ring \<Rightarrow> shared_ring" where
  "record_packet others m r =
     (let (my_ticket, r1) = claim_ticket r;
          slot_idx = slot_index my_ticket;
          r2 = fill_slot slot_idx m r1;
          r3 = stamp_slot slot_idx my_ticket r2
      in advance_hint slot_idx others r3)"

definition packet_telemetry_hook ::
  "u32 option list \<Rightarrow> sk_buff option \<Rightarrow> shared_ring option \<Rightarrow> nf_verdict \<times> shared_ring option" where
  "packet_telemetry_hook others skb ring_ptr =
     (case ring_ptr of None \<Rightarrow> (NF_ACCEPT, None) | Some r \<Rightarrow>
        (case traced_metric skb of
           None \<Rightarrow> (NF_ACCEPT, Some r)
         | Some m \<Rightarrow> (NF_ACCEPT, Some (record_packet others m r))))"

section \<open>What one packet does\<close>

lemma slot_index_unat [ring_simps]: "unat (slot_index t) = unat t mod NETFILTER_SLOT_CAPACITY"
  unfolding slot_index_def by (rule unat_slot_number) (simp_all add: net_slot_capacity)

lemma record_packet_effect:
  "record_packet others m r =
     (let t = ticket_dispenser (net_ctl r); i = unat t mod NETFILTER_SLOT_CAPACITY
      in r\<lparr>net_ctl := (net_ctl r)\<lparr>ticket_dispenser := t + 1, wr_idx := slot_index t + 1\<rparr>,
           net_buffer := store_net_ticket i t (store_net_metric i m (net_buffer r))\<rparr>)"
proof -
  have "mem = s + 1" if "wr_advance_loop s c c others 0 = (mem, failed)" for s c mem failed
    using wr_advance_result [of s c c others 0] that by simp
  then show ?thesis
    by (simp add: record_packet_def claim_ticket_def fill_slot_def stamp_slot_def
        advance_hint_def ring_simps Let_def split: prod.split)
qed

lemma record_packet_others: "record_packet others m r = record_packet [] m r"
  by (simp add: record_packet_effect)

lemma unat_slot_less: "unat t mod NETFILTER_SLOT_CAPACITY < 24"
  by (simp add: layout_simps)

lemma page_ok_record [simp]: "page_ok r \<Longrightarrow> page_ok (record_packet others m r)"
  using unat_slot_less [of "ticket_dispenser (net_ctl r)"]
  by (simp add: record_packet_effect page_ok_def Let_def TELEMETRY_NETFILTER_RING_BUFFER_CAPACITY_def)

abbreviation net_tick :: "shared_ring \<Rightarrow> nat \<Rightarrow> u32" where
  "net_tick r \<equiv> net_slot_ticket (net_buffer r)"

abbreviation net_pay :: "shared_ring \<Rightarrow> nat \<Rightarrow> net_packet_metric" where
  "net_pay r \<equiv> net_slot_metric (net_buffer r)"

lemma net_buffer_length [simp]: "page_ok r \<Longrightarrow> length (net_buffer r) = 768"
  by (simp add: page_ok_def layout_simps)

lemma record_packet_slots:
  assumes "page_ok r" "i < 24"
  shows "net_tick (record_packet others m r) i = (if i = unat (ticket_dispenser (net_ctl r)) mod 24
      then ticket_dispenser (net_ctl r) else net_tick r i)"
    and "net_pay (record_packet others m r) i = (if i = unat (ticket_dispenser (net_ctl r)) mod 24
      then m else net_pay r i)"
  using assms
  by (auto simp: record_packet_effect Let_def net_slot_capacity byte_simps)

text \<open>The hook provides a ticket ring with 24 slots.\<close>

interpretation net_ring: ticket_ring 24 page_ok "\<lambda>r. ticket_dispenser (net_ctl r)" net_tick net_pay
  "record_packet []"
  by unfold_locales (auto simp: record_packet_slots, simp add: record_packet_effect Let_def)

lemma record_packet_frame:
  "record_packet others m r = r\<lparr>net_ctl := net_ctl (record_packet others m r),
     net_buffer := net_buffer (record_packet others m r)\<rparr>"
  "rd_idx (net_ctl (record_packet others m r)) = rd_idx (net_ctl r)"
  "state_flags (net_ctl (record_packet others m r)) = state_flags (net_ctl r)"
  by (simp_all add: record_packet_effect Let_def)

section \<open>Sequences of packets\<close>

text \<open>
  The hook on one packet after another, each with its own interference on the hint. The page
  is there during the whole sequence.
\<close>

definition hook_step ::
  "u32 option list \<times> sk_buff option \<Rightarrow> shared_ring option \<Rightarrow> shared_ring option" where
  "hook_step packet ring_ptr = snd (packet_telemetry_hook (fst packet) (snd packet) ring_ptr)"

definition traced_packets :: "(u32 option list \<times> sk_buff option) list \<Rightarrow> net_packet_metric list" where
  "traced_packets packets = List.map_filter (\<lambda>p. traced_metric (snd p)) packets"

lemma hook_step_Some:
  "hook_step p (Some r) =
     Some (case traced_metric (snd p) of None \<Rightarrow> r | Some m \<Rightarrow> record_packet [] m r)"
  using record_packet_others
  by (auto simp: hook_step_def packet_telemetry_hook_def split: option.splits)

lemma hook_run:
  "fold hook_step packets (Some r) = Some (fold (record_packet []) (traced_packets packets) r)"
  by (induction packets arbitrary: r)
    (auto simp: traced_packets_def hook_step_Some List.map_filter_simps split: option.splits)

lemma hint_after_packets:
  assumes "ms \<noteq> []" "page_ok r" "ticket_dispenser (net_ctl r) = of_nat l" "l + length ms < 2 ^ 32"
  shows "wr_idx (net_ctl (fold (record_packet []) ms r))
    = slot_index (of_nat (l + length ms - 1)) + 1"
  using assms
proof (induction ms arbitrary: r l)
  case Nil
  then show ?case by simp
next
  case (Cons m ms)
  have next_ticket: "ticket_dispenser (net_ctl (record_packet [] m r)) = of_nat (Suc l)"
    using Cons.prems(3) by (simp add: record_packet_effect Let_def)
  show ?case
  proof (cases "ms = []")
    case True
    then show ?thesis using Cons.prems(3) by (simp add: record_packet_effect Let_def)
  next
    case False
    then show ?thesis
      using Cons.IH [OF False page_ok_record [OF Cons.prems(2)] next_ticket] Cons.prems(4) by simp
  qed
qed

lemma zeroed_net_tick: "i < 24 \<Longrightarrow> net_tick zeroed_page i = 0"
proof -
  assume i: "i < 24"
  have "read_at (i * 32 + 16) 4 (replicate 768 (0 :: u8)) = replicate 4 0"
    using i by (intro nth_equalityI) (auto simp: nth_read_at)
  then have "load32 (i * 32 + 16) (replicate 768 0) = le_word (replicate 4 (0 :: u8))"
    by (simp add: load32_def)
  also have "\<dots> = 0" by (simp add: numeral_eq_Suc)
  finally show ?thesis
    by (simp add: net_slot_ticket_def zeroed_page_def layout_simps)
qed

lemma zeroed_net_holds: "net_ring.holds [] zeroed_page"
  using zeroed_net_tick by (auto simp: ring_holds_def) (simp add: zeroed_page_def)

lemma unat_slot_succ: "unat (slot_index t + 1) = unat t mod 24 + 1"
proof -
  have "unat t mod 24 < 24" by simp
  then show ?thesis
    using unat_succ_small [of "slot_index t"] by (simp add: ring_simps net_slot_capacity)
qed

section \<open>Registration\<close>

text \<open>The hook operations that the module registers; the constants are those of the kernel.\<close>

datatype hook_function = No_hook | Packet_telemetry_hook
datatype hook_point = Hook_point_zero | NF_INET_PRE_ROUTING
datatype proto_family = PF_UNSPEC | PF_INET
datatype hook_priority = Priority_zero | NF_IP_PRI_FIRST

record nf_hook_ops =
  hook :: hook_function
  hooknum :: hook_point
  pf :: proto_family
  priority :: hook_priority

text \<open>
  \<open>nf_register_net_hook\<close> is a parameter: the code it returns. It has registered the hook
  if and only if that code is 0.
\<close>

record net_filter_state =
  nfho :: nf_hook_ops
  registered :: "nf_hook_ops list"

definition net_filter_init ::
  "(nf_hook_ops \<Rightarrow> int) \<Rightarrow> net_filter_state \<Rightarrow> (errno + unit) \<times> net_filter_state" where
  "net_filter_init nf_register_net_hook s =
     (let ops = (nfho s)\<lparr>hook := Packet_telemetry_hook, hooknum := NF_INET_PRE_ROUTING,
                  pf := PF_INET, priority := NF_IP_PRI_FIRST\<rparr>;
          s' = s\<lparr>nfho := ops\<rparr>
      in if nf_register_net_hook ops \<noteq> 0 then (Inl EFAULT, s')
         else (Inr (), s'\<lparr>registered := ops # registered s\<rparr>))"

definition net_filter_exit :: "net_filter_state \<Rightarrow> net_filter_state" where
  "net_filter_exit s = s\<lparr>registered := remove1 (nfho s) (registered s)\<rparr>"

text \<open>A sample packet: TCP from 10.0.0.1 port 443 to 10.0.0.2 port 8080, in network byte order.\<close>

definition sample_packet :: "sk_buff option" where
  "sample_packet = Some
     \<lparr>ip_hdr = Some \<lparr>protocol = 6, tot_len = 0x3400, saddr = 0x0100000A, daddr = 0x0200000A\<rparr>,
      tcp_hdr = Some \<lparr>source = 0xBB01, dest = 0x901F\<rparr>\<rparr>"

lemma sample_metric:
  "traced_metric sample_packet = Some \<lparr>src_ip = 0x0100000A, dest_ip = 0x0200000A,
     src_port = 0xBB01, dest_port = 0x901F, pkt_len = 0x3400\<rparr>"
  by (simp add: traced_metric_def sample_packet_def packet_metric_def IPPROTO_TCP_def)

section \<open>Properties of the packet hook\<close>

text \<open>
  C16. A TCP packet takes the next ticket and is stored in slot \<open>ticket mod 24\<close> with the
  ticket as its stamp; no other slot changes, the write hint becomes the slot number plus one
  whatever other CPUs stored in it, nothing else on the page changes and the packet is
  accepted. A packet without headers, or of another protocol, leaves the page as it is.
\<close>

theorem packet_hook_effect:
  assumes "page_ok r"
  shows "\<exists>r'. packet_telemetry_hook others skb (Some r) = (NF_ACCEPT, Some r') \<and> page_ok r' \<and>
    (case traced_metric skb of
       None \<Rightarrow> r' = r
     | Some m \<Rightarrow>
         let t = ticket_dispenser (net_ctl r); n = NETFILTER_SLOT_CAPACITY in
           ticket_dispenser (net_ctl r') = t + 1
           \<and> unat (wr_idx (net_ctl r')) = unat t mod n + 1
           \<and> net_slot_metric (net_buffer r') (unat t mod n) = m
           \<and> net_slot_ticket (net_buffer r') (unat t mod n) = t
           \<and> (\<forall>i < n. i \<noteq> unat t mod n \<longrightarrow>
                net_slot_metric (net_buffer r') i = net_slot_metric (net_buffer r) i
                \<and> net_slot_ticket (net_buffer r') i = net_slot_ticket (net_buffer r) i)
           \<and> rd_idx (net_ctl r') = rd_idx (net_ctl r)
           \<and> state_flags (net_ctl r') = state_flags (net_ctl r)
           \<and> r'\<lparr>net_ctl := net_ctl r, net_buffer := net_buffer r\<rparr> = r)"
proof (cases "traced_metric skb")
  case None
  then show ?thesis using assms by (simp add: packet_telemetry_hook_def)
next
  case (Some m)
  have hint: "unat (wr_idx (net_ctl (record_packet others m r)))
      = unat (ticket_dispenser (net_ctl r)) mod 24 + 1"
    using unat_slot_succ by (simp add: record_packet_effect Let_def)
  have frame: "(record_packet others m r)\<lparr>net_ctl := net_ctl r, net_buffer := net_buffer r\<rparr> = r"
    by (simp add: record_packet_effect Let_def)
  have dispenser: "ticket_dispenser (net_ctl (record_packet others m r))
      = ticket_dispenser (net_ctl r) + 1"
    by (simp add: record_packet_effect Let_def)
  show ?thesis
    using assms Some hint frame dispenser record_packet_slots [OF assms] record_packet_frame(2,3)
    by (simp add: packet_telemetry_hook_def net_slot_capacity Let_def)
qed

theorem packet_hook_effect_witness:
  "\<exists>r'. packet_telemetry_hook [Some 7] sample_packet (Some zeroed_page) = (NF_ACCEPT, Some r')
     \<and> ticket_dispenser (net_ctl r') = 1 \<and> unat (wr_idx (net_ctl r')) = 1
     \<and> pkt_len (net_slot_metric (net_buffer r') 0) = 0x3400 \<and> page_ok r'"
proof -
  have "ticket_dispenser (net_ctl zeroed_page) = 0" by (simp add: zeroed_page_def)
  then show ?thesis
    using packet_hook_effect [OF page_ok_zeroed, of "[Some 7]" sample_packet]
    by (auto simp: sample_metric Let_def)
qed

text \<open>
  C15. From the fresh page, after any sequence of packets with fewer than \<open>2 ^ 32\<close> TCP
  packets among them, the ring holds exactly the last 24 TCP packets in their slots with
  their tickets, the counter is their number, and the hint is 0 before the first packet and
  stays between 1 and 24 afterwards: it is a slot number, not a ticket.
\<close>

theorem packet_history:
  assumes "length (traced_packets packets) < 2 ^ 32"
  shows "\<exists>r. fold hook_step packets (Some zeroed_page) = Some r \<and> page_ok r
    \<and> ring_holds NETFILTER_SLOT_CAPACITY (ticket_dispenser (net_ctl r))
        (net_slot_ticket (net_buffer r)) (net_slot_metric (net_buffer r)) (traced_packets packets)
    \<and> unat (wr_idx (net_ctl r)) = (if traced_packets packets = [] then 0
        else (length (traced_packets packets) - 1) mod NETFILTER_SLOT_CAPACITY + 1)"
proof -
  let ?ms = "traced_packets packets"
  let ?r = "fold (record_packet []) ?ms zeroed_page"
  have ring: "page_ok ?r \<and> net_ring.holds ([] @ ?ms) ?r"
    by (rule net_ring.holds_push_all) (use assms zeroed_net_holds in simp_all)
  have zero: "ticket_dispenser (net_ctl zeroed_page) = of_nat 0" "wr_idx (net_ctl zeroed_page) = 0"
    by (simp_all add: zeroed_page_def)
  have hint: "unat (wr_idx (net_ctl ?r)) = (if ?ms = [] then 0 else (length ?ms - 1) mod 24 + 1)"
  proof (cases "?ms = []")
    case True
    then show ?thesis using zero by simp
  next
    case False
    have "unat (of_nat (length ?ms - 1) :: u32) = length ?ms - 1"
      by (rule unat_of_nat_small) (use assms in simp)
    then show ?thesis
      using False hint_after_packets [OF False page_ok_zeroed zero(1)] assms unat_slot_succ by simp
  qed
  show ?thesis
    using ring hint by (simp add: hook_run net_slot_capacity)
qed

theorem packet_history_witness:
  "\<exists>r. fold hook_step [([], sample_packet), ([], None), ([Some 9], sample_packet)] (Some zeroed_page)
       = Some r
     \<and> unat (wr_idx (net_ctl r)) = 2 \<and> net_slot_ticket (net_buffer r) 1 = 1"
proof -
  let ?packets = "[([], sample_packet), ([], None), ([Some 9], sample_packet)]"
  have two: "length (traced_packets ?packets) = 2"
    by (simp add: traced_packets_def List.map_filter_simps sample_metric)
  show ?thesis
    using packet_history [of ?packets] two
    by (auto simp: ring_holds_def net_slot_capacity dest: spec [of _ 1])
qed

text \<open>
  C25. The packet ring breaks when the counter wraps around, as 24 does not divide \<open>2 ^ 32\<close>. After
  \<open>2 ^ 32\<close> TCP packets the record of the packet with ticket \<open>2 ^ 32 - 16\<close> is in slot 0. The
  next packet gets ticket 0 and overwrites it, although only 15 packets came in between and the
  ring has 24 slots; the older ticket \<open>2 ^ 32 - 24\<close> stays in slot 16. A Scatter-Gather
  consumer that has still to read ticket \<open>2 ^ 32 - 16\<close> accepts nothing.
\<close>

theorem packet_ring_wraps:
  assumes "length (traced_packets packets) = 2 ^ 32" and "traced_metric (snd p) = Some m"
  shows "\<exists>r r'. fold hook_step packets (Some zeroed_page) = Some r \<and> hook_step p (Some r) = Some r'
    \<and> net_slot_ticket (net_buffer r) 0 = of_nat (2 ^ 32 - 16)
    \<and> net_slot_metric (net_buffer r) 0 = traced_packets packets ! (2 ^ 32 - 16)
    \<and> net_slot_ticket (net_buffer r') 0 = 0 \<and> net_slot_metric (net_buffer r') 0 = m
    \<and> net_slot_ticket (net_buffer r') 16 = of_nat (2 ^ 32 - 24)
    \<and> net_slot_metric (net_buffer r') 16 = traced_packets packets ! (2 ^ 32 - 24)
    \<and> gather NETFILTER_SLOT_CAPACITY (net_slot_ticket (net_buffer r')) (of_nat (2 ^ 32 - 16))
        = (of_nat (2 ^ 32 - 16), [Examine (of_nat (2 ^ 32 - 16))])"
proof -
  let ?ms = "traced_packets packets" and ?e = "of_nat (2 ^ 32 - 16) :: u32"
  let ?r = "fold (record_packet []) ?ms zeroed_page"
  let ?r' = "record_packet [] m ?r"
  have ring: "page_ok ?r" "net_ring.holds ?ms ?r"
    using net_ring.holds_push_all [OF page_ok_zeroed zeroed_net_holds, of ?ms] assms(1) by simp_all
  have n: "\<not> 24 dvd (2 ^ 32 :: nat)" "(24 :: nat) < 2 ^ 32" "2 ^ 32 mod 24 = (16 :: nat)" by simp_all
  note wrap = net_ring.wrap_push [OF ring assms(1) n(1,2), unfolded n(3)]
  have "slot_of 24 ?e = 0" "?e \<noteq> 0" by (simp_all add: slot_of_def)
  then have "gather 24 (net_tick ?r') ?e = (?e, [Examine ?e])"
    using wrap(5) by (subst gather.simps) (simp add: hit_def)
  then show ?thesis
    using wrap(3-8) assms(2) by (simp add: hook_run hook_step_Some net_slot_capacity)
qed

lemma traced_replicate:
  "traced_metric (snd p) = Some m \<Longrightarrow> traced_packets (replicate k p) = replicate k m"
  by (induction k) (simp_all add: traced_packets_def List.map_filter_simps)

theorem packet_ring_wraps_witness:
  "\<exists>packets p r r' m. traced_metric (snd p) = Some m
    \<and> fold hook_step packets (Some zeroed_page) = Some r \<and> hook_step p (Some r) = Some r'
    \<and> net_slot_ticket (net_buffer r) 0 = of_nat (2 ^ 32 - 16) \<and> net_slot_ticket (net_buffer r') 0 = 0"
proof -
  obtain m where m: "traced_metric (snd ([] :: u32 option list, sample_packet)) = Some m"
    by (simp add: sample_metric)
  have "length (traced_packets (replicate (2 ^ 32) ([], sample_packet))) = 2 ^ 32"
    by (simp only: traced_replicate [OF m] length_replicate)
  from packet_ring_wraps [OF this m] m show ?thesis by blast
qed

text \<open>
  The loop condition on the write hint always holds (the remainder is unsigned), so the
  loop ends only by a successful swap: the hint becomes the slot number plus one under any
  interference, and an attempt fails only when another CPU stored to the hint before it.
\<close>

theorem write_hint_loop:
  "wr_advance_cond slot_idx current_wr
   \<and> fst (wr_advance_loop slot_idx current_wr current_wr others 0) = slot_idx + 1
   \<and> snd (wr_advance_loop slot_idx current_wr current_wr others 0) \<le> length others"
  using wr_advance_result [of slot_idx current_wr current_wr others 0]
    wr_advance_failed [of slot_idx current_wr current_wr others 0]
  by simp

end
