(* ===== verification/CText.thy ===== *)
theory CText
  imports Prelude
begin

text \<open>
  Formatted output: the conversions of \<open>printf\<close> that the code uses (\<open>%u\<close>, \<open>%d\<close>,
  \<open>%02d\<close>, \<open>%lu\<close>, and \<open>%pI4\<close> of the kernel), their lengths, a reader that takes
  a decimal back, \<open>snprintf\<close> into a buffer with its truncation, and \<open>ntohs\<close> on a
  little-endian machine.
\<close>

section \<open>Conversions\<close>

definition digit :: "nat \<Rightarrow> char" where
  "digit d = char_of (48 + d)"

lemma digits:
  "digit 0 = CHR ''0''" "digit 1 = CHR ''1''" "digit 2 = CHR ''2''" "digit 3 = CHR ''3''"
  "digit 4 = CHR ''4''" "digit 5 = CHR ''5''" "digit 6 = CHR ''6''" "digit 7 = CHR ''7''"
  "digit 8 = CHR ''8''" "digit 9 = CHR ''9''"
  by code_simp+

fun decimal :: "nat \<Rightarrow> string" where
  "decimal n = (if n < 10 then [digit n] else decimal (n div 10) @ [digit (n mod 10)])"

declare decimal.simps [simp del]

definition decimal_int :: "int \<Rightarrow> string" where
  "decimal_int z = (if z < 0 then ''-'' @ decimal (nat (- z)) else decimal (nat z))"

text \<open>\<open>%02d\<close> of a number that is not negative.\<close>

definition decimal2 :: "nat \<Rightarrow> string" where
  "decimal2 n = (let s = decimal n in replicate (2 - length s) CHR ''0'' @ s)"

text \<open>The kernel prints an IPv4 address from its four bytes in the order of memory.\<close>

definition pI4 :: "u8 list \<Rightarrow> string" where
  "pI4 bs = decimal (unat (bs ! 0)) @ ''.'' @ decimal (unat (bs ! 1)) @ ''.''
     @ decimal (unat (bs ! 2)) @ ''.'' @ decimal (unat (bs ! 3))"

definition newline :: string where
  "newline = [CHR 0x0A]"

lemma length_newline [simp]: "length newline = 1"
  by (simp add: newline_def)

text \<open>The reader of decimals.\<close>

definition undecimal :: "string \<Rightarrow> nat" where
  "undecimal s = foldl (\<lambda>n c. 10 * n + (of_char c - 48)) 0 s"

lemma undigit [simp]: "d < 10 \<Longrightarrow> of_char (digit d) - 48 = (d :: nat)"
  by (simp add: digit_def of_char_of)

lemma undecimal_decimal [simp]: "undecimal (decimal n) = n"
proof (induction n rule: decimal.induct)
  case (1 n)
  then show ?case
    by (subst decimal.simps) (auto simp: undecimal_def)
qed

lemma decimal_inj: "(decimal m = decimal n) = (m = n)"
  by (metis undecimal_decimal)

lemma decimal_nonempty [simp]: "decimal n \<noteq> []"
  by (subst decimal.simps) simp

lemma length_decimal: "n < 10 ^ Suc k \<Longrightarrow> length (decimal n) \<le> Suc k"
proof (induction k arbitrary: n)
  case 0
  then show ?case by (subst decimal.simps) simp
next
  case (Suc k)
  then have "n div 10 < 10 ^ Suc k" by (simp add: div_less_iff_less_mult)
  then show ?case using Suc.IH [of "n div 10"] by (subst decimal.simps) auto
qed

lemma length_decimal_u8: "length (decimal (unat (w :: u8))) \<le> 3"
  by (rule length_decimal [where k = 2, simplified, of "unat w"])
    (rule order_less_le_trans [OF unsigned_less], simp)

lemma length_decimal_u16: "length (decimal (unat (w :: u16))) \<le> 5"
  by (rule length_decimal [where k = 4, simplified, of "unat w"])
    (rule order_less_le_trans [OF unsigned_less], simp)

lemma length_decimal_u32: "length (decimal (unat (w :: u32))) \<le> 10"
  by (rule length_decimal [where k = 9, simplified, of "unat w"])
    (rule order_less_le_trans [OF unsigned_less], simp)

lemma length_decimal2: "n < 100 \<Longrightarrow> length (decimal2 n) = 2"
  using length_decimal [of n 1] by (cases "decimal n") (auto simp: decimal2_def Let_def)

lemma length_pI4: "length (pI4 bs) \<le> 15"
  using length_decimal_u8 [of "bs ! 0"] length_decimal_u8 [of "bs ! 1"]
    length_decimal_u8 [of "bs ! 2"] length_decimal_u8 [of "bs ! 3"]
  by (simp add: pI4_def)

section \<open>Byte order\<close>

definition ntohs :: "u16 \<Rightarrow> u16" where
  "ntohs w = push_bit 8 w OR drop_bit 8 w"

lemma ntohs_ntohs [simp]: "ntohs (ntohs w) = w"
proof (rule bit_word_eqI)
  fix k
  assume "k < LENGTH(16)"
  then show "bit (ntohs (ntohs w)) k = bit w k"
    by (cases "k < 8") (auto simp: ntohs_def bit_simps dest: bit_imp_le_length)
qed

section \<open>snprintf\<close>

text \<open>
  \<open>snprintf (buf + off, room, ...)\<close> of the kernel: at most \<open>room - 1\<close> characters and a
  NUL are stored; the result is the length of the whole text. A room above \<open>INT_MAX\<close> is
  refused with result 0.
\<close>

definition snprintf :: "nat \<Rightarrow> nat \<Rightarrow> string \<Rightarrow> string \<Rightarrow> string \<times> nat" where
  "snprintf off room text buf =
     (if room > 2 ^ 31 - 1 then (buf, 0)
      else if room = 0 then (buf, length text)
      else (write_at off (take (room - 1) text @ [CHR 0x00]) buf, length text))"

text \<open>
  \<open>n += snprintf (buf + n, PAGE_SIZE - n, ...)\<close>; the subtraction is unsigned and 64 bits wide.
\<close>

definition emit :: "nat \<Rightarrow> string \<Rightarrow> string \<times> nat \<Rightarrow> string \<times> nat" where
  "emit page_size text st = (case st of (buf, n) \<Rightarrow>
     let (buf', k) = snprintf n (nat ((int page_size - int n) mod 2 ^ 64)) text buf
     in (buf', n + k))"

text \<open>Text that fits is appended whole.\<close>

lemma emit_fits:
  assumes "length buf = page_size" "n + length text < page_size" "page_size < 2 ^ 31"
  shows "\<exists>buf'. emit page_size text (buf, n) = (buf', n + length text)
    \<and> length buf' = page_size \<and> take (n + length text) buf' = take n buf @ text"
proof -
  have "(int page_size - int n) mod 2 ^ 64 = int page_size - int n"
    by (rule mod_pos_pos_trivial) (use assms in simp_all)
  then have room: "nat ((int page_size - int n) mod 2 ^ 64) = page_size - n" by simp
  have small: "\<not> 2 ^ 31 - 1 < page_size - n" using assms by linarith
  let ?buf = "write_at n (text @ [CHR 0x00]) buf"
  have "emit page_size text (buf, n) = (?buf, n + length text)"
    unfolding emit_def prod.case room using assms small by (simp add: snprintf_def Let_def)
  moreover have "length ?buf = page_size" using assms by simp
  moreover have "take (n + length text) ?buf = take n buf @ text"
    using assms by (simp add: write_at_def min_def)
  ultimately show ?thesis by blast
qed

lemma emit_all:
  assumes "length buf = page_size" "n + length (concat texts) < page_size" "page_size < 2 ^ 31"
  shows "\<exists>buf'. fold (emit page_size) texts (buf, n) = (buf', n + length (concat texts))
    \<and> length buf' = page_size \<and> take (n + length (concat texts)) buf' = take n buf @ concat texts"
  using assms
proof (induction texts arbitrary: buf n)
  case Nil
  then show ?case by simp
next
  case (Cons s texts)
  then obtain b where b: "emit page_size s (buf, n) = (b, n + length s)"
    "length b = page_size" "take (n + length s) b = take n buf @ s"
    using emit_fits [of buf page_size n s] by auto
  then show ?case
    using Cons.IH [of b "n + length s"] Cons.prems by (auto simp: add.assoc)
qed

end
