(* ===== verification/NetRead.thy ===== *)
theory NetRead
  imports NetFilter CText
begin

text \<open>
  The diagnostic read of the network device (\<open>kernel/telemetry_net.c\<close>,
  \<open>telemetry_net_read\<close>): the 24 slots are formatted into a temporary page and copied to
  the user in one piece. The lemmas show that the page always suffices, what the text is, and
  that the temporary page is released on every path.
\<close>

section \<open>The text\<close>

definition net_header :: string where
  "net_header = ''=== TELEMETRY RAW MATRIX SNAPSHOT (CAPACITY: ''
     @ decimal NETFILTER_SLOT_CAPACITY @ '') ==='' @ newline"

definition net_footer :: string where
  "net_footer = ''=== END OF TELEMETRY SNAPSHOT ==='' @ newline"

text \<open>
  One line. The addresses are passed by reference to their bytes; \<open>ntohs\<close> of the 32-bit
  length cuts it to 16 bits.
\<close>

definition net_line :: "u8 list \<Rightarrow> nat \<Rightarrow> string" where
  "net_line pool i =
     (let m = net_slot_metric pool i in
      ''SLOT:'' @ decimal2 i @ '' | TICKET:'' @ decimal (unat (net_slot_ticket pool i)) @ '' | ''
      @ pI4 (read_at (net_metric_at i ''src_ip'') 4 pool) @ '':''
      @ decimal (unat (ntohs (src_port m))) @ '' -> ''
      @ pI4 (read_at (net_metric_at i ''dest_ip'') 4 pool) @ '':''
      @ decimal (unat (ntohs (dest_port m))) @ '' | LEN:''
      @ decimal (unat (ntohs (ucast (pkt_len m)))) @ newline)"

section \<open>The read\<close>

text \<open>
  \<open>pages\<close> counts the temporary pages that are allocated and not freed; \<open>copied\<close> is what
  was copied out completely.
\<close>

record net_read_result =
  ret :: "errno + nat"
  pos :: int
  copied :: "string option"
  pages :: nat

text \<open>
  \<open>get_zeroed_page\<close> (whether it succeeds) and \<open>copy_to_user\<close> (the number of bytes that it
  could not copy) are parameters, and so is the page size of the kernel.
\<close>

definition net_render :: "nat \<Rightarrow> u8 list \<Rightarrow> string \<times> nat" where
  "net_render page_size pool =
     (let page_buf = replicate page_size CHR 0x00;
          st0 = emit page_size net_header (page_buf, 0);
          st1 = fold (\<lambda>i. emit page_size (net_line pool i)) [0..<NETFILTER_SLOT_CAPACITY] st0
      in emit page_size net_footer st1)"

definition telemetry_net_read ::
  "nat \<Rightarrow> bool \<Rightarrow> (string \<Rightarrow> nat) \<Rightarrow> shared_ring option \<Rightarrow> nat \<Rightarrow> int \<Rightarrow> net_read_result" where
  "telemetry_net_read page_size page_available copy_to_user ring_ptr count ppos =
     (case ring_ptr of
        None \<Rightarrow> \<lparr>ret = Inl ENODEV, pos = ppos, copied = None, pages = 0\<rparr>
      | Some r \<Rightarrow>
          if ppos > 0 then \<lparr>ret = Inr 0, pos = ppos, copied = None, pages = 0\<rparr>
          else if \<not> page_available then \<lparr>ret = Inl ENOMEM, pos = ppos, copied = None, pages = 0\<rparr>
          else
            (let allocated = 1;
                 (page_buf, bytes_written) = net_render page_size (net_buffer r)
             in if bytes_written > count
                then \<lparr>ret = Inl EINVAL, pos = ppos, copied = None, pages = allocated - 1\<rparr>
                else if copy_to_user (take bytes_written page_buf) \<noteq> 0
                then \<lparr>ret = Inl EFAULT, pos = ppos, copied = None, pages = allocated - 1\<rparr>
                else \<lparr>ret = Inr bytes_written, pos = ppos + int bytes_written,
                       copied = Some (take bytes_written page_buf), pages = allocated - 1\<rparr>))"

section \<open>The page suffices\<close>

text \<open>What the text is, without the buffer.\<close>

definition net_snapshot :: "u8 list \<Rightarrow> string" where
  "net_snapshot pool =
     net_header @ concat (map (net_line pool) [0..<NETFILTER_SLOT_CAPACITY]) @ net_footer"

lemma length_net_line: "i < 100 \<Longrightarrow> length (net_line pool i) \<le> 89"
  using length_decimal_u32 [of "net_slot_ticket pool i"]
    length_decimal_u16 [of "ntohs (src_port (net_slot_metric pool i))"]
    length_decimal_u16 [of "ntohs (dest_port (net_slot_metric pool i))"]
    length_decimal_u16 [of "ntohs (ucast (pkt_len (net_slot_metric pool i)))"]
    length_pI4 [of "read_at (net_metric_at i ''src_ip'') 4 pool"]
    length_pI4 [of "read_at (net_metric_at i ''dest_ip'') 4 pool"] length_decimal2 [of i]
  by (simp add: net_line_def Let_def)

lemma length_concat_le: "\<forall>x \<in> set xs. length (f x) \<le> k \<Longrightarrow> length (concat (map f xs)) \<le> k * length xs"
  by (induction xs) auto

lemma length_net_header: "length net_header \<le> 53"
  using length_decimal [of 24 1] by (simp add: net_header_def net_slot_capacity)

lemma length_net_footer: "length net_footer = 34"
  by (simp add: net_footer_def)

lemma length_net_snapshot: "length (net_snapshot pool) \<le> 2223"
proof -
  have "length (concat (map (net_line pool) [0..<24])) \<le> 89 * length [0..<24]"
    by (rule length_concat_le) (auto intro: length_net_line)
  then show ?thesis
    using length_net_header length_net_footer by (simp add: net_snapshot_def net_slot_capacity)
qed

lemma net_render_text:
  assumes "4096 \<le> page_size" "page_size < 2 ^ 31"
  shows "\<exists>page_buf. net_render page_size pool = (page_buf, length (net_snapshot pool))
    \<and> take (length (net_snapshot pool)) page_buf = net_snapshot pool"
proof -
  let ?texts = "[net_header] @ map (net_line pool) [0..<NETFILTER_SLOT_CAPACITY] @ [net_footer]"
  have eq: "concat ?texts = net_snapshot pool" by (simp add: net_snapshot_def)
  have "length (concat ?texts) < page_size"
    unfolding eq using length_net_snapshot [of pool] assms(1) by simp
  then have "\<exists>buf'. fold (emit page_size) ?texts (replicate page_size CHR 0x00, 0)
      = (buf', 0 + length (concat ?texts)) \<and> length buf' = page_size
    \<and> take (0 + length (concat ?texts)) buf'
      = take 0 (replicate page_size CHR 0x00) @ concat ?texts"
    by (intro emit_all) (use assms(2) in simp_all)
  moreover have "fold (emit page_size) ?texts (replicate page_size CHR 0x00, 0) = net_render page_size pool"
    by (simp add: net_render_def Let_def fold_map o_def)
  ultimately show ?thesis unfolding eq by auto
qed

lemma telemetry_net_read_text:
  assumes "4096 \<le> page_size" "page_size < 2 ^ 31"
  shows "telemetry_net_read page_size page_available copy_to_user (Some r) count ppos =
    (let text = net_snapshot (net_buffer r) in
     if ppos > 0 then \<lparr>ret = Inr 0, pos = ppos, copied = None, pages = 0\<rparr>
     else if \<not> page_available then \<lparr>ret = Inl ENOMEM, pos = ppos, copied = None, pages = 0\<rparr>
     else if length text > count then \<lparr>ret = Inl EINVAL, pos = ppos, copied = None, pages = 0\<rparr>
     else if copy_to_user text \<noteq> 0 then \<lparr>ret = Inl EFAULT, pos = ppos, copied = None, pages = 0\<rparr>
     else \<lparr>ret = Inr (length text), pos = ppos + int (length text), copied = Some text, pages = 0\<rparr>)"
  using net_render_text [OF assms, of "net_buffer r"] by (auto simp: telemetry_net_read_def Let_def)

section \<open>Properties of the diagnostic read\<close>

text \<open>
  C33. The text never exceeds 2223 bytes, so the temporary page is never overrun and
  nothing is truncated, whatever the bytes of the buffer: the read returns the header, one
  line for each of the 24 slots and the footer, or an error with nothing delivered and the
  position unchanged; a short user buffer is \<open>EINVAL\<close>. The temporary page is released on
  every path.
\<close>

theorem net_read_snapshot:
  assumes "4096 \<le> page_size" "page_size < 2 ^ 31"
  shows "length (net_snapshot (net_buffer r)) \<le> 2223
    \<and> telemetry_net_read page_size page_available copy_to_user (Some r) count ppos =
    (let text = net_snapshot (net_buffer r) in
     if ppos > 0 then \<lparr>ret = Inr 0, pos = ppos, copied = None, pages = 0\<rparr>
     else if \<not> page_available then \<lparr>ret = Inl ENOMEM, pos = ppos, copied = None, pages = 0\<rparr>
     else if length text > count then \<lparr>ret = Inl EINVAL, pos = ppos, copied = None, pages = 0\<rparr>
     else if copy_to_user text \<noteq> 0 then \<lparr>ret = Inl EFAULT, pos = ppos, copied = None, pages = 0\<rparr>
     else \<lparr>ret = Inr (length text), pos = ppos + int (length text), copied = Some text, pages = 0\<rparr>)"
  using telemetry_net_read_text [OF assms] length_net_snapshot by blast

theorem net_read_snapshot_witness:
  "telemetry_net_read 4096 True (\<lambda>s. 0) (Some zeroed_page) 2223 0 =
     \<lparr>ret = Inr (length (net_snapshot (net_buffer zeroed_page))),
      pos = int (length (net_snapshot (net_buffer zeroed_page))),
      copied = Some (net_snapshot (net_buffer zeroed_page)), pages = 0\<rparr>"
  using net_read_snapshot [of 4096 zeroed_page True "\<lambda>s. 0" 2223 0] by (auto simp: Let_def)

text \<open>
  \<open>cat\<close> ends: with a buffer of at least 2223 bytes the first read from position 0
  delivers the whole snapshot, and a second read from the position that the first one left
  returns 0 at once, whatever happened to the page in between.
\<close>

theorem net_read_cat_ends:
  assumes "4096 \<le> page_size" "page_size < 2 ^ 31" "2223 \<le> count" "\<forall>s. copy_to_user s = 0"
  shows "let first = telemetry_net_read page_size True copy_to_user (Some r) count 0 in
     copied first = Some (net_snapshot (net_buffer r))
   \<and> ret first = Inr (length (net_snapshot (net_buffer r)))
   \<and> telemetry_net_read page_size page_available copy_to_user (Some r2) count2 (pos first)
       = \<lparr>ret = Inr 0, pos = pos first, copied = None, pages = 0\<rparr>"
proof -
  have "0 < length (net_snapshot (net_buffer r))"
    by (simp add: net_snapshot_def net_footer_def)
  then show ?thesis
    using length_net_snapshot [of "net_buffer r"] assms
    by (simp add: telemetry_net_read_text Let_def)
qed

theorem net_read_cat_ends_witness:
  "copied (telemetry_net_read 4096 True (\<lambda>s. 0) (Some zeroed_page) 65536 0)
     = Some (net_snapshot (net_buffer zeroed_page))
   \<and> ret (telemetry_net_read 4096 False (\<lambda>s. 0) (Some zeroed_page) 1
       (pos (telemetry_net_read 4096 True (\<lambda>s. 0) (Some zeroed_page) 65536 0))) = Inr 0"
  using net_read_cat_ends [of 4096 65536 "\<lambda>s. 0" zeroed_page False zeroed_page 1]
  by (simp add: Let_def)

text \<open>
  C36. Round trip through the hook, the page and the read: after a TCP packet was recorded,
  the line of its slot shows its ticket, its addresses byte by byte in network order, and
  its ports and total length in host order.
\<close>

theorem net_read_shows_packet:
  assumes "page_ok r" "ip_hdr skb = Some ip" "protocol ip = IPPROTO_TCP" "tcp_hdr skb = Some tcp"
    and "packet_telemetry_hook others (Some skb) (Some r) = (verdict, Some r')"
  shows "let i = unat (ticket_dispenser (net_ctl r)) mod NETFILTER_SLOT_CAPACITY in
    net_line (net_buffer r') i =
      ''SLOT:'' @ decimal2 i @ '' | TICKET:'' @ decimal (unat (ticket_dispenser (net_ctl r))) @ '' | ''
      @ pI4 (le_bytes 4 (saddr ip)) @ '':'' @ decimal (unat (ntohs (source tcp))) @ '' -> ''
      @ pI4 (le_bytes 4 (daddr ip)) @ '':'' @ decimal (unat (ntohs (dest tcp))) @ '' | LEN:''
      @ decimal (unat (ntohs (tot_len ip))) @ newline"
proof -
  let ?i = "unat (ticket_dispenser (net_ctl r)) mod 24" and ?m = "packet_metric ip tcp"
  have i: "?i < 24" by simp
  have r': "r' = record_packet others ?m r"
    using assms(2-5) by (simp add: packet_telemetry_hook_def traced_metric_def)
  have pool: "net_buffer r' = store_net_ticket ?i (ticket_dispenser (net_ctl r))
      (store_net_metric ?i ?m (net_buffer r))"
    by (simp add: r' record_packet_effect Let_def net_slot_capacity)
  have ips: "read_at (?i * 32) 4 (net_buffer r') = le_bytes 4 (saddr ip)"
    "read_at (?i * 32 + 4) 4 (net_buffer r') = le_bytes 4 (daddr ip)"
    using i net_buffer_length [OF assms(1)]
    by (simp_all add: pool net_slot_defs layout_simps packet_metric_def store32_def store16_def
        read_at_write_other read_at_write_same)
  have "net_slot_ticket (net_buffer r') ?i = ticket_dispenser (net_ctl r)"
    "net_slot_metric (net_buffer r') ?i = ?m"
    using record_packet_slots [OF assms(1) i] by (simp_all add: r')
  moreover have "ucast (ucast w :: u32) = w" for w :: u16
    by (rule bit_word_eqI) (auto simp: bit_simps dest: bit_imp_le_length)
  ultimately show ?thesis
    using ips by (simp add: net_line_def net_offsets net_slot_capacity Let_def packet_metric_def)
qed

theorem net_read_shows_packet_witness:
  "\<exists>r'. packet_telemetry_hook [] sample_packet (Some zeroed_page) = (NF_ACCEPT, Some r')
     \<and> net_line (net_buffer r') 0 =
       ''SLOT:00 | TICKET:0 | 10.0.0.1:443 -> 10.0.0.2:8080 | LEN:52'' @ newline"
proof -
  define skb where "skb = the sample_packet"
  have skb: "sample_packet = Some skb"
    "ip_hdr skb = Some \<lparr>protocol = 6, tot_len = 0x3400, saddr = 0x0100000A, daddr = 0x0200000A\<rparr>"
    "tcp_hdr skb = Some \<lparr>source = 0xBB01, dest = 0x901F\<rparr>"
    by (simp_all add: sample_packet_def skb_def)
  have zero: "ticket_dispenser (net_ctl zeroed_page) = 0" by (simp add: zeroed_page_def)
  obtain r' where r': "packet_telemetry_hook [] (Some skb) (Some zeroed_page) = (NF_ACCEPT, Some r')"
    by (cases "traced_metric (Some skb)") (auto simp: packet_telemetry_hook_def)
  have line: "net_line (net_buffer r') 0 =
      ''SLOT:'' @ decimal2 0 @ '' | TICKET:'' @ decimal 0 @ '' | ''
      @ pI4 (le_bytes 4 (0x0100000A :: u32)) @ '':'' @ decimal (unat (ntohs 0xBB01)) @ '' -> ''
      @ pI4 (le_bytes 4 (0x0200000A :: u32)) @ '':'' @ decimal (unat (ntohs 0x901F)) @ '' | LEN:''
      @ decimal (unat (ntohs 0x3400)) @ newline"
    using net_read_shows_packet [OF page_ok_zeroed skb(2) _ skb(3) r'] zero
    by (simp add: IPPROTO_TCP_def Let_def)
  have texts: "decimal2 0 = ''00''" "decimal 0 = ''0''" by code_simp+
  have ips: "pI4 (le_bytes 4 (0x0100000A :: u32)) = ''10.0.0.1''"
    "pI4 (le_bytes 4 (0x0200000A :: u32)) = ''10.0.0.2''" by code_simp+
  have host: "unat (ntohs 0xBB01) = 443" "unat (ntohs 0x901F) = 8080" "unat (ntohs 0x3400) = 52"
    by code_simp+
  have nums: "decimal 443 = ''443''" "decimal 8080 = ''8080''" "decimal 52 = ''52''"
    by (simp_all add: decimal.simps digits)
  have "net_line (net_buffer r') 0 =
      ''SLOT:00 | TICKET:0 | 10.0.0.1:443 -> 10.0.0.2:8080 | LEN:52'' @ newline"
    by (simp only: line texts ips host nums append_Cons append_Nil)
  then show ?thesis unfolding skb(1) using r' by blast
qed

end
