(* ===== verification/ByteRing.thy ===== *)
theory ByteRing
  imports Layout
begin

text \<open>
  Bounded queues of bytes. The locales \<open>bounded_buffer\<close> and \<open>bounded_fifo\<close> are
  the contract that the byte rings of the page offer to the loops that fill and drain them; the lemmas about whole
  messages are proved in it once. The second half is the index arithmetic of a ring whose
  indices are \<open>u32\<close> values reduced modulo its capacity: the content between the read
  and the write index, and what one store or one load does to it.
\<close>

section \<open>Loops over a queue\<close>

text \<open>Store the elements one by one until one does not fit: what fitted stays stored.\<close>

fun put_all :: "('a \<Rightarrow> 's \<Rightarrow> 's option) \<Rightarrow> 'a list \<Rightarrow> 's \<Rightarrow> bool \<times> 's" where
  "put_all put [] s = (True, s)"
| "put_all put (x # xs) s = (case put x s of None \<Rightarrow> (False, s) | Some s' \<Rightarrow> put_all put xs s')"

text \<open>Take at most \<open>n\<close> elements.\<close>

fun get_upto :: "('s \<Rightarrow> ('a \<times> 's) option) \<Rightarrow> nat \<Rightarrow> 's \<Rightarrow> 'a list \<times> 's" where
  "get_upto get 0 s = ([], s)"
| "get_upto get (Suc n) s = (case get s of None \<Rightarrow> ([], s)
     | Some (x, s') \<Rightarrow> (let (xs, t) = get_upto get n s' in (x # xs, t)))"

section \<open>The contract of a bounded queue\<close>

locale bounded_buffer =
  fixes inv :: "'s \<Rightarrow> bool"
    and content :: "'s \<Rightarrow> 'a list"
    and cap :: nat
    and put :: "'a \<Rightarrow> 's \<Rightarrow> 's option"
  assumes content_le: "inv s \<Longrightarrow> length (content s) \<le> cap"
    and put_full: "inv s \<Longrightarrow> length (content s) = cap \<Longrightarrow> put x s = None"
    and put_room: "inv s \<Longrightarrow> length (content s) < cap \<Longrightarrow>
      \<exists>s'. put x s = Some s' \<and> inv s' \<and> content s' = content s @ [x]"
begin

abbreviation room :: "'s \<Rightarrow> nat" where
  "room s \<equiv> cap - length (content s)"

lemma put_SomeD:
  assumes "inv s" "put x s = Some s'"
  shows "inv s' \<and> content s' = content s @ [x] \<and> length (content s) < cap"
proof -
  have "length (content s) < cap"
    using assms content_le [of s] put_full [of s x] by fastforce
  then show ?thesis using assms put_room [of s x] by auto
qed

text \<open>A message is stored up to the room there is, and the flag says whether it fitted.\<close>

lemma put_all_spec:
  assumes "inv s" "put_all put xs s = (ok, t)"
  shows "inv t \<and> content t = content s @ take (room s) xs
    \<and> ok = (length xs \<le> room s)"
  using assms
proof (induction xs arbitrary: s)
  case Nil
  then show ?case by simp
next
  case (Cons x xs)
  show ?case
  proof (cases "put x s")
    case None
    have "length (content s) = cap"
      using Cons.prems None content_le [of s] put_room [of s x] by fastforce
    then show ?thesis using Cons.prems None by simp
  next
    case (Some s')
    have s': "inv s'" "content s' = content s @ [x]" "length (content s) < cap"
      using put_SomeD [OF Cons.prems(1) Some] by auto
    have "inv t \<and> content t = content s' @ take (room s') xs \<and> ok = (length xs \<le> room s')"
      using Cons.IH [OF s'(1)] Cons.prems(2) Some by simp
    moreover have "room s = Suc (room s')" using s' by simp
    ultimately show ?thesis using s' by simp
  qed
qed

end

text \<open>A queue also hands its oldest element out.\<close>

locale bounded_fifo = bounded_buffer +
  fixes get :: "'a \<Rightarrow> ('b \<times> 'a) option"
  assumes get_empty: "inv s \<Longrightarrow> content s = [] \<Longrightarrow> get s = None"
    and get_cons: "inv s \<Longrightarrow> content s = x # xs \<Longrightarrow>
      \<exists>s'. get s = Some (x, s') \<and> inv s' \<and> content s' = xs"
begin

lemma get_SomeD:
  assumes "inv s" "get s = Some (x, s')"
  shows "inv s' \<and> content s = x # content s'"
proof (cases "content s")
  case Nil
  then show ?thesis using assms get_empty [of s] by simp
next
  case (Cons y ys)
  then show ?thesis using assms get_cons [of s y ys] by auto
qed

text \<open>Draining delivers the oldest elements, in order, and leaves the rest.\<close>

lemma get_upto_spec:
  assumes "inv s" "get_upto get n s = (xs, t)"
  shows "inv t \<and> xs = take n (content s) \<and> content t = drop n (content s)"
  using assms
proof (induction n arbitrary: s xs)
  case 0
  then show ?case by simp
next
  case (Suc n)
  show ?case
  proof (cases "get s")
    case None
    have "content s = []"
      using Suc.prems(1) None get_cons [of s] by (cases "content s") auto
    then show ?thesis using Suc.prems None by simp
  next
    case (Some p)
    obtain x s' where p: "p = (x, s')" by (cases p)
    obtain ys where ys: "get_upto get n s' = (ys, t)" "xs = x # ys"
      using Suc.prems(2) Some p by (auto split: prod.splits)
    have s': "inv s'" "content s = x # content s'"
      using get_SomeD [of s x s'] Suc.prems(1) Some p by auto
    show ?thesis using Suc.IH [OF s'(1) ys(1)] s'(2) ys(2) by simp
  qed
qed

end

section \<open>Indices and content of a ring\<close>

text \<open>
  \<open>(i + 1) % capacity\<close> on \<open>u32\<close>. The capacity of the ring is a small positive
  constant, so the reduction happens without overflow of the sum for a valid index.
\<close>

definition ring_next :: "nat \<Rightarrow> u32 \<Rightarrow> u32" where
  "ring_next cap i = (i + 1) mod of_nat cap"

definition ring_count :: "nat \<Rightarrow> u32 \<Rightarrow> u32 \<Rightarrow> nat" where
  "ring_count cap rd wr = (unat wr + cap - unat rd) mod cap"

definition ring_content :: "nat \<Rightarrow> u32 \<Rightarrow> u32 \<Rightarrow> 'a list \<Rightarrow> 'a list" where
  "ring_content cap rd wr buf =
     map (\<lambda>k. buf ! ((unat rd + k) mod cap)) [0..<ring_count cap rd wr]"

definition ring_ok :: "nat \<Rightarrow> u32 \<Rightarrow> u32 \<Rightarrow> 'a list \<Rightarrow> bool" where
  "ring_ok cap rd wr buf \<longleftrightarrow>
     1 < cap \<and> cap < 2 ^ 31 \<and> unat rd < cap \<and> unat wr < cap \<and> length buf = cap"

lemma length_ring_content [simp]: "length (ring_content cap rd wr buf) = ring_count cap rd wr"
  by (simp add: ring_content_def)

lemma unat_ring_next:
  assumes "cap < 2 ^ 31" "unat i < cap"
  shows "unat (ring_next cap i) = (unat i + 1) mod cap"
proof -
  have "unat (i + 1) = unat i + 1"
    by (rule unat_succ_small) (use assms in simp)
  moreover have "unat (of_nat cap :: u32) = cap"
    by (rule unat_of_nat_small) (use assms in simp)
  ultimately show ?thesis by (simp add: ring_next_def unat_mod_word)
qed

lemma ring_next_less:
  "cap < 2 ^ 31 \<Longrightarrow> unat i < cap \<Longrightarrow> unat (ring_next cap i) < cap"
  by (simp add: unat_ring_next)

text \<open>How the distance between two indices below the capacity moves with them.\<close>

lemma ring_count_cases:
  assumes "unat rd < cap" "unat wr < cap"
  shows "ring_count cap rd wr = (if unat rd \<le> unat wr then unat wr - unat rd
           else unat wr + cap - unat rd)"
  using assms by (auto simp: ring_count_def mod_if)

lemma ring_count_less: "0 < cap \<Longrightarrow> ring_count cap rd wr < cap"
  by (simp add: ring_count_def)

text \<open>The two reductions of the ring written as case distinctions.\<close>

lemma ring_next_cases:
  assumes "cap < 2 ^ 31" "unat i < cap"
  shows "unat (ring_next cap i) = (if unat i + 1 = cap then 0 else unat i + 1)"
  using assms by (simp add: unat_ring_next)

lemma ring_slot_cases:
  "i < cap \<Longrightarrow> k < cap \<Longrightarrow> (i + k) mod cap = (if i + k < cap then i + k else i + k - cap)"
  for i k cap :: nat
  by (simp add: mod_if)

lemma ring_empty_iff:
  assumes "ring_ok cap rd wr buf"
  shows "(rd = wr) = (ring_count cap rd wr = 0)"
  using assms by (auto simp: ring_ok_def ring_count_cases unat_eq_iff)

lemma ring_full_iff:
  assumes "ring_ok cap rd wr buf"
  shows "(ring_next cap wr = rd) = (ring_count cap rd wr = cap - 1)"
  using assms by (simp add: ring_ok_def ring_count_cases unat_eq_iff ring_next_cases) linarith

lemma ring_count_put:
  assumes "ring_ok cap rd wr buf" "ring_next cap wr \<noteq> rd"
  shows "ring_count cap rd (ring_next cap wr) = Suc (ring_count cap rd wr)"
  using assms
  by (simp add: ring_ok_def ring_count_cases ring_next_less unat_eq_iff ring_next_cases
      split: if_splits) linarith

lemma ring_count_get:
  assumes "ring_ok cap rd wr buf" "rd \<noteq> wr"
  shows "ring_count cap rd wr = Suc (ring_count cap (ring_next cap rd) wr)"
  using assms
  by (simp add: ring_ok_def ring_count_cases ring_next_less unat_eq_iff ring_next_cases) linarith

lemma ring_slot_of_count:
  assumes "ring_ok cap rd wr buf"
  shows "(unat rd + ring_count cap rd wr) mod cap = unat wr"
proof -
  have "unat rd < cap" "unat wr < cap" "ring_count cap rd wr < cap"
    using assms ring_count_less [of cap rd wr] by (auto simp: ring_ok_def)
  then show ?thesis by (simp add: ring_slot_cases) (auto simp: ring_count_cases)
qed

lemma ring_slot_other:
  assumes "ring_ok cap rd wr buf" "k < ring_count cap rd wr"
  shows "(unat rd + k) mod cap \<noteq> unat wr"
proof -
  have "unat rd < cap" "unat wr < cap" "k < cap"
    using assms ring_count_less [of cap rd wr] by (auto simp: ring_ok_def)
  then show ?thesis
    using assms(2) by (auto simp: ring_slot_cases ring_count_cases split: if_splits)
qed

text \<open>One store appends, one load removes the oldest.\<close>

lemma ring_content_put:
  assumes ok: "ring_ok cap rd wr buf" and room: "ring_next cap wr \<noteq> rd"
  shows "ring_content cap rd (ring_next cap wr) (buf[unat wr := x]) = ring_content cap rd wr buf @ [x]"
proof -
  let ?n = "ring_count cap rd wr"
  have len: "unat wr < length buf" "0 < cap" using ok by (auto simp: ring_ok_def)
  have "map (\<lambda>k. buf[unat wr := x] ! ((unat rd + k) mod cap)) [0..<?n]
      = map (\<lambda>k. buf ! ((unat rd + k) mod cap)) [0..<?n]"
    using ring_slot_other [OF ok] by (auto intro!: nth_list_update_neq dest: sym)
  moreover have "buf[unat wr := x] ! ((unat rd + ?n) mod cap) = x"
    using ring_slot_of_count [OF ok] len by simp
  ultimately show ?thesis
    by (simp add: ring_content_def ring_count_put [OF ok room])
qed

lemma ring_content_get:
  assumes ok: "ring_ok cap rd wr buf" and "rd \<noteq> wr"
  shows "ring_content cap rd wr buf = buf ! unat rd # ring_content cap (ring_next cap rd) wr buf"
proof -
  let ?n = "ring_count cap (ring_next cap rd) wr"
  have n: "ring_count cap rd wr = Suc ?n" by (rule ring_count_get [OF assms])
  have rd: "unat rd mod cap = unat rd" "cap < 2 ^ 31" "unat rd < cap"
    using ok by (auto simp: ring_ok_def)
  have nxt: "unat (ring_next cap rd) = (unat rd + 1) mod cap"
    by (rule unat_ring_next) (rule rd)+
  have shift: "Suc (unat rd + k) mod cap = (unat (ring_next cap rd) + k) mod cap" for k
    using mod_add_left_eq [of "unat rd + 1" cap k] by (simp add: nxt)
  show ?thesis
    by (simp add: ring_content_def n upt_rec [of 0] rd map_Suc_upt [symmetric] shift o_def
        del: upt_Suc)
qed

lemma ring_content_nil_iff:
  "ring_ok cap rd wr buf \<Longrightarrow> (ring_content cap rd wr buf = []) = (rd = wr)"
  using ring_empty_iff [of cap rd wr buf] by (simp add: length_0_conv [symmetric] del: length_0_conv)

lemma ring_ok_put:
  "ring_ok cap rd wr buf \<Longrightarrow> ring_ok cap rd (ring_next cap wr) (buf[i := x])"
  by (simp add: ring_ok_def ring_next_less)

lemma ring_ok_get: "ring_ok cap rd wr buf \<Longrightarrow> ring_ok cap (ring_next cap rd) wr buf"
  by (simp add: ring_ok_def ring_next_less)

end
