(* ===== verification/CharDev.thy ===== *)
theory CharDev
  imports ByteRing
begin

text \<open>
  The byte streams of \<open>kernel/telemetry_core.c\<close>: \<open>dev_open\<close> and
  \<open>dev_read\<close> of the character device, and the two exported calls that push a packet
  metric byte by byte, into the character ring (\<open>telemetry_shared_char_dev_push_metric\<close>)
  and into the network buffer (\<open>telemetry_net_dev_push_metric\<close>). Each C loop is a
  recursion whose body is the loop body, accesses outside the array included. The writer side
  of the device, which can sleep, is in the theory of the blocking writer.
\<close>

section \<open>The two byte rings of the page\<close>

abbreviation char_rd :: "shared_ring \<Rightarrow> u32" where "char_rd r \<equiv> rd_idx (char_ctl r)"
abbreviation char_wr :: "shared_ring \<Rightarrow> u32" where "char_wr r \<equiv> wr_idx (char_ctl r)"
abbreviation net_rd :: "shared_ring \<Rightarrow> u32" where "net_rd r \<equiv> rd_idx (net_ctl r)"
abbreviation net_wr :: "shared_ring \<Rightarrow> u32" where "net_wr r \<equiv> wr_idx (net_ctl r)"

definition char_next :: "u32 \<Rightarrow> u32" where
  "char_next = ring_next TELEMETRY_RING_BUFFER_CAPACITY"

definition net_next :: "u32 \<Rightarrow> u32" where
  "net_next = ring_next TELEMETRY_NETFILTER_RING_BUFFER_CAPACITY"

definition set_char_rd :: "u32 \<Rightarrow> shared_ring \<Rightarrow> shared_ring" where
  "set_char_rd i r = r\<lparr>char_ctl := (char_ctl r)\<lparr>rd_idx := i\<rparr>\<rparr>"

definition set_char_wr :: "u32 \<Rightarrow> shared_ring \<Rightarrow> shared_ring" where
  "set_char_wr i r = r\<lparr>char_ctl := (char_ctl r)\<lparr>wr_idx := i\<rparr>\<rparr>"

definition set_char_flags :: "u32 \<Rightarrow> shared_ring \<Rightarrow> shared_ring" where
  "set_char_flags f r = r\<lparr>char_ctl := (char_ctl r)\<lparr>state_flags := f\<rparr>\<rparr>"

definition set_net_wr :: "u32 \<Rightarrow> shared_ring \<Rightarrow> shared_ring" where
  "set_net_wr i r = r\<lparr>net_ctl := (net_ctl r)\<lparr>wr_idx := i\<rparr>\<rparr>"

definition store_char :: "u32 \<Rightarrow> u8 \<Rightarrow> shared_ring \<Rightarrow> shared_ring" where
  "store_char i b r = r\<lparr>char_buffer := (char_buffer r)[unat i := b]\<rparr>"

definition store_net :: "u32 \<Rightarrow> u8 \<Rightarrow> shared_ring \<Rightarrow> shared_ring" where
  "store_net i b r = r\<lparr>net_buffer := (net_buffer r)[unat i := b]\<rparr>"

lemmas page_update_defs = set_char_rd_def set_char_wr_def set_char_flags_def set_net_wr_def
  store_char_def store_net_def

text \<open>The well-formed states of a byte ring and the bytes it holds, oldest first.\<close>

definition char_inv :: "shared_ring \<Rightarrow> bool" where
  "char_inv r \<longleftrightarrow>
     ring_ok TELEMETRY_RING_BUFFER_CAPACITY (char_rd r) (char_wr r) (char_buffer r)"

definition char_content :: "shared_ring \<Rightarrow> u8 list" where
  "char_content r =
     ring_content TELEMETRY_RING_BUFFER_CAPACITY (char_rd r) (char_wr r) (char_buffer r)"

definition net_inv :: "shared_ring \<Rightarrow> bool" where
  "net_inv r \<longleftrightarrow>
     ring_ok TELEMETRY_NETFILTER_RING_BUFFER_CAPACITY (net_rd r) (net_wr r) (net_buffer r)"

definition net_content :: "shared_ring \<Rightarrow> u8 list" where
  "net_content r =
     ring_content TELEMETRY_NETFILTER_RING_BUFFER_CAPACITY (net_rd r) (net_wr r) (net_buffer r)"

lemmas char_ring_defs = char_inv_def char_content_def char_next_def
lemmas net_ring_defs = net_inv_def net_content_def net_next_def

lemma char_inv_zeroed [simp]: "char_inv zeroed_page"
  by (simp add: char_inv_def zeroed_page_def zero_lane_def ring_ok_def layout_simps)

lemma net_inv_zeroed [simp]: "net_inv zeroed_page"
  by (simp add: net_inv_def zeroed_page_def ring_ok_def layout_simps)

lemma char_content_zeroed [simp]: "char_content zeroed_page = []"
  by (simp add: char_content_def zeroed_page_def zero_lane_def ring_content_def ring_count_def
      layout_simps)

text \<open>One byte in, one byte out.\<close>

definition char_put :: "u8 \<Rightarrow> shared_ring \<Rightarrow> shared_ring option" where
  "char_put b r = (if char_next (char_wr r) = char_rd r then None
     else Some (set_char_wr (char_next (char_wr r)) (store_char (char_wr r) b r)))"

definition char_get :: "shared_ring \<Rightarrow> (u8 \<times> shared_ring) option" where
  "char_get r = (if char_rd r = char_wr r then None
     else Some (char_buffer r ! unat (char_rd r), set_char_rd (char_next (char_rd r)) r))"

definition net_put :: "u8 \<Rightarrow> shared_ring \<Rightarrow> shared_ring option" where
  "net_put b r = (if net_next (net_wr r) = net_rd r then None
     else Some (set_net_wr (net_next (net_wr r)) (store_net (net_wr r) b r)))"

text \<open>Both rings keep the contract of a bounded queue: one slot always stays free.\<close>

interpretation char_fifo: bounded_fifo char_inv char_content "TELEMETRY_RING_BUFFER_CAPACITY - 1"
  char_put char_get
proof unfold_locales
  fix r :: shared_ring and x y :: u8 and xs
  note [simp] = char_ring_defs page_update_defs char_put_def char_get_def
  assume inv: "char_inv r"
  then have ok: "ring_ok TELEMETRY_RING_BUFFER_CAPACITY (char_rd r) (char_wr r) (char_buffer r)"
    by simp
  show "length (char_content r) \<le> TELEMETRY_RING_BUFFER_CAPACITY - 1"
    using ring_count_less [of TELEMETRY_RING_BUFFER_CAPACITY "char_rd r" "char_wr r"]
    by (simp add: layout_simps)
  show "char_put x r = None" if "length (char_content r) = TELEMETRY_RING_BUFFER_CAPACITY - 1"
    using that ring_full_iff [OF ok] by simp
  show "\<exists>r'. char_put x r = Some r' \<and> char_inv r' \<and> char_content r' = char_content r @ [x]"
    if "length (char_content r) < TELEMETRY_RING_BUFFER_CAPACITY - 1"
    using that ring_full_iff [OF ok] ring_content_put [OF ok] ring_ok_put [OF ok] by simp
  show "char_get r = None" if "char_content r = []"
    using that ring_content_nil_iff [OF ok] by simp
  show "\<exists>r'. char_get r = Some (y, r') \<and> char_inv r' \<and> char_content r' = xs"
    if "char_content r = y # xs"
    using that ring_content_nil_iff [OF ok] ring_content_get [OF ok] ring_ok_get [OF ok] by auto
qed

interpretation net_fifo: bounded_buffer net_inv net_content
  "TELEMETRY_NETFILTER_RING_BUFFER_CAPACITY - 1" net_put
proof unfold_locales
  fix r :: shared_ring and x :: u8
  note [simp] = net_ring_defs page_update_defs net_put_def
  assume inv: "net_inv r"
  then have ok: "ring_ok TELEMETRY_NETFILTER_RING_BUFFER_CAPACITY (net_rd r) (net_wr r)
      (net_buffer r)"
    by simp
  show "length (net_content r) \<le> TELEMETRY_NETFILTER_RING_BUFFER_CAPACITY - 1"
    using ring_count_less [of TELEMETRY_NETFILTER_RING_BUFFER_CAPACITY "net_rd r" "net_wr r"]
    by (simp add: layout_simps)
  show "net_put x r = None"
    if "length (net_content r) = TELEMETRY_NETFILTER_RING_BUFFER_CAPACITY - 1"
    using that ring_full_iff [OF ok] by simp
  show "\<exists>r'. net_put x r = Some r' \<and> net_inv r' \<and> net_content r' = net_content r @ [x]"
    if "length (net_content r) < TELEMETRY_NETFILTER_RING_BUFFER_CAPACITY - 1"
    using that ring_full_iff [OF ok] ring_content_put [OF ok] ring_ok_put [OF ok] by simp
qed


section \<open>Reading: dev_open, dev_read\<close>

definition dev_open :: "shared_ring \<Rightarrow> int \<times> shared_ring" where
  "dev_open r = (0, r)"

text \<open>
  \<open>dev_read filep buffer len offset\<close>. The user buffer is the predicate \<open>ok\<close>:
  whether \<open>put_user\<close> can write byte number \<open>i\<close> of it. The result is the return
  value, whether the writers' wait queue was woken, the page, and the bytes that arrived in
  the user buffer. The parameters of the loop are the locals: the remaining \<open>len\<close>,
  \<open>bytes_read\<close> (which is also how far \<open>buffer\<close> has advanced) and
  \<open>data_ready\<close>.
\<close>

type_synonym read_result = "(errno + nat) \<times> bool \<times> shared_ring \<times> u8 list"

fun dev_read_loop ::
  "(nat \<Rightarrow> bool) \<Rightarrow> nat \<Rightarrow> nat \<Rightarrow> bool \<Rightarrow> shared_ring \<Rightarrow> u8 list \<Rightarrow> read_result outcome" where
  "dev_read_loop ok 0 bytes_read data_ready r out =
     Return (Inr bytes_read, data_ready, r, out)"
| "dev_read_loop ok (Suc len) bytes_read data_ready r out =
     (let snapshot_write_index = char_wr r in
      if char_rd r = snapshot_write_index
      then Return (Inr bytes_read, data_ready, r, out)
      else if length (char_buffer r) \<le> unat (char_rd r) then OutOfBounds
      else if \<not> ok bytes_read then Return (Inl EFAULT, False, r, out)
      else dev_read_loop ok len (bytes_read + 1) True
        (set_char_rd (char_next (char_rd r)) r) (out @ [char_buffer r ! unat (char_rd r)]))"

definition dev_read :: "(nat \<Rightarrow> bool) \<Rightarrow> nat \<Rightarrow> shared_ring \<Rightarrow> read_result outcome" where
  "dev_read ok len r = dev_read_loop ok len 0 False r []"

section \<open>Pushing packet metrics byte by byte\<close>

fun char_push_loop :: "u8 list \<Rightarrow> shared_ring \<Rightarrow> ((errno + unit) \<times> shared_ring) outcome" where
  "char_push_loop [] r = Return (Inr (), r)"
| "char_push_loop (b # bs) r =
     (let next_write = char_next (char_wr r) in
      if next_write = char_rd r then Return (Inl ENOSPC, r)
      else if length (char_buffer r) \<le> unat (char_wr r) then OutOfBounds
      else char_push_loop bs (set_char_wr next_write (store_char (char_wr r) b r)))"

definition telemetry_shared_char_dev_push_metric ::
  "net_packet_metric option \<Rightarrow> shared_ring option
   \<Rightarrow> ((errno + unit) \<times> shared_ring option) outcome" where
  "telemetry_shared_char_dev_push_metric metric ring_ptr =
     (case (metric, ring_ptr) of
        (Some m, Some r) \<Rightarrow>
          (case char_push_loop (take sizeof_net_packet_metric (metric_bytes m)) r of
             Return (ret, r') \<Rightarrow> Return (ret, Some r')
           | OutOfBounds \<Rightarrow> OutOfBounds | DivideByZero \<Rightarrow> DivideByZero)
      | _ \<Rightarrow> Return (Inl ENODEV, ring_ptr))"

fun net_push_loop :: "u8 list \<Rightarrow> shared_ring \<Rightarrow> ((errno + unit) \<times> shared_ring) outcome" where
  "net_push_loop [] r = Return (Inr (), r)"
| "net_push_loop (b # bs) r =
     (let next_write = net_next (net_wr r) in
      if next_write = net_rd r then Return (Inl ENOSPC, r)
      else if length (net_buffer r) \<le> unat (net_wr r) then OutOfBounds
      else net_push_loop bs (set_net_wr next_write (store_net (net_wr r) b r)))"

definition telemetry_net_dev_push_metric ::
  "net_packet_metric option \<Rightarrow> shared_ring option
   \<Rightarrow> ((errno + unit) \<times> shared_ring option) outcome" where
  "telemetry_net_dev_push_metric metric ring_ptr =
     (case (metric, ring_ptr) of
        (Some m, Some r) \<Rightarrow>
          (case net_push_loop (take sizeof_net_packet_metric (metric_bytes m)) r of
             Return (ret, r') \<Rightarrow> Return (ret, Some r')
           | OutOfBounds \<Rightarrow> OutOfBounds | DivideByZero \<Rightarrow> DivideByZero)
      | _ \<Rightarrow> Return (Inl ENODEV, ring_ptr))"

section \<open>The loops are the loops of the queue\<close>

lemma char_inv_bounds:
  assumes "char_inv r"
  shows "unat (char_rd r) < length (char_buffer r)" "unat (char_wr r) < length (char_buffer r)"
  using assms by (auto simp: char_inv_def ring_ok_def)

lemma net_inv_bounds: "net_inv r \<Longrightarrow> unat (net_wr r) < length (net_buffer r)"
  by (auto simp: net_inv_def ring_ok_def)

lemma char_inv_get:
  "char_inv r \<Longrightarrow> char_inv (set_char_rd (char_next (char_rd r)) r)"
  by (simp add: char_inv_def char_next_def set_char_rd_def ring_ok_get)

lemma char_inv_put:
  "char_inv r \<Longrightarrow> char_inv (set_char_wr (char_next (char_wr r)) (store_char i b r))"
  by (simp add: char_inv_def char_next_def page_update_defs ring_ok_put)

lemma net_inv_put:
  "net_inv r \<Longrightarrow> net_inv (set_net_wr (net_next (net_wr r)) (store_net i b r))"
  by (simp add: net_inv_def net_next_def page_update_defs ring_ok_put)

lemma dev_read_loop_get_upto:
  assumes "char_inv r" "\<forall>i \<in> {n..<n + len}. ok i"
  shows "dev_read_loop ok len n ready r out = (case get_upto char_get len r of
    (xs, r') \<Rightarrow> Return (Inr (n + length xs), ready \<or> xs \<noteq> [], r', out @ xs))"
  using assms
proof (induction len arbitrary: n ready r out)
  case 0
  then show ?case by simp
next
  case (Suc len)
  show ?case
  proof (cases "char_rd r = char_wr r")
    case True
    then show ?thesis by (simp add: char_get_def)
  next
    case False
    have "ok n" "\<forall>i \<in> {n + 1..<n + 1 + len}. ok i" using Suc.prems(2) by auto
    then show ?thesis
      using False Suc.IH [OF char_inv_get [OF Suc.prems(1)], of "n + 1"]
        char_inv_bounds [OF Suc.prems(1)]
      by (simp add: char_get_def split: prod.splits)
  qed
qed

text \<open>The first byte of the user buffer that cannot be written ends the call.\<close>

lemma dev_read_loop_fault:
  assumes "char_inv r" "\<forall>i \<in> {n..<n + j}. ok i" "\<not> ok (n + j)"
    and "j < len" "j < length (char_content r)"
  shows "dev_read_loop ok len n ready r out = (case get_upto char_get j r of
    (xs, r') \<Rightarrow> Return (Inl EFAULT, False, r', out @ xs))"
  using assms
proof (induction j arbitrary: n len ready r out)
  case 0
  have "char_content r \<noteq> []" using "0.prems"(5) by auto
  then have "char_rd r \<noteq> char_wr r"
    using "0.prems"(1) ring_content_nil_iff by (auto simp: char_ring_defs)
  then show ?case
    using "0.prems" char_inv_bounds [OF "0.prems"(1)] by (cases len) auto
next
  case (Suc j)
  then obtain x xs where x: "char_content r = x # xs" by (cases "char_content r") auto
  then obtain r' where r': "char_get r = Some (x, r')" "char_inv r'" "char_content r' = xs"
    using char_fifo.get_cons [OF Suc.prems(1)] by blast
  have get: "char_rd r \<noteq> char_wr r" "x = char_buffer r ! unat (char_rd r)"
    "r' = set_char_rd (char_next (char_rd r)) r"
    using r'(1) by (auto simp: char_get_def split: if_splits)
  obtain l where l: "len = Suc l" using Suc.prems(4) by (cases len) auto
  have ok: "ok n" "\<forall>i \<in> {n + 1..<n + 1 + j}. ok i" "\<not> ok (n + 1 + j)"
    using Suc.prems(2,3) by auto
  have "dev_read_loop ok l (n + 1) True r' (out @ [x]) = (case get_upto char_get j r' of
      (ys, t) \<Rightarrow> Return (Inl EFAULT, False, t, (out @ [x]) @ ys))"
    by (rule Suc.IH) (use r' ok Suc.prems(4,5) x l in auto)
  then show ?case
    using get ok(1) l r'(1) char_inv_bounds [OF Suc.prems(1)] by (simp split: prod.splits)
qed

lemma char_push_loop_put_all:
  assumes "char_inv r"
  shows "char_push_loop bs r = (case put_all char_put bs r of
    (ok, r') \<Rightarrow> Return (if ok then Inr () else Inl ENOSPC, r'))"
  using assms
proof (induction bs arbitrary: r)
  case Nil
  then show ?case by simp
next
  case (Cons b bs)
  then show ?case
    using char_inv_bounds [OF Cons.prems] char_inv_put [OF Cons.prems]
    by (auto simp: char_put_def Let_def)
qed

lemma net_push_loop_put_all:
  assumes "net_inv r"
  shows "net_push_loop bs r = (case put_all net_put bs r of
    (ok, r') \<Rightarrow> Return (if ok then Inr () else Inl ENOSPC, r'))"
  using assms
proof (induction bs arbitrary: r)
  case Nil
  then show ?case by simp
next
  case (Cons b bs)
  then show ?case
    using net_inv_bounds [OF Cons.prems] net_inv_put [OF Cons.prems]
    by (auto simp: net_put_def Let_def)
qed

text \<open>
  Whatever the user buffer accepts: the read returns, and the bytes it delivered followed by
  the bytes it left are the bytes that were there.
\<close>

lemma dev_read_loop_stream:
  assumes "char_inv r"
  shows "\<exists>ret woke r' xs. dev_read_loop ok len n ready r out = Return (ret, woke, r', out @ xs)
    \<and> char_inv r' \<and> xs @ char_content r' = char_content r \<and> r' = set_char_rd (char_rd r') r"
  using assms
proof (induction len arbitrary: n ready r out)
  case 0
  then show ?case by (simp add: set_char_rd_def)
next
  case (Suc len)
  show ?case
  proof (cases "char_rd r \<noteq> char_wr r \<and> ok n")
    case False
    moreover have "r = set_char_rd (char_rd r) r" by (simp add: set_char_rd_def)
    ultimately show ?thesis using Suc.prems char_inv_bounds [OF Suc.prems] by auto
  next
    case True
    let ?x = "char_buffer r ! unat (char_rd r)"
    let ?r = "set_char_rd (char_next (char_rd r)) r"
    have "char_get r = Some (?x, ?r)" using True by (simp add: char_get_def)
    then have r': "char_inv ?r" "char_content r = ?x # char_content ?r"
      using char_fifo.get_SomeD [OF Suc.prems] by auto
    obtain ret woke t xs where
      "dev_read_loop ok len (n + 1) True ?r (out @ [?x]) = Return (ret, woke, t, (out @ [?x]) @ xs)"
      "char_inv t" "xs @ char_content t = char_content ?r" "t = set_char_rd (char_rd t) ?r"
      using Suc.IH [OF r'(1)] by blast
    moreover have "set_char_rd i ?r = set_char_rd i r" for i by (simp add: set_char_rd_def)
    ultimately show ?thesis
      using True r'(2) char_inv_bounds [OF Suc.prems] by auto
  qed
qed

lemma dev_read_stream:
  assumes "char_inv r"
  shows "\<exists>ret woke r' xs. dev_read ok len r = Return (ret, woke, r', xs)
    \<and> char_inv r' \<and> xs @ char_content r' = char_content r \<and> r' = set_char_rd (char_rd r') r"
  using dev_read_loop_stream [OF assms, of ok len 0 False "[]"] by (simp add: dev_read_def)

text \<open>What a read leaves alone: everything but the read index.\<close>

lemma get_upto_frame:
  "get_upto char_get n r = (xs, t) \<Longrightarrow> t = set_char_rd (char_rd t) r"
proof (induction n arbitrary: r xs)
  case 0
  then show ?case by (simp add: set_char_rd_def)
next
  case (Suc n)
  show ?case
  proof (cases "char_rd r = char_wr r")
    case True
    then show ?thesis using Suc.prems by (simp add: char_get_def set_char_rd_def)
  next
    case False
    let ?r = "set_char_rd (char_next (char_rd r)) r"
    obtain ys where "get_upto char_get n ?r = (ys, t)"
      using Suc.prems False by (auto simp: char_get_def [of r] split: prod.splits)
    then have "t = set_char_rd (char_rd t) ?r" by (rule Suc.IH)
    then show ?thesis by (simp add: set_char_rd_def)
  qed
qed


section \<open>Properties of the byte streams\<close>

text \<open>A page whose character ring holds the two bytes \<open>65 66\<close>, for the examples.\<close>

definition two_byte_page :: shared_ring where
  "two_byte_page = set_char_wr 2 (store_char 1 66 (store_char 0 65 zeroed_page))"

lemma two_byte_page:
  "char_inv two_byte_page" "char_content two_byte_page = [65, 66]"
  by (simp_all add: two_byte_page_def char_inv_def char_content_def page_update_defs
      zeroed_page_def zero_lane_def ring_ok_def ring_content_def ring_count_def layout_simps
      upt_rec nth_list_update)

text \<open>A read into a writable buffer takes the oldest bytes.\<close>

lemma dev_read_oldest:
  assumes inv: "char_inv r" and ok: "\<forall>i<len. ok i"
  shows "\<exists>r'. dev_read ok len r = Return (Inr (length (take len (char_content r))),
      take len (char_content r) \<noteq> [], r', take len (char_content r))
    \<and> char_inv r' \<and> char_content r' = drop len (char_content r) \<and> r' = set_char_rd (char_rd r') r"
proof -
  obtain xs t where get: "get_upto char_get len r = (xs, t)" by fastforce
  have "char_inv t \<and> xs = take len (char_content r) \<and> char_content t = drop len (char_content r)"
    by (rule char_fifo.get_upto_spec [OF inv get])
  moreover have "dev_read ok len r = Return (Inr (length xs), xs \<noteq> [], t, xs)"
    unfolding dev_read_def
    by (subst dev_read_loop_get_upto [OF inv]) (use ok get in auto)
  ultimately show ?thesis using get_upto_frame [OF get] by auto
qed

text \<open>
  A fault at byte \<open>j\<close> of the user buffer ends the read with \<open>EFAULT\<close>: the
  \<open>j\<close> bytes before it have left the ring, yet the caller gets no count for them, and the
  wait queue is not woken although room appeared.
\<close>

theorem dev_read_fault:
  assumes inv: "char_inv r" and ok: "\<forall>i<j. ok i" "\<not> ok j"
    and j: "j < len" "j < length (char_content r)"
  shows "\<exists>r'. dev_read ok len r = Return (Inl EFAULT, False, r', take j (char_content r))
    \<and> char_inv r' \<and> char_content r' = drop j (char_content r)"
proof -
  obtain xs t where get: "get_upto char_get j r = (xs, t)" by fastforce
  have "char_inv t \<and> xs = take j (char_content r) \<and> char_content t = drop j (char_content r)"
    by (rule char_fifo.get_upto_spec [OF inv get])
  moreover have "dev_read ok len r = Return (Inl EFAULT, False, t, xs)"
    unfolding dev_read_def
    by (subst dev_read_loop_fault [OF inv, where j = j]) (use ok j get in auto)
  ultimately show ?thesis by auto
qed

theorem dev_read_fault_witness:
  "\<exists>r'. dev_read (\<lambda>i. i < 1) 4 two_byte_page = Return (Inl EFAULT, False, r', [65])
    \<and> char_content r' = [66]"
  using dev_read_fault [OF two_byte_page(1), of 1 "\<lambda>i. i < 1" 4] by (auto simp: two_byte_page)

text \<open>
  C10. A read of a well-formed ring into a writable buffer returns the oldest
  \<open>min len (number of buffered bytes)\<close> bytes in order, removes exactly those, changes
  nothing of the page but the read index, and wakes the sleeping writers exactly if it
  removed something. In particular it returns 0 on an empty ring and never blocks. If the buffer
  is writable up to byte \<open>j\<close> only, and there are more bytes to read, it returns \<open>EFAULT\<close>: the
  oldest \<open>j\<close> bytes have left the ring all the same, and nobody is woken.
\<close>

theorem dev_read_fifo:
  assumes inv: "char_inv r"
  shows "((\<forall>i<len. ok i) \<longrightarrow> (\<exists>r'. dev_read ok len r =
        Return (Inr (min len (length (char_content r))), 0 < min len (length (char_content r)),
          r', take len (char_content r))
      \<and> char_inv r' \<and> char_content r' = drop len (char_content r)
      \<and> r' = set_char_rd (char_rd r') r))
    \<and> (\<forall>j<min len (length (char_content r)). (\<forall>i<j. ok i) \<and> \<not> ok j \<longrightarrow>
        (\<exists>r'. dev_read ok len r = Return (Inl EFAULT, False, r', take j (char_content r))
          \<and> char_inv r' \<and> char_content r' = drop j (char_content r)))"
proof (intro conjI impI allI)
  assume ok: "\<forall>i<len. ok i"
  have "(take len (char_content r) \<noteq> []) = (0 < min len (length (char_content r)))" by auto
  then show "\<exists>r'. dev_read ok len r =
        Return (Inr (min len (length (char_content r))), 0 < min len (length (char_content r)),
          r', take len (char_content r))
      \<and> char_inv r' \<and> char_content r' = drop len (char_content r)
      \<and> r' = set_char_rd (char_rd r') r"
    using dev_read_oldest [OF inv ok] by (simp add: min.commute)
next
  fix j assume "j < min len (length (char_content r))" "(\<forall>i<j. ok i) \<and> \<not> ok j"
  then show "\<exists>r'. dev_read ok len r = Return (Inl EFAULT, False, r', take j (char_content r))
      \<and> char_inv r' \<and> char_content r' = drop j (char_content r)"
    using dev_read_fault [OF inv, of j ok len] by simp
qed

theorem dev_read_fifo_witness:
  "(\<exists>r'. dev_read (\<lambda>_. True) 4 two_byte_page = Return (Inr 2, True, r', [65, 66]))
   \<and> (\<exists>r'. dev_read (\<lambda>i. i < 1) 4 two_byte_page = Return (Inl EFAULT, False, r', [65]))"
  using dev_read_fifo [OF two_byte_page(1), of 4 "\<lambda>_. True"]
    dev_read_fifo [OF two_byte_page(1), of 4 "\<lambda>i. i < 1", THEN conjunct2, rule_format, of 1]
  by (auto simp: two_byte_page)

text \<open>
  The read loop checks no index: with a read index below the capacity it stays inside the
  buffer, and with one at or above it the first access is outside.
\<close>

lemma dev_read_loop_in_bounds:
  assumes "unat (char_rd r) < TELEMETRY_RING_BUFFER_CAPACITY" "page_ok r"
  shows "dev_read_loop ok len n ready r out \<noteq> OutOfBounds"
  using assms
proof (induction len arbitrary: n ready r out)
  case 0
  then show ?case by simp
next
  case (Suc len)
  let ?r = "set_char_rd (char_next (char_rd r)) r"
  have "unat (char_rd ?r) < TELEMETRY_RING_BUFFER_CAPACITY" "page_ok ?r"
    using Suc.prems by (auto simp: set_char_rd_def char_next_def ring_next_less page_ok_def
        capacity_defs)
  from Suc.IH [OF this] show ?case
    using Suc.prems by (auto simp: Let_def page_ok_def)
qed

text \<open>
  C38. User space maps the page writable, so the indices are user input. A read accesses
  memory outside the character buffer exactly if the read index is 1024 or more and differs
  from the write index: nothing between the mapping and the access checks it.
\<close>

theorem dev_read_out_of_bounds_iff:
  assumes "page_ok r"
  shows "(dev_read ok len r = OutOfBounds) =
    (0 < len \<and> char_rd r \<noteq> char_wr r \<and> TELEMETRY_RING_BUFFER_CAPACITY \<le> unat (char_rd r))"
proof (cases "unat (char_rd r) < TELEMETRY_RING_BUFFER_CAPACITY")
  case True
  then show ?thesis
    using dev_read_loop_in_bounds [OF True assms] by (simp add: dev_read_def)
next
  case False
  then show ?thesis
    using assms by (cases len) (auto simp: dev_read_def page_ok_def)
qed

theorem dev_read_out_of_bounds_witness:
  "dev_read (\<lambda>_. True) 1 (set_char_rd 5000 zeroed_page) = OutOfBounds"
proof -
  have "page_ok (set_char_rd 5000 zeroed_page)"
    by (simp add: page_ok_def set_char_rd_def zeroed_page_def)
  from dev_read_out_of_bounds_iff [OF this, of "\<lambda>_. True" 1] show ?thesis
    by (simp add: set_char_rd_def zeroed_page_def zero_lane_def layout_simps)
qed

text \<open>
  Pushing a metric into the character ring stores its 16 bytes if there is room for
  them and returns 0. If not, it returns \<open>ENOSPC\<close> but the bytes that fitted are
  published all the same: a reader finds a truncated metric in the stream.
\<close>

theorem char_push_metric:
  assumes inv: "char_inv r"
  defines "free \<equiv> TELEMETRY_RING_BUFFER_CAPACITY - 1 - length (char_content r)"
  shows "\<exists>r'. telemetry_shared_char_dev_push_metric (Some m) (Some r) =
      Return (if 16 \<le> free then Inr () else Inl ENOSPC, Some r')
    \<and> char_inv r' \<and> char_content r' = char_content r @ take free (metric_bytes m)"
proof -
  obtain ok t where put: "put_all char_put (metric_bytes m) r = (ok, t)" by fastforce
  have "char_inv t \<and> char_content t = char_content r @ take free (metric_bytes m) \<and> ok = (16 \<le> free)"
    using char_fifo.put_all_spec [OF inv put] by (simp add: free_def)
  then show ?thesis
    using char_push_loop_put_all [OF inv] put
    by (auto simp: telemetry_shared_char_dev_push_metric_def layout_simps)
qed

theorem char_push_metric_witness:
  "\<exists>r'. telemetry_shared_char_dev_push_metric
       (Some \<lparr>src_ip = 1, dest_ip = 2, src_port = 3, dest_port = 4, pkt_len = 5\<rparr>)
       (Some (set_char_rd 6 zeroed_page)) = Return (Inl ENOSPC, Some r')
     \<and> char_content r' = char_content (set_char_rd 6 zeroed_page) @ [1, 0, 0, 0, 2]"
proof -
  let ?r = "set_char_rd 6 zeroed_page"
  have inv: "char_inv ?r"
    by (simp add: char_inv_def page_update_defs zeroed_page_def zero_lane_def ring_ok_def
        layout_simps)
  have len: "length (char_content ?r) = 1018"
    by (simp add: char_content_def page_update_defs zeroed_page_def zero_lane_def
        ring_count_def layout_simps)
  show ?thesis
    using char_push_metric [OF inv,
        of "\<lparr>src_ip = 1, dest_ip = 2, src_port = 3, dest_port = 4, pkt_len = 5\<rparr>"]
    unfolding len
    by (auto simp: layout_simps metric_bytes_def le_bytes_def upt_rec)
qed

text \<open>
  The byte-wise push into the network buffer behaves the same over its 768-byte ring. It
  never overwrites: a full ring refuses the metric, and a nearly full one keeps a truncated
  copy.
\<close>

theorem net_push_metric:
  assumes inv: "net_inv r"
  defines "free \<equiv> TELEMETRY_NETFILTER_RING_BUFFER_CAPACITY - 1 - length (net_content r)"
  shows "\<exists>r'. telemetry_net_dev_push_metric (Some m) (Some r) =
      Return (if 16 \<le> free then Inr () else Inl ENOSPC, Some r')
    \<and> net_inv r' \<and> net_content r' = net_content r @ take free (metric_bytes m)"
proof -
  obtain ok t where put: "put_all net_put (metric_bytes m) r = (ok, t)" by fastforce
  have "net_inv t \<and> net_content t = net_content r @ take free (metric_bytes m) \<and> ok = (16 \<le> free)"
    using net_fifo.put_all_spec [OF inv put] by (simp add: free_def)
  then show ?thesis
    using net_push_loop_put_all [OF inv] put
    by (auto simp: telemetry_net_dev_push_metric_def layout_simps)
qed

theorem net_push_metric_witness:
  "\<exists>r'. telemetry_net_dev_push_metric
       (Some \<lparr>src_ip = 1, dest_ip = 2, src_port = 3, dest_port = 4, pkt_len = 5\<rparr>)
       (Some zeroed_page) = Return (Inr (), Some r')
     \<and> net_content r' = [1, 0, 0, 0, 2, 0, 0, 0, 3, 0, 4, 0, 5, 0, 0, 0]"
proof -
  have "net_content zeroed_page = []"
    by (simp add: net_content_def zeroed_page_def ring_content_def ring_count_def layout_simps)
  then show ?thesis
    using net_push_metric [OF net_inv_zeroed,
        of "\<lparr>src_ip = 1, dest_ip = 2, src_port = 3, dest_port = 4, pkt_len = 5\<rparr>"]
    by (auto simp: layout_simps metric_bytes_def le_bytes_def upt_rec)
qed

end
