(* ===== verification/Base.thy ===== *)
theory Base
  imports CharDev
begin

text \<open>
  \<open>kernel/telemetry_base.c\<close>: loading and unloading of the core module, the routing of
  an open file by minor number, the memory mapping of the page and the wake-up command. The
  results of the kernel services the module calls are the fields of a record the definitions
  take as an argument; what the module has acquired and not yet released is the state.
\<close>

section \<open>State and kernel services\<close>

text \<open>
  The globals and the kernel-side objects of the module: the pointer \<open>ring_ptr\<close> (NULL is
  \<open>None\<close>), whether the page it was set to is still allocated, the registered region (its
  major number), the character device, the class, and the device nodes by minor number.
\<close>

record base_state =
  ring_ptr :: "shared_ring option"
  page_live :: bool
  region :: "nat option"
  cdev_live :: bool
  class_live :: bool
  nodes :: "nat list"

definition base_unloaded :: base_state where
  "base_unloaded = \<lparr>ring_ptr = None, page_live = False, region = None, cdev_live = False,
     class_live = False, nodes = []\<rparr>"

text \<open>What the kernel services answer during one initialisation.\<close>

record base_services =
  zeroed_page_ok :: bool          \<comment> \<open>\<open>get_zeroed_page\<close> returned a page\<close>
  alloc_region_ret :: int         \<comment> \<open>return value of \<open>alloc_chrdev_region\<close>\<close>
  region_major :: nat             \<comment> \<open>the major number it assigned\<close>
  cdev_add_ret :: int             \<comment> \<open>return value of \<open>cdev_add\<close>\<close>
  class_create_err :: "int option" \<comment> \<open>the error \<open>class_create\<close> encoded, if any\<close>
  device_create_ok :: "nat \<Rightarrow> bool" \<comment> \<open>whether \<open>device_create\<close> made the node\<close>

section \<open>Loading and unloading\<close>

definition device_create :: "base_services \<Rightarrow> nat \<Rightarrow> base_state \<Rightarrow> base_state" where
  "device_create k minor s =
     (if device_create_ok k minor then s\<lparr>nodes := nodes s @ [minor]\<rparr> else s)"

definition device_destroy :: "nat \<Rightarrow> base_state \<Rightarrow> base_state" where
  "device_destroy minor s = s\<lparr>nodes := filter (\<lambda>m. m \<noteq> minor) (nodes s)\<rparr>"

definition telemetry_base_init :: "base_services \<Rightarrow> base_state \<Rightarrow> (errno + unit) \<times> base_state" where
  "telemetry_base_init k s0 =
    (if \<not> zeroed_page_ok k then (Inl ENOMEM, s0\<lparr>ring_ptr := None\<rparr>)
     else let s1 = s0\<lparr>ring_ptr := Some zeroed_page, page_live := True\<rparr> in
     if alloc_region_ret k < 0
     then (Inl (EKernel (alloc_region_ret k)), s1\<lparr>page_live := False\<rparr>)
     else let s2 = s1\<lparr>region := Some (region_major k)\<rparr> in
     if cdev_add_ret k < 0
     then (Inl (EKernel (cdev_add_ret k)), s2\<lparr>region := None, page_live := False\<rparr>)
     else let s3 = s2\<lparr>cdev_live := True\<rparr> in
     case class_create_err k of
       Some e \<Rightarrow> (Inl (EKernel e),
         s3\<lparr>cdev_live := False, region := None, page_live := False\<rparr>)
     | None \<Rightarrow>
         (Inr (),
          device_create k MINOR_TELEMETRY_CPU
           (device_create k MINOR_TELEMETRY_MEM
            (device_create k MINOR_TELEMETRY_BLOCK
             (device_create k MINOR_TELEMETRY_NET
              (device_create k MINOR_TELEMETRY_CHAR
               (device_create k MINOR_TELEMETRY_MMAP (s3\<lparr>class_live := True\<rparr>))))))))"

definition telemetry_base_exit :: "base_state \<Rightarrow> base_state" where
  "telemetry_base_exit s0 =
    (let s1 = device_destroy MINOR_TELEMETRY_CPU
           (device_destroy MINOR_TELEMETRY_MEM
            (device_destroy MINOR_TELEMETRY_BLOCK
             (device_destroy MINOR_TELEMETRY_NET
              (device_destroy MINOR_TELEMETRY_CHAR
               (device_destroy MINOR_TELEMETRY_MMAP s0)))));
         s2 = s1\<lparr>class_live := False, cdev_live := False, region := None\<rparr>
     in if ring_ptr s2 \<noteq> None then s2\<lparr>page_live := False\<rparr> else s2)"

text \<open>Nothing of the module is left in the kernel.\<close>

definition all_released :: "base_state \<Rightarrow> bool" where
  "all_released s \<longleftrightarrow> \<not> page_live s \<and> region s = None \<and> \<not> cdev_live s \<and> \<not> class_live s
     \<and> nodes s = []"

section \<open>Routing by minor number\<close>

text \<open>The operation tables of the file, and which operations each of them offers.\<close>

datatype fops = Master_fops | Mmap_fops | Char_fops | Net_fops

datatype file_op = Op_open | Op_read | Op_write | Op_mmap | Op_ioctl

fun fops_offers :: "fops \<Rightarrow> file_op \<Rightarrow> bool" where
  "fops_offers Mmap_fops x = (x = Op_open \<or> x = Op_mmap \<or> x = Op_ioctl)"
| "fops_offers Char_fops x = (x = Op_open \<or> x = Op_read \<or> x = Op_write)"
| "fops_offers Net_fops x = (x = Op_read)"
| "fops_offers Master_fops x = (x = Op_open)"

definition telemetry_mmap_open :: int where
  "telemetry_mmap_open = 0"

text \<open>
  The open of the attached table is called if it has one. All of them return 0; that of the
  character device is \<open>dev_open\<close>.
\<close>

definition fops_open :: "fops \<Rightarrow> shared_ring \<Rightarrow> int" where
  "fops_open f r = (case f of Mmap_fops \<Rightarrow> telemetry_mmap_open | Char_fops \<Rightarrow> fst (dev_open r)
     | _ \<Rightarrow> 0)"

definition telemetry_master_open :: "nat \<Rightarrow> fops \<Rightarrow> shared_ring \<Rightarrow> (errno + int) \<times> fops" where
  "telemetry_master_open minor f_op r =
    (let attach = (\<lambda>f. (if fops_offers f Op_open then Inr (fops_open f r) else Inr 0, f))
     in if minor = MINOR_TELEMETRY_MMAP then attach Mmap_fops
        else if minor = MINOR_TELEMETRY_CHAR then attach Char_fops
        else if minor = MINOR_TELEMETRY_NET then attach Net_fops
        else (Inl ENXIO, f_op))"

section \<open>Mapping the page and waking the writer\<close>

record 'p vm_area =
  vm_start :: u64
  vm_end :: u64
  vm_page_prot :: 'p

text \<open>
  The mapping call: \<open>pgprot_noncached\<close> and the result of \<open>remap_pfn_range\<close> are
  arguments. A mapping that was made is described by its start, its page frame and its size.
\<close>

definition telemetry_mmap_io ::
  "('p \<Rightarrow> 'p) \<Rightarrow> u64 \<Rightarrow> bool \<Rightarrow> 'p vm_area
   \<Rightarrow> (errno + unit) \<times> 'p vm_area \<times> (u64 \<times> u64 \<times> u64) option" where
  "telemetry_mmap_io pgprot_noncached pfn remap_ok vma =
    (let sz = vm_end vma - vm_start vma in
     if of_nat PAGE_SIZE_4K < sz then (Inl EINVAL, vma, None)
     else let vma' = vma\<lparr>vm_page_prot := pgprot_noncached (vm_page_prot vma)\<rparr> in
     if \<not> remap_ok then (Inl EAGAIN, vma', None)
     else (Inr (), vma', Some (vm_start vma', pfn, sz)))"

text \<open>
  The command codes: \<open>_IO('t', 1)\<close> is the type byte \<open>'t'\<close> in bits 8 to 15 and
  the number in bits 0 to 7, with no size or direction bits. The second component says whether
  the writers' wait queue was woken.
\<close>

definition TELEMETRY_IOC_MAGIC :: u32 where "TELEMETRY_IOC_MAGIC = 116"

definition TELEMETRY_IOC_WAKE_WRITER :: u32 where
  "TELEMETRY_IOC_WAKE_WRITER = push_bit 8 TELEMETRY_IOC_MAGIC OR 1"

definition telemetry_mmap_ioctl :: "u32 \<Rightarrow> (errno + unit) \<times> bool" where
  "telemetry_mmap_ioctl cmd =
     (if cmd = TELEMETRY_IOC_WAKE_WRITER then (Inr (), True) else (Inl EINVAL, False))"

section \<open>Properties\<close>

text \<open>Creating and destroying a node touches the list of nodes only.\<close>

lemma device_create_fields [simp]:
  "nodes (device_create k m s) = nodes s @ filter (device_create_ok k) [m]"
  "ring_ptr (device_create k m s) = ring_ptr s"
  "page_live (device_create k m s) = page_live s"
  "region (device_create k m s) = region s"
  "cdev_live (device_create k m s) = cdev_live s"
  "class_live (device_create k m s) = class_live s"
  by (simp_all add: device_create_def)

lemma device_destroy_fields [simp]:
  "nodes (device_destroy m s) = filter (\<lambda>x. x \<noteq> m) (nodes s)"
  "ring_ptr (device_destroy m s) = ring_ptr s"
  "page_live (device_destroy m s) = page_live s"
  "region (device_destroy m s) = region s"
  "cdev_live (device_destroy m s) = cdev_live s"
  "class_live (device_destroy m s) = class_live s"
  by (simp_all add: device_destroy_def)

lemma all_minors: "[0..<TELEMETRY_MINORS] = [MINOR_TELEMETRY_MMAP] @ [MINOR_TELEMETRY_CHAR]
    @ [MINOR_TELEMETRY_NET] @ [MINOR_TELEMETRY_BLOCK] @ [MINOR_TELEMETRY_MEM] @ [MINOR_TELEMETRY_CPU]"
  by (simp add: TELEMETRY_MINORS_def minor_defs upt_rec)

lemma init_nodes:
  assumes "telemetry_base_init k base_unloaded = (Inr (), s)"
  shows "nodes s = filter (device_create_ok k) [0..<TELEMETRY_MINORS]"
  using assms unfolding all_minors filter_append
  by (auto simp: telemetry_base_init_def base_unloaded_def Let_def simp del: filter.simps
      split: if_split_asm option.split_asm)

lemma destroyed_nodes:
  "set (nodes s) \<subseteq> {0..<TELEMETRY_MINORS} \<Longrightarrow> nodes (telemetry_base_exit s) = []"
  by (auto simp: telemetry_base_exit_def Let_def minor_defs TELEMETRY_MINORS_def filter_empty_conv)

text \<open>
  C32. Loading is all or nothing: whichever step fails, everything acquired before it is
  released and the error of that step is returned; and if loading succeeds, the page is the
  zeroed page and the region, the device and the class are live.
\<close>

theorem base_init_all_or_nothing:
  assumes "telemetry_base_init k base_unloaded = (res, s)"
  shows "case res of
      Inl e \<Rightarrow> all_released s \<and>
        e = (if \<not> zeroed_page_ok k then ENOMEM
             else if alloc_region_ret k < 0 then EKernel (alloc_region_ret k)
             else if cdev_add_ret k < 0 then EKernel (cdev_add_ret k)
             else EKernel (the (class_create_err k)))
    | Inr _ \<Rightarrow> ring_ptr s = Some zeroed_page \<and> page_live s \<and> region s = Some (region_major k)
        \<and> cdev_live s \<and> class_live s \<and> nodes s = filter (device_create_ok k) [0..<TELEMETRY_MINORS]"
proof (cases res)
  case (Inl e)
  with assms show ?thesis
    by (auto simp: telemetry_base_init_def base_unloaded_def all_released_def Let_def
        split: if_split_asm option.split_asm)
next
  case (Inr u)
  with assms have s: "telemetry_base_init k base_unloaded = (Inr (), s)" by simp
  have "ring_ptr s = Some zeroed_page \<and> page_live s \<and> region s = Some (region_major k)
      \<and> cdev_live s \<and> class_live s"
    using s by (auto simp: telemetry_base_init_def Let_def split: if_split_asm option.split_asm)
  with Inr init_nodes [OF s] show ?thesis by simp
qed

theorem base_init_all_or_nothing_witness:
  "all_released (snd (telemetry_base_init
     \<lparr>zeroed_page_ok = True, alloc_region_ret = 0, region_major = 240, cdev_add_ret = 0,
      class_create_err = Some (-12), device_create_ok = (\<lambda>_. True)\<rparr> base_unloaded))"
proof -
  let ?k = "\<lparr>zeroed_page_ok = True, alloc_region_ret = 0, region_major = 240, cdev_add_ret = 0,
      class_create_err = Some (-12), device_create_ok = (\<lambda>_. True)\<rparr>"
  have "telemetry_base_init ?k base_unloaded
      = (Inl (EKernel (-12)), snd (telemetry_base_init ?k base_unloaded))"
    by (simp add: telemetry_base_init_def)
  from base_init_all_or_nothing [OF this] show ?thesis by simp
qed

text \<open>
  Unloading after a successful load releases everything that loading acquired, the device
  nodes included, whether or not all of them could be created.
\<close>

theorem base_exit_releases:
  assumes "telemetry_base_init k base_unloaded = (Inr (), s)"
  shows "all_released (telemetry_base_exit s)"
proof -
  have "set (nodes s) \<subseteq> {0..<TELEMETRY_MINORS}" using init_nodes [OF assms] by auto
  then have "nodes (telemetry_base_exit s) = []" by (rule destroyed_nodes)
  moreover have "ring_ptr s \<noteq> None"
    using assms by (auto simp: telemetry_base_init_def Let_def split: if_split_asm option.split_asm)
  ultimately show ?thesis by (simp add: all_released_def telemetry_base_exit_def Let_def)
qed

theorem base_exit_releases_witness:
  "all_released (telemetry_base_exit (snd (telemetry_base_init
     \<lparr>zeroed_page_ok = True, alloc_region_ret = 0, region_major = 240, cdev_add_ret = 0,
      class_create_err = None, device_create_ok = (\<lambda>m. m \<noteq> 4)\<rparr> base_unloaded)))"
proof -
  let ?k = "\<lparr>zeroed_page_ok = True, alloc_region_ret = 0, region_major = 240, cdev_add_ret = 0,
      class_create_err = None, device_create_ok = (\<lambda>m. m \<noteq> 4)\<rparr>"
  have "telemetry_base_init ?k base_unloaded = (Inr (), snd (telemetry_base_init ?k base_unloaded))"
    by (simp add: telemetry_base_init_def)
  from base_exit_releases [OF this] show ?thesis .
qed

text \<open>
  Opening a node attaches the operations of its tenant: the mapping and the wake-up
  command exist only on minor 0, reading only on minors 1 and 2, writing only on minor 1; the
  three minors whose nodes are created but that have no tenant yet are refused with
  \<open>ENXIO\<close> and keep the master table, which offers nothing but open.
\<close>

theorem master_open_routes:
  "telemetry_master_open minor Master_fops r = (res, f) \<Longrightarrow>
     (res = Inl ENXIO \<and> f = Master_fops) = (2 < minor)
     \<and> (res = Inr 0) = (minor \<le> 2)
     \<and> (fops_offers f Op_mmap \<and> fops_offers f Op_ioctl) = (minor = 0)
     \<and> fops_offers f Op_read = (minor = 1 \<or> minor = 2)
     \<and> fops_offers f Op_write = (minor = 1)"
  by (auto simp: telemetry_master_open_def minor_defs fops_open_def telemetry_mmap_open_def
      dev_open_def Let_def split: if_splits)

theorem master_open_routes_witness:
  "fst (telemetry_master_open 3 Master_fops zeroed_page) = Inl ENXIO
   \<and> fops_offers (snd (telemetry_master_open 1 Master_fops zeroed_page)) Op_write"
  using master_open_routes [of 3 zeroed_page "Inl ENXIO" Master_fops]
    master_open_routes [of 1 zeroed_page "Inr 0" Char_fops]
  by (simp add: telemetry_master_open_def minor_defs fops_open_def dev_open_def Let_def)

text \<open>
  A mapping never exceeds the page: a request longer than 4096 bytes is refused with
  \<open>EINVAL\<close> and leaves the area alone, and a mapping that is made starts where the area
  starts, covers the area and has at most 4096 bytes.
\<close>

theorem mmap_at_most_one_page:
  assumes "telemetry_mmap_io pn pfn remap_ok vma = (res, vma', m)"
  shows "(4096 < vm_end vma - vm_start vma) = (res = Inl EINVAL)
    \<and> (res = Inl EINVAL \<longrightarrow> vma' = vma)
    \<and> (\<forall>st f sz. m = Some (st, f, sz) \<longrightarrow>
        st = vm_start vma \<and> f = pfn \<and> sz = vm_end vma - vm_start vma \<and> sz \<le> 4096)
    \<and> (m \<noteq> None) = (res = Inr ())"
  using assms by (auto simp: telemetry_mmap_io_def Let_def layout_simps split: if_splits)

theorem mmap_at_most_one_page_witness:
  "fst (telemetry_mmap_io id 7 True \<lparr>vm_start = 0x10000, vm_end = 0x12000, vm_page_prot = ()\<rparr>)
     = Inl EINVAL"
proof -
  let ?v = "\<lparr>vm_start = 0x10000, vm_end = 0x12000, vm_page_prot = ()\<rparr>"
  obtain res vma' m where "telemetry_mmap_io id 7 True ?v = (res, vma', m)"
    by (cases "telemetry_mmap_io id 7 True ?v") auto
  with mmap_at_most_one_page [OF this] show ?thesis by simp
qed

end
