(* ===== verification/UserStream.thy ===== *)
theory UserStream
  imports Base
begin

text \<open>
  The consumers of the character stream in \<open>user/telemetry_user.c\<close>: one iteration of
  \<open>zero_copy_consumer\<close>, which drains the mapped ring without a system call and kicks a
  sleeping writer through the wake-up command, and one iteration of \<open>consumer\<close>, which
  reads the device.
\<close>

section \<open>The zero-copy consumer\<close>

text \<open>The locals and the counter that the iterations carry along.\<close>

record zc_state =
  kick_count :: int
  reader_count :: int
  read_any :: int

definition zc_start :: zc_state where
  "zc_start = \<lparr>kick_count = 0, reader_count = 0, read_any = 0\<rparr>"

definition modulo_divisor :: int where
  "modulo_divisor = int TELEMETRY_RING_BUFFER_CAPACITY"

definition writer_asleep :: "shared_ring \<Rightarrow> bool" where
  "writer_asleep r \<longleftrightarrow> state_flags (char_ctl r) AND TELEMETRY_FLAG_WRITER_ASLEEP \<noteq> 0"

text \<open>
  One pass of the loop body. The result: the locals, the page, the byte that was consumed (if
  any), whether the wake-up command was issued, and whether the loop was left.
\<close>

type_synonym zc_result = "zc_state \<times> shared_ring \<times> u8 list \<times> bool \<times> bool"

definition zero_copy_iter ::
  "int \<Rightarrow> bool \<Rightarrow> zc_state \<Rightarrow> shared_ring \<Rightarrow> zc_result outcome" where
  "zero_copy_iter divisor writer_is_finished z r =
    (let current_read_index = char_rd r; current_write_index = char_wr r in
     if current_read_index \<noteq> current_write_index then
       if length (char_buffer r) \<le> unat current_read_index then OutOfBounds
       else
         let data = char_buffer r ! unat current_read_index;
             r' = set_char_rd (char_next current_read_index) r;
             z1 = z\<lparr>reader_count := reader_count z + 1\<rparr>
         in if writer_asleep r' then
              if kick_count z1 = 0
              then Return (z1\<lparr>kick_count := 1, read_any := 1\<rparr>, r', [data], True, False)
              else if divisor = 0 then DivideByZero
              else Return (z1\<lparr>kick_count := c_rem (kick_count z1 + 1) divisor, read_any := 1\<rparr>,
                     r', [data], False, False)
            else Return (z1\<lparr>read_any := 1\<rparr>, r', [data], False, False)
     else if writer_asleep r
       then Return (z\<lparr>read_any := 0\<rparr>, r, [], True, writer_is_finished)
       else Return (z, r, [], False, writer_is_finished))"

text \<open>Several passes while nobody else touches the ring; leaving the loop ends them.\<close>

fun zero_copy_run ::
  "int \<Rightarrow> bool \<Rightarrow> nat \<Rightarrow> zc_state \<Rightarrow> shared_ring \<Rightarrow> (zc_state \<times> shared_ring \<times> u8 list \<times> bool) outcome"
where
  "zero_copy_run divisor fin 0 z r = Return (z, r, [], False)"
| "zero_copy_run divisor fin (Suc n) z r =
     bind_outcome (zero_copy_iter divisor fin z r) (\<lambda>(z1, r1, out1, kick1, left).
       if left then Return (z1, r1, out1, kick1)
       else bind_outcome (zero_copy_run divisor fin n z1 r1) (\<lambda>(z2, r2, out2, kick2).
         Return (z2, r2, out1 @ out2, kick1 \<or> kick2)))"

section \<open>The reading consumer\<close>

text \<open>
  The system call \<open>read\<close> into a buffer of the caller: -1 for a descriptor that is not open and
  for every error of the device, else what \<open>dev_read\<close> returned.
\<close>

definition read_call :: "int \<Rightarrow> nat \<Rightarrow> shared_ring \<Rightarrow> (int \<times> shared_ring \<times> u8 list) outcome" where
  "read_call fildes count r =
     (if fildes < 0 then Return (-1, r, [])
      else bind_outcome (dev_read (\<lambda>_. True) count r) (\<lambda>(ret, woke, r', out).
        Return (case ret of Inr n \<Rightarrow> int n | Inl e \<Rightarrow> -1, r', out)))"

text \<open>
  One pass: \<open>read(fd, buf, sizeof(buf) - 1)\<close> into a 32-byte buffer. The result: the page, the
  bytes read, the counter, and whether the loop was left. There are branches for a positive
  result and for 0, at which the finish flag is tested; a negative one falls through both.
\<close>

definition consumer_iter ::
  "int \<Rightarrow> bool \<Rightarrow> int \<Rightarrow> shared_ring \<Rightarrow> (shared_ring \<times> u8 list \<times> int \<times> bool) outcome" where
  "consumer_iter fildes writer_is_finished count r =
     bind_outcome (read_call fildes (32 - 1) r) (\<lambda>(bytes_read, r', out).
       if 0 < bytes_read then Return (r', out, count + bytes_read, False)
       else if bytes_read = 0 then
         (if writer_is_finished then Return (r', out, count, True) else Return (r', out, count, False))
       else Return (r', out, count, False))"

section \<open>Lemmas\<close>

lemma writer_asleep_set_rd [simp]: "writer_asleep (set_char_rd i r) = writer_asleep r"
  by (simp add: writer_asleep_def set_char_rd_def)

text \<open>A pass over a non-empty ring takes its oldest byte; over an empty one it takes nothing.\<close>

lemma zero_copy_iter_cons:
  assumes inv: "char_inv r" and x: "char_content r = x # xs" and d: "divisor \<noteq> 0"
  shows "\<exists>z' r'. zero_copy_iter divisor fin z r
      = Return (z', r', [x], writer_asleep r \<and> kick_count z = 0, False)
    \<and> char_inv r' \<and> char_content r' = xs \<and> writer_asleep r' = writer_asleep r"
proof -
  obtain r' where r': "char_get r = Some (x, r')" "char_inv r'" "char_content r' = xs"
    using char_fifo.get_cons [OF inv x] by blast
  then have get: "char_rd r \<noteq> char_wr r" "x = char_buffer r ! unat (char_rd r)"
    "r' = set_char_rd (char_next (char_rd r)) r"
    by (auto simp: char_get_def split: if_splits)
  then show ?thesis
    using r' d char_inv_bounds [OF inv] by (auto simp: zero_copy_iter_def Let_def)
qed

lemma zero_copy_iter_nil:
  assumes "char_inv r" "char_content r = []"
  shows "\<exists>z'. zero_copy_iter divisor fin z r = Return (z', r, [], writer_asleep r, fin)"
  using assms ring_content_nil_iff by (auto simp: zero_copy_iter_def char_ring_defs Let_def)

lemma zero_copy_iter_stream:
  assumes "char_inv r" "divisor \<noteq> 0"
  shows "\<exists>z' r' out kick left. zero_copy_iter divisor fin z r = Return (z', r', out, kick, left)
    \<and> char_inv r' \<and> out @ char_content r' = char_content r
    \<and> writer_asleep r' = writer_asleep r"
proof (cases "char_content r")
  case Nil
  obtain z' where "zero_copy_iter divisor fin z r = Return (z', r, [], writer_asleep r, fin)"
    using zero_copy_iter_nil [OF assms(1) Nil] by blast
  then show ?thesis using assms(1) append_Nil by blast
next
  case (Cons x xs)
  then show ?thesis using zero_copy_iter_cons [OF assms(1) Cons assms(2)] by fastforce
qed

lemma zero_copy_run_spec:
  assumes "char_inv r" "divisor \<noteq> 0"
  shows "\<exists>z' r' kick. zero_copy_run divisor fin n z r = Return (z', r', take n (char_content r), kick)
    \<and> char_inv r' \<and> char_content r' = drop n (char_content r)
    \<and> (writer_asleep r \<and> length (char_content r) < n \<longrightarrow> kick)"
  using assms(1)
proof (induction n arbitrary: z r)
  case 0
  have "zero_copy_run divisor fin 0 z r = Return (z, r, take 0 (char_content r), False)" by simp
  then show ?case using "0.prems" by (metis drop_0 not_less_zero)
next
  case (Suc n)
  show ?case
  proof (cases "char_content r")
    case Nil
    obtain z' where iter: "zero_copy_iter divisor fin z r = Return (z', r, [], writer_asleep r, fin)"
      using zero_copy_iter_nil [OF Suc.prems Nil] by blast
    obtain z2 r2 k where "zero_copy_run divisor fin n z' r = Return (z2, r2, [], k)"
      "char_inv r2" "char_content r2 = []"
      using Suc.IH [OF Suc.prems, of z'] Nil by auto
    then show ?thesis using iter Nil Suc.prems by auto
  next
    case (Cons x xs)
    obtain z1 r1 where
      iter: "zero_copy_iter divisor fin z r
        = Return (z1, r1, [x], writer_asleep r \<and> kick_count z = 0, False)"
      and r1: "char_inv r1" "char_content r1 = xs" "writer_asleep r1 = writer_asleep r"
      using zero_copy_iter_cons [OF Suc.prems Cons assms(2)] by blast
    show ?thesis using Suc.IH [OF r1(1), of z1] r1 iter Cons by auto
  qed
qed

text \<open>
  A consumer that maps the ring drains it in order, and it cannot forget a sleeping writer:
  however its kick counter stands, it has issued the wake-up command by the time it has found
  the ring empty once, that is within one pass more than there are bytes.
\<close>

theorem zero_copy_kicks_sleeping_writer:
  assumes "char_inv r" "writer_asleep r" "divisor \<noteq> 0" "length (char_content r) < n"
  shows "\<exists>z' r'. zero_copy_run divisor fin n z r = Return (z', r', char_content r, True)
    \<and> char_content r' = []"
  using zero_copy_run_spec [OF assms(1,3), of fin n z] assms(2,4) by auto

theorem zero_copy_kicks_sleeping_writer_witness:
  "\<exists>z' r'. zero_copy_run modulo_divisor False 3 (zc_start\<lparr>kick_count := 7\<rparr>)
      (set_char_flags TELEMETRY_FLAG_WRITER_ASLEEP two_byte_page) = Return (z', r', [65, 66], True)"
proof -
  let ?r = "set_char_flags TELEMETRY_FLAG_WRITER_ASLEEP two_byte_page"
  have "char_inv ?r" "char_content ?r = [65, 66]"
    using two_byte_page by (simp_all add: char_inv_def char_content_def set_char_flags_def)
  moreover have "writer_asleep ?r"
    by (simp add: writer_asleep_def set_char_flags_def flag_defs)
  ultimately show ?thesis
    using zero_copy_kicks_sleeping_writer [of ?r modulo_divisor 3 False "zc_start\<lparr>kick_count := 7\<rparr>"]
    by (auto simp: modulo_divisor_def layout_simps)
qed

end
