(* ===== verification/CharWrite.thy ===== *)
theory CharWrite
  imports UserStream
begin

text \<open>
  \<open>dev_write\<close> of \<open>kernel/telemetry_core.c\<close>, the writer that sleeps when the ring
  is full. While it sleeps others act: the schedule is a list of what they do, every entry of
  which is an operation of the code (a read of the device, a pass of the zero-copy consumer, a
  wake-up command or an empty write) or a signal. Between the start of a write and its sleep
  nobody else acts here; the interleaving at every lock release is the subject of the
  concurrent model.
\<close>

section \<open>What happens while the writer sleeps\<close>

text \<open>
  The world outside the writer: the page, the locals of the zero-copy consumer, and the bytes
  that all consumers together have received.
\<close>

record world =
  page :: shared_ring
  zc :: zc_state
  delivered :: "u8 list"

datatype wait_event =
    is_signal: Signal
  | Reader "nat \<Rightarrow> bool" nat   \<comment> \<open>a \<open>read\<close> of so many bytes into a user buffer\<close>
  | ZeroCopyPass                \<comment> \<open>one pass of \<open>zero_copy_consumer\<close>\<close>
  | Kick                        \<comment> \<open>the wake-up command, or a write of length 0\<close>

text \<open>One event; the flag says whether it woke the wait queue (a signal wakes its process).\<close>

fun env_step :: "wait_event \<Rightarrow> world \<Rightarrow> (bool \<times> world) outcome" where
  "env_step Signal w = Return (True, w)"
| "env_step (Reader ok len) w =
     bind_outcome (dev_read ok len (page w)) (\<lambda>(ret, woke, r, out).
       Return (woke, w\<lparr>page := r, delivered := delivered w @ out\<rparr>))"
| "env_step ZeroCopyPass w =
     bind_outcome (zero_copy_iter modulo_divisor False (zc w) (page w)) (\<lambda>(z, r, out, kick, left).
       Return (kick \<and> snd (telemetry_mmap_ioctl TELEMETRY_IOC_WAKE_WRITER),
         w\<lparr>page := r, zc := z, delivered := delivered w @ out\<rparr>))"
| "env_step Kick w = Return (snd (telemetry_mmap_ioctl TELEMETRY_IOC_WAKE_WRITER), w)"

text \<open>
  The wait condition of \<open>dev_write\<close>, and \<open>wait_event_interruptible\<close>: the condition
  is evaluated before sleeping and after every wake-up, a signal ends the wait if the condition
  is still false, and a process that is not woken does not look. The condition and the events
  are parameters of \<open>wait_until\<close>, which the disabled versions of the driver share.
\<close>

definition has_room :: "shared_ring \<Rightarrow> bool" where
  "has_room r \<longleftrightarrow> char_next (char_wr r) \<noteq> char_rd r"

datatype wait_result = Woken | Interrupted | StillAsleep

fun sleep_until ::
  "('e \<Rightarrow> 'w \<Rightarrow> (bool \<times> 'w) outcome) \<Rightarrow> ('e \<Rightarrow> bool) \<Rightarrow> ('w \<Rightarrow> bool) \<Rightarrow> 'e list \<Rightarrow> 'w
   \<Rightarrow> (wait_result \<times> 'e list \<times> 'w) outcome" where
  "sleep_until step signal cond [] w = Return (StillAsleep, [], w)"
| "sleep_until step signal cond (e # es) w =
     bind_outcome (step e w) (\<lambda>(woken, w').
       if \<not> woken then sleep_until step signal cond es w'
       else if cond w' then Return (Woken, es, w')
       else if signal e then Return (Interrupted, es, w')
       else sleep_until step signal cond es w')"

definition wait_until ::
  "('e \<Rightarrow> 'w \<Rightarrow> (bool \<times> 'w) outcome) \<Rightarrow> ('e \<Rightarrow> bool) \<Rightarrow> ('w \<Rightarrow> bool) \<Rightarrow> 'e list \<Rightarrow> 'w
   \<Rightarrow> (wait_result \<times> 'e list \<times> 'w) outcome" where
  "wait_until step signal cond es w =
     (if cond w then Return (Woken, es, w) else sleep_until step signal cond es w)"

abbreviation sleep_for_room ::
  "wait_event list \<Rightarrow> world \<Rightarrow> (wait_result \<times> wait_event list \<times> world) outcome" where
  "sleep_for_room \<equiv> sleep_until env_step is_signal (\<lambda>w. has_room (page w))"

definition wait_event_interruptible ::
  "wait_event list \<Rightarrow> world \<Rightarrow> (wait_result \<times> wait_event list \<times> world) outcome" where
  "wait_event_interruptible = wait_until env_step is_signal (\<lambda>w. has_room (page w))"

lemma wait_event_eq: "wait_event_interruptible es w =
    (if has_room (page w) then Return (Woken, es, w) else sleep_for_room es w)"
  by (simp add: wait_event_interruptible_def wait_until_def)

text \<open>A process that slept consumed an event, and one that was woken found its condition true.\<close>

lemma sleep_until_Return:
  assumes "sleep_until step signal cond es w = Return (res, es', w')"
  shows "es \<noteq> [] \<longrightarrow> length es' < length es" "res = Woken \<longrightarrow> es \<noteq> [] \<and> cond w'"
proof -
  have "(es \<noteq> [] \<longrightarrow> length es' < length es) \<and> (res = Woken \<longrightarrow> es \<noteq> [] \<and> cond w')"
    using assms
  proof (induction es arbitrary: w)
    case Nil
    then show ?case by auto
  next
    case (Cons e es)
    obtain woken w1 where w1: "step e w = Return (woken, w1)"
      using Cons.prems by (auto simp: bind_outcome_Return)
    show ?case
    proof (cases "woken \<and> (cond w1 \<or> signal e)")
      case True
      then show ?thesis using Cons.prems w1 by (auto split: if_splits)
    next
      case False
      then have "sleep_until step signal cond es w1 = Return (res, es', w')"
        using Cons.prems w1 by (auto split: if_splits)
      with Cons.IH [of w1] show ?thesis by (cases es) auto
    qed
  qed
  then show "es \<noteq> [] \<longrightarrow> length es' < length es" "res = Woken \<longrightarrow> es \<noteq> [] \<and> cond w'" by auto
qed

lemma wait_until_Woken:
  assumes "wait_until step signal cond es w = Return (Woken, es', w')"
  shows "cond w'" "\<not> cond w \<Longrightarrow> length es' < length es"
  using assms sleep_until_Return [of step signal cond es w Woken es' w']
  by (auto simp: wait_until_def split: if_splits)

text \<open>
  Two worlds whose events correspond are waited for alike: \<open>h\<close> translates the events and
  \<open>f\<close> the worlds that satisfy the invariant \<open>I\<close>.
\<close>

fun wait_like :: "('e \<Rightarrow> 'd) \<Rightarrow> ('w \<Rightarrow> 'v) \<Rightarrow> 'e set \<Rightarrow> ('w \<Rightarrow> bool)
    \<Rightarrow> 'r \<times> 'd list \<times> 'w \<Rightarrow> 'r \<times> 'e list \<times> 'v \<Rightarrow> bool" where
  "wait_like h f E I (res, es1, w1) (res', es2, w2) =
     (res' = res \<and> es1 = map h es2 \<and> w2 = f w1 \<and> set es2 \<subseteq> E \<and> I w1)"

lemma wait_until_sim:
  assumes "\<And>e w. e \<in> set es \<Longrightarrow> I w \<Longrightarrow>
      rel_outcome (\<lambda>p q. q = map_prod id f p \<and> I (snd p)) (step (h e) w) (step' e (f w))"
    and "\<And>w. I w \<Longrightarrow> cond' (f w) = cond w" "\<And>e. signal' e = signal (h e)" "I w"
  shows "rel_outcome (wait_like h f (set es) I)
    (wait_until step signal cond (map h es) w) (wait_until step' signal' cond' es (f w))"
proof -
  have "rel_outcome (wait_like h f E I) (sleep_until step signal cond (map h es) w)
      (sleep_until step' signal' cond' es (f w))" if "set es \<subseteq> E" for E
    using assms(1,4) that
  proof (induction es arbitrary: w)
    case Nil
    then show ?case by simp
  next
    case (Cons e es)
    have step: "rel_outcome (\<lambda>p q. q = map_prod id f p \<and> I (snd p)) (step (h e) w) (step' e (f w))"
      by (rule Cons.prems) (simp_all add: Cons.prems(2))
    have IH: "rel_outcome (wait_like h f E I) (sleep_until step signal cond (map h es) a)
        (sleep_until step' signal' cond' es (f a))" if "I a" for a
      by (rule Cons.IH) (use Cons.prems that in auto)
    show ?case
    proof (cases "step (h e) w")
      case (Return p)
      obtain woken a where p: "p = (woken, a)" by (cases p)
      then have "step' e (f w) = Return (woken, f a)" "I a"
        using step Return by (cases "step' e (f w)"; simp)+
      then show ?thesis using Return p IH [of a] Cons.prems(3) assms(3) [of e] by (simp add: assms(2))
    qed (use step in \<open>cases "step' e (f w)"; simp\<close>)+
  qed
  then show ?thesis by (simp add: wait_until_def assms(2,4))
qed

section \<open>The write\<close>

text \<open>
  The outcome of a write: it returned, or it is still asleep at the end of the schedule. The
  user buffer is the list of its bytes; \<open>None\<close> is a byte that \<open>get_user\<close> cannot read
  (which then stores 0). The parameters of the loop are the bytes not yet written and
  \<open>bytes_written\<close>.
\<close>

datatype write_result = Wrote "errno + nat" | Asleep

definition upd_page :: "(shared_ring \<Rightarrow> shared_ring) \<Rightarrow> world \<Rightarrow> world" where
  "upd_page f w = w\<lparr>page := f (page w)\<rparr>"

definition raise_asleep :: "shared_ring \<Rightarrow> shared_ring" where
  "raise_asleep r =
     set_char_flags (state_flags (char_ctl r) OR TELEMETRY_FLAG_WRITER_ASLEEP) r"

definition clear_asleep :: "shared_ring \<Rightarrow> shared_ring" where
  "clear_asleep r =
     set_char_flags (state_flags (char_ctl r) AND NOT TELEMETRY_FLAG_WRITER_ASLEEP) r"

lemma has_room_flags [simp]: "has_room (set_char_flags f r) = has_room r"
  by (simp add: has_room_def set_char_flags_def)

lemma page_upd_page [simp]: "page (upd_page f w) = f (page w)"
  by (simp add: upd_page_def)

lemma delivered_upd_page [simp]: "delivered (upd_page f w) = delivered w"
  by (simp add: upd_page_def)

lemma wait_shortens:
  assumes "wait_event_interruptible es w = Return (Woken, es', w')" "\<not> has_room (page w)"
  shows "length es' < length es"
  using assms unfolding wait_event_interruptible_def by (rule wait_until_Woken(2))

function dev_write_loop ::
  "u8 option list \<Rightarrow> nat \<Rightarrow> wait_event list \<Rightarrow> world
   \<Rightarrow> (write_result \<times> wait_event list \<times> world) outcome" where
  "dev_write_loop [] bytes_written es w = Return (Wrote (Inr bytes_written), es, w)"
| "dev_write_loop (b # bs) bytes_written es w =
     (let next_write_index = char_next (char_wr (page w));
          snapshot_read_index = char_rd (page w)
      in if next_write_index = snapshot_read_index then
           (case wait_event_interruptible es (upd_page raise_asleep w) of
              Return (Woken, es', w') \<Rightarrow>
                dev_write_loop (b # bs) bytes_written es' (upd_page clear_asleep w')
            | Return (Interrupted, es', w') \<Rightarrow> Return (Wrote (Inl ERESTARTSYS), es', w')
            | Return (StillAsleep, es', w') \<Rightarrow> Return (Asleep, es', w')
            | OutOfBounds \<Rightarrow> OutOfBounds
            | DivideByZero \<Rightarrow> DivideByZero)
         else if length (char_buffer (page w)) \<le> unat (char_wr (page w)) then OutOfBounds
         else case b of
           None \<Rightarrow> Return (Wrote (Inl EFAULT), es, upd_page (store_char (char_wr (page w)) 0) w)
         | Some x \<Rightarrow> dev_write_loop bs (bytes_written + 1) es
             (upd_page (set_char_wr next_write_index \<circ> store_char (char_wr (page w)) x) w))"
  by pat_completeness auto
termination
proof (relation "measure (\<lambda>(bs, n, es, w). length bs + length es)", goal_cases)
  case 1
  then show ?case by simp
next
  case (2 b bs n es w nx sn a x y z w')
  then have "\<not> has_room (page (upd_page raise_asleep w))"
    by (simp add: has_room_def raise_asleep_def set_char_flags_def)
  with 2 wait_shortens show ?case by fastforce
next
  case 3
  then show ?case by simp
qed

declare dev_write_loop.simps(2) [simp del]

text \<open>
  \<open>dev_write\<close>: a write of length 0 wakes the queue and returns 0 (the first component);
  any other write runs the loop.
\<close>

definition dev_write ::
  "u8 option list \<Rightarrow> wait_event list \<Rightarrow> world
   \<Rightarrow> (bool \<times> write_result \<times> wait_event list \<times> world) outcome" where
  "dev_write bs es w =
     (if bs = [] then Return (True, Wrote (Inr 0), es, w)
      else bind_outcome (dev_write_loop bs 0 es w) (\<lambda>(res, es', w'). Return (False, res, es', w')))"


text \<open>Only the empty write wakes the queue, and the loop on no bytes does nothing.\<close>

lemma dev_write_of_loop:
  "dev_write_loop bs 0 es w = Return (res, es', w') \<Longrightarrow>
    dev_write bs es w = Return (bs = [], res, es', w')"
  by (cases bs) (auto simp: dev_write_def)

section \<open>The stream through the ring\<close>

text \<open>Every byte that entered the ring: those delivered, then those still buffered.\<close>

definition stream :: "world \<Rightarrow> u8 list" where
  "stream w = delivered w @ char_content (page w)"

lemma char_inv_flags [simp]: "char_inv (set_char_flags f r) = char_inv r"
  by (simp add: char_inv_def set_char_flags_def)

lemma char_content_flags [simp]: "char_content (set_char_flags f r) = char_content r"
  by (simp add: char_content_def set_char_flags_def)

lemma stream_flags [simp]:
  "stream (upd_page raise_asleep w) = stream w" "stream (upd_page clear_asleep w) = stream w"
  by (simp_all add: stream_def raise_asleep_def clear_asleep_def)

lemma char_inv_raise_clear [simp]:
  "char_inv (raise_asleep r) = char_inv r" "char_inv (clear_asleep r) = char_inv r"
  by (simp_all add: raise_asleep_def clear_asleep_def)

lemma char_content_raise_clear [simp]:
  "char_content (raise_asleep r) = char_content r" "char_content (clear_asleep r) = char_content r"
  by (simp_all add: raise_asleep_def clear_asleep_def)

lemma has_room_raise_clear [simp]:
  "has_room (raise_asleep r) = has_room r" "has_room (clear_asleep r) = has_room r"
  by (simp_all add: raise_asleep_def clear_asleep_def)

lemma writer_asleep_raise [simp]: "writer_asleep (raise_asleep r)"
proof -
  have "bit ((f OR TELEMETRY_FLAG_WRITER_ASLEEP) AND TELEMETRY_FLAG_WRITER_ASLEEP) 0" for f
    by (simp add: bit_simps flag_defs)
  then have "(f OR TELEMETRY_FLAG_WRITER_ASLEEP) AND TELEMETRY_FLAG_WRITER_ASLEEP \<noteq> 0" for f
    by (metis bit_0_eq bot_apply bot_bool_def)
  then show ?thesis
    by (simp add: raise_asleep_def writer_asleep_def set_char_flags_def)
qed

lemma not_writer_asleep_clear [simp]: "\<not> writer_asleep (clear_asleep r)"
proof -
  have "(f AND NOT TELEMETRY_FLAG_WRITER_ASLEEP) AND TELEMETRY_FLAG_WRITER_ASLEEP = 0" for f
    by (rule bit_word_eqI) (auto simp: bit_simps)
  then show ?thesis
    by (simp add: clear_asleep_def writer_asleep_def set_char_flags_def)
qed

lemma has_room_iff:
  assumes "char_inv r"
  shows "has_room r = (length (char_content r) < TELEMETRY_RING_BUFFER_CAPACITY - 1)"
proof -
  have "length (char_content r) \<le> TELEMETRY_RING_BUFFER_CAPACITY - 1"
    by (rule char_fifo.content_le [OF assms])
  moreover have "has_room r = (length (char_content r) \<noteq> TELEMETRY_RING_BUFFER_CAPACITY - 1)"
    using ring_full_iff [OF assms [unfolded char_inv_def]] by (simp add: has_room_def char_ring_defs)
  ultimately show ?thesis by linarith
qed

text \<open>No event loses, invents or reorders a byte, and none touches the sleep flag.\<close>

lemma env_step_stream:
  assumes "char_inv (page w)"
  shows "\<exists>woken w'. env_step e w = Return (woken, w') \<and> char_inv (page w') \<and> stream w' = stream w
    \<and> writer_asleep (page w') = writer_asleep (page w)"
proof (cases e)
  case (Reader ok len)
  obtain ret woke r xs where "dev_read ok len (page w) = Return (ret, woke, r, xs)"
    "char_inv r" "xs @ char_content r = char_content (page w)" "r = set_char_rd (char_rd r) (page w)"
    using dev_read_stream [OF assms] by blast
  then show ?thesis
    using Reader by (auto simp: stream_def) (metis writer_asleep_set_rd)+
next
  case ZeroCopyPass
  have "modulo_divisor \<noteq> 0" by (simp add: modulo_divisor_def layout_simps)
  then obtain z r out kick left where
    "zero_copy_iter modulo_divisor False (zc w) (page w) = Return (z, r, out, kick, left)"
    "char_inv r" "out @ char_content r = char_content (page w)"
    "writer_asleep r = writer_asleep (page w)"
    using zero_copy_iter_stream [OF assms] by metis
  then show ?thesis using ZeroCopyPass by (auto simp: stream_def)
qed (use assms in auto)

lemma sleep_stream:
  assumes "char_inv (page w)"
  shows "\<exists>res es' w'. sleep_for_room es w = Return (res, es', w') \<and> char_inv (page w')
    \<and> stream w' = stream w \<and> writer_asleep (page w') = writer_asleep (page w)
    \<and> (res = Woken \<longrightarrow> has_room (page w'))"
  using assms
proof (induction es arbitrary: w)
  case Nil
  then show ?case by simp
next
  case (Cons e es)
  obtain woken w1 where w1: "env_step e w = Return (woken, w1)" "char_inv (page w1)"
    "stream w1 = stream w" "writer_asleep (page w1) = writer_asleep (page w)"
    using env_step_stream [OF Cons.prems] by blast
  show ?case using Cons.IH [OF w1(2)] w1 by auto
qed

lemma wait_stream:
  assumes "char_inv (page w)"
  shows "\<exists>res es' w'. wait_event_interruptible es w = Return (res, es', w') \<and> char_inv (page w')
    \<and> stream w' = stream w \<and> writer_asleep (page w') = writer_asleep (page w)
    \<and> (res = Woken \<longrightarrow> has_room (page w'))"
  using sleep_stream [OF assms, of es] assms by (simp add: wait_event_eq)

text \<open>One byte of a write that found room.\<close>

lemma write_byte:
  fixes x :: u8
  assumes "char_inv (page w)" "has_room (page w)"
  defines "w' \<equiv> upd_page (set_char_wr (char_next (char_wr (page w)))
      \<circ> store_char (char_wr (page w)) x) w"
  shows "char_inv (page w')" "stream w' = stream w @ [x]"
    "char_content (page w') = char_content (page w) @ [x]" "delivered w' = delivered w"
proof -
  have "char_put x (page w) = Some (page w')"
    using assms(2) by (simp add: char_put_def has_room_def w'_def)
  from char_fifo.put_SomeD [OF assms(1) this]
  show "char_inv (page w')" "char_content (page w') = char_content (page w) @ [x]" by auto
  then show "stream w' = stream w @ [x]" "delivered w' = delivered w"
    by (simp_all add: stream_def w'_def)
qed

lemma store_fault:
  fixes x :: u8
  assumes "char_inv (page w)"
  defines "w' \<equiv> upd_page (store_char (char_wr (page w)) x) w"
  shows "char_inv (page w')" "stream w' = stream w"
proof -
  have ok: "ring_ok TELEMETRY_RING_BUFFER_CAPACITY (char_rd (page w)) (char_wr (page w))
      (char_buffer (page w))"
    using assms(1) by (simp add: char_inv_def)
  show "char_inv (page w')"
    using ok by (simp add: w'_def char_inv_def store_char_def ring_ok_def)
  show "stream w' = stream w"
    using ring_slot_other [OF ok]
    by (auto simp: w'_def stream_def store_char_def char_content_def ring_content_def
        intro!: nth_list_update_neq dest: sym)
qed


section \<open>What a write does to the stream\<close>

text \<open>
  The bytes a write has put into the stream, against its outcome: a prefix of its buffer,
  the whole of it exactly if it returns a count.
\<close>

definition write_outcome_ok :: "u8 option list \<Rightarrow> nat \<Rightarrow> nat \<Rightarrow> write_result \<Rightarrow> bool" where
  "write_outcome_ok bs n k res = (k \<le> length bs \<and> (\<forall>i<k. bs ! i \<noteq> None) \<and>
     (case res of
        Wrote (Inr m) \<Rightarrow> k = length bs \<and> m = n + k
      | Wrote (Inl e) \<Rightarrow> k < length bs \<and> (e = EFAULT \<and> bs ! k = None \<or> e = ERESTARTSYS)
      | Asleep \<Rightarrow> k < length bs))"

lemma write_outcome_Cons:
  assumes "write_outcome_ok bs (n + 1) k res"
  shows "write_outcome_ok (Some x # bs) n (Suc k) res"
proof -
  have "(\<forall>i<Suc k. (Some x # bs) ! i \<noteq> None) = (\<forall>i<k. bs ! i \<noteq> None)"
    by (auto simp: less_Suc_eq_0_disj)
  with assms show ?thesis
    by (auto simp: write_outcome_ok_def split: write_result.splits sum.splits)
qed

text \<open>The three ways one round of the loop can go on a well-formed ring.\<close>

lemma dev_write_full:
  assumes "\<not> has_room (page w)"
    and "wait_event_interruptible es (upd_page raise_asleep w) = Return (res, es', w')"
  shows "dev_write_loop (b # bs) n es w = (case res of
      Woken \<Rightarrow> dev_write_loop (b # bs) n es' (upd_page clear_asleep w')
    | Interrupted \<Rightarrow> Return (Wrote (Inl ERESTARTSYS), es', w')
    | StillAsleep \<Rightarrow> Return (Asleep, es', w'))"
  using assms by (simp add: dev_write_loop.simps(2) [of b bs n es w] has_room_def Let_def
      split: wait_result.splits)

lemma dev_write_fault:
  assumes "char_inv (page w)" "has_room (page w)"
  shows "dev_write_loop (None # bs) n es w
    = Return (Wrote (Inl EFAULT), es, upd_page (store_char (char_wr (page w)) 0) w)"
  using assms char_inv_bounds [OF assms(1)]
  by (simp add: dev_write_loop.simps(2) has_room_def Let_def)

lemma dev_write_byte:
  assumes "char_inv (page w)" "has_room (page w)"
  shows "dev_write_loop (Some x # bs) n es w = dev_write_loop bs (n + 1) es
    (upd_page (set_char_wr (char_next (char_wr (page w))) \<circ> store_char (char_wr (page w)) x) w)"
  using assms char_inv_bounds [OF assms(1)]
  by (simp add: dev_write_loop.simps(2) has_room_def Let_def)

lemma dev_write_loop_stream:
  assumes "char_inv (page w)"
  shows "\<exists>res es' w' k. dev_write_loop bs n es w = Return (res, es', w') \<and> char_inv (page w')
    \<and> stream w' = stream w @ map the (take k bs) \<and> write_outcome_ok bs n k res"
  using assms
proof (induction "length bs + length es" arbitrary: bs n es w rule: less_induct)
  case less
  show ?case
  proof (cases bs)
    case Nil
    then show ?thesis using less.prems by (simp add: write_outcome_ok_def)
  next
    case bs: (Cons b bs')
    show ?thesis
    proof (cases "has_room (page w)")
      case False
      obtain res es' w1 where wait: "wait_event_interruptible es (upd_page raise_asleep w)
          = Return (res, es', w1)" "char_inv (page w1)" "stream w1 = stream w"
        using wait_stream [of "upd_page raise_asleep w" es] less.prems by auto
      show ?thesis
      proof (cases "res = Woken")
        case True
        have "length es' < length es"
          using wait(1) False unfolding True by (auto dest: wait_shortens)
        then show ?thesis
          using less.hyps [of bs es' "upd_page clear_asleep w1" n] wait(2,3)
          by (simp add: bs dev_write_full [OF False wait(1)] True)
      next
        case res: False
        have "\<exists>r. dev_write_loop (b # bs') n es w = Return (r, es', w1)
            \<and> (r = Asleep \<or> r = Wrote (Inl ERESTARTSYS))"
          using res by (cases res) (simp_all add: dev_write_full [OF False wait(1)])
        then obtain r where "dev_write_loop bs n es w = Return (r, es', w1)"
          "write_outcome_ok bs n 0 r" by (auto simp: bs write_outcome_ok_def)
        moreover have "stream w1 = stream w @ map the (take 0 bs)" using wait(3) by simp
        ultimately show ?thesis using wait(2) by blast
      qed
    next
      case True
      show ?thesis
      proof (cases b)
        case None
        have "write_outcome_ok bs n 0 (Wrote (Inl EFAULT))"
          by (simp add: write_outcome_ok_def bs None)
        moreover have "stream (upd_page (store_char (char_wr (page w)) 0) w)
            = stream w @ map the (take 0 bs)"
          using store_fault [OF less.prems] by simp
        ultimately show ?thesis
          using dev_write_fault [OF less.prems True, of bs' n es] store_fault(1) [OF less.prems]
          unfolding bs None by blast
      next
        case (Some x)
        note w' = write_byte [OF less.prems True, of x]
        obtain res es' w2 k where
          "dev_write_loop bs n es w = Return (res, es', w2)" "char_inv (page w2)"
          "stream w2 = (stream w @ [x]) @ map the (take k bs')" "write_outcome_ok bs' (n + 1) k res"
          using less.hyps [OF _ w'(1), of bs' es "n + 1"] w'(2)
          by (auto simp: bs Some dev_write_byte [OF less.prems True])
        moreover from this(4) have "write_outcome_ok bs n (Suc k) res"
          unfolding bs Some by (rule write_outcome_Cons)
        ultimately show ?thesis
          by (intro exI [of _ res] exI [of _ es'] exI [of _ w2] exI [of _ "Suc k"])
            (simp add: bs Some)
      qed
    qed
  qed
qed


section \<open>Liveness lemmas\<close>

text \<open>The bytes that fit are written without a look at the schedule.\<close>

lemma dev_write_loop_fill:
  assumes "char_inv (page w)"
    and "length xs \<le> TELEMETRY_RING_BUFFER_CAPACITY - 1 - length (char_content (page w))"
  shows "\<exists>w'. dev_write_loop (map Some xs @ bs) n es w = dev_write_loop bs (n + length xs) es w'
    \<and> char_inv (page w') \<and> char_content (page w') = char_content (page w) @ xs
    \<and> delivered w' = delivered w"
  using assms
proof (induction xs arbitrary: n w)
  case Nil
  then show ?case by auto
next
  case (Cons x xs)
  have room: "has_room (page w)"
    using Cons.prems by (simp add: has_room_iff)
  note w' = write_byte [OF Cons.prems(1) room, of x]
  show ?case
    using Cons.IH [OF w'(1), of "n + 1"] Cons.prems w'(3,4)
    by (auto simp: dev_write_byte [OF Cons.prems(1) room])
qed

text \<open>A read of at least one byte wakes a writer that is blocked on a full ring.\<close>

lemma sleep_reader:
  assumes "char_inv (page w)" "char_content (page w) \<noteq> []" "0 < len"
  shows "\<exists>w'. sleep_for_room (Reader (\<lambda>_. True) len # es) w = Return (Woken, es, w')
    \<and> char_inv (page w') \<and> has_room (page w')"
proof -
  obtain xs t where get: "get_upto char_get len (page w) = (xs, t)" by fastforce
  have t: "char_inv t \<and> xs = take len (char_content (page w))
      \<and> char_content t = drop len (char_content (page w))"
    by (rule char_fifo.get_upto_spec [OF assms(1) get])
  have "xs \<noteq> []" using t assms(2,3) by auto
  then have "dev_read (\<lambda>_. True) len (page w) = Return (Inr (length xs), True, t, xs)"
    unfolding dev_read_def by (subst dev_read_loop_get_upto [OF assms(1)]) (use get in auto)
  moreover have "has_room t"
    using t assms(2,3) char_fifo.content_le [OF assms(1)] by (cases "char_content (page w)")
      (auto simp: has_room_iff layout_simps)
  ultimately show ?thesis using t by auto
qed

lemma dev_write_loop_readers:
  assumes "char_inv (page w)" "length xs \<le> length lens" "\<forall>l \<in> set lens. 0 < l"
  shows "\<exists>es' w'. dev_write_loop (map Some xs) n (map (Reader (\<lambda>_. True)) lens) w
    = Return (Wrote (Inr (n + length xs)), es', w')"
  using assms
proof (induction xs arbitrary: n lens w)
  case Nil
  then show ?case by simp
next
  case (Cons x xs)
  show ?case
  proof (cases "has_room (page w)")
    case True
    from write_byte(1) [OF Cons.prems(1) True] show ?thesis
      using Cons.IH [where n = "n + 1" and lens = lens] Cons.prems
      by (simp add: dev_write_byte [OF Cons.prems(1) True])
  next
    case False
    obtain l ls where lens: "lens = l # ls" using Cons.prems(2) by (cases lens) auto
    let ?w = "upd_page raise_asleep w"
    have "char_content (page ?w) \<noteq> []" "char_inv (page ?w)"
      using False Cons.prems(1) by (auto simp: has_room_iff layout_simps)
    then obtain w1 where w1:
      "sleep_for_room (map (Reader (\<lambda>_. True)) lens) ?w
        = Return (Woken, map (Reader (\<lambda>_. True)) ls, w1)" "char_inv (page w1)" "has_room (page w1)"
      using sleep_reader [of ?w l "map (Reader (\<lambda>_. True)) ls"] Cons.prems(3) lens by auto
    then have "wait_event_interruptible (map (Reader (\<lambda>_. True)) lens) ?w
        = Return (Woken, map (Reader (\<lambda>_. True)) ls, w1)"
      using False by (simp add: wait_event_eq)
    from dev_write_full [OF False this, of "Some x" "map Some xs" n] show ?thesis
      using Cons.IH [OF write_byte(1), of "upd_page clear_asleep w1" ls "n + 1"] w1(2,3)
        Cons.prems(2,3) lens
      by (simp add: dev_write_byte)
  qed
qed

text \<open>
  The zero-copy consumer wakes a sleeping writer after at most as many passes as the ring has
  bytes, plus one: either its counter lets it kick earlier, or it finds the ring empty.
\<close>

lemma sleep_zero_copy:
  assumes "char_inv (page w)" "writer_asleep (page w)" "length (char_content (page w)) < n"
    and "0 < length (char_content (page w)) \<or> has_room (page w)"
  shows "\<exists>m w'. m < n \<and> sleep_for_room (replicate n ZeroCopyPass @ es) w
      = Return (Woken, replicate m ZeroCopyPass @ es, w') \<and> char_inv (page w') \<and> has_room (page w')"
  using assms
proof (induction n arbitrary: w)
  case 0
  then show ?case by simp
next
  case (Suc n)
  have wake: "snd (telemetry_mmap_ioctl TELEMETRY_IOC_WAKE_WRITER)"
    by (simp add: telemetry_mmap_ioctl_def)
  have d: "modulo_divisor \<noteq> 0" by (simp add: modulo_divisor_def layout_simps)
  show ?case
  proof (cases "char_content (page w)")
    case Nil
    obtain z' where "zero_copy_iter modulo_divisor False (zc w) (page w)
        = Return (z', page w, [], writer_asleep (page w), False)"
      using zero_copy_iter_nil [OF Suc.prems(1) Nil] by blast
    then show ?thesis
      using Suc.prems Nil wake by (intro exI [of _ n]) simp
  next
    case (Cons x xs)
    obtain z1 r1 where iter: "zero_copy_iter modulo_divisor False (zc w) (page w)
        = Return (z1, r1, [x], writer_asleep (page w) \<and> kick_count (zc w) = 0, False)"
      and r1: "char_inv r1" "char_content r1 = xs" "writer_asleep r1 = writer_asleep (page w)"
      using zero_copy_iter_cons [OF Suc.prems(1) Cons d] by blast
    have room: "has_room r1"
      using char_fifo.content_le [OF Suc.prems(1)] Cons r1 by (simp add: has_room_iff layout_simps)
    let ?w = "w\<lparr>page := r1, zc := z1, delivered := delivered w @ [x]\<rparr>"
    show ?thesis
    proof (cases "kick_count (zc w) = 0")
      case True
      then show ?thesis
        using iter Suc.prems(2) wake r1 room by (intro exI [of _ n]) simp
    next
      case False
      then have "sleep_for_room (replicate (Suc n) ZeroCopyPass @ es) w
          = sleep_for_room (replicate n ZeroCopyPass @ es) ?w"
        using iter by simp
      then show ?thesis
        using Suc.IH [of ?w] Suc.prems(2,3) r1 room Cons by (auto intro: less_SucI)
    qed
  qed
qed

lemma dev_write_loop_zero_copy:
  assumes "char_inv (page w)" "TELEMETRY_RING_BUFFER_CAPACITY * length xs \<le> p"
  shows "\<exists>es' w'. dev_write_loop (map Some xs) n (replicate p ZeroCopyPass) w
    = Return (Wrote (Inr (n + length xs)), es', w')"
  using assms
proof (induction xs arbitrary: n p w)
  case Nil
  then show ?case by simp
next
  case (Cons x xs)
  show ?case
  proof (cases "has_room (page w)")
    case True
    from write_byte(1) [OF Cons.prems(1) True] show ?thesis
      using Cons.IH [where n = "n + 1" and p = p] Cons.prems(2)
      by (simp add: dev_write_byte [OF Cons.prems(1) True])
  next
    case False
    let ?w = "upd_page raise_asleep w" and ?c = TELEMETRY_RING_BUFFER_CAPACITY
    have full: "length (char_content (page w)) = ?c - 1"
      using False char_fifo.content_le [OF Cons.prems(1)] Cons.prems(1) by (simp add: has_room_iff)
    have "p = ?c + (p - ?c)" using Cons.prems(2) by simp
    then have es: "replicate p ZeroCopyPass
        = replicate ?c ZeroCopyPass @ replicate (p - ?c) ZeroCopyPass"
      by (metis replicate_add)
    obtain m w1 where w1: "m < ?c" "sleep_for_room (replicate p ZeroCopyPass) ?w
        = Return (Woken, replicate m ZeroCopyPass @ replicate (p - ?c) ZeroCopyPass, w1)"
      "char_inv (page w1)" "has_room (page w1)"
      using sleep_zero_copy [of ?w ?c "replicate (p - ?c) ZeroCopyPass"] Cons.prems(1) full
      by (auto simp: es layout_simps)
    then have "wait_event_interruptible (replicate p ZeroCopyPass) ?w
        = Return (Woken, replicate (m + (p - ?c)) ZeroCopyPass, w1)"
      using False by (simp add: wait_event_eq replicate_add)
    from dev_write_full [OF False this, of "Some x" "map Some xs" n] show ?thesis
      using Cons.IH [OF write_byte(1), of "upd_page clear_asleep w1" "m + (p - ?c)" "n + 1"]
        w1(3,4) Cons.prems(2)
      by (simp add: dev_write_byte)
  qed
qed


section \<open>Properties of the writer\<close>

text \<open>A world with an empty ring and one with a full ring, for the examples.\<close>

definition empty_world :: world where
  "empty_world = \<lparr>page = zeroed_page, zc = zc_start, delivered = []\<rparr>"

definition full_world :: world where
  "full_world = \<lparr>page = set_char_rd 1 zeroed_page, zc = zc_start, delivered = []\<rparr>"

lemma empty_world: "char_inv (page empty_world)" "char_content (page empty_world) = []"
  by (simp_all add: empty_world_def)

lemma full_world:
  "char_inv (page full_world)" "length (char_content (page full_world)) = 1023"
  "\<not> has_room (page full_world)"
  by (simp_all add: full_world_def char_inv_def char_content_def page_update_defs zeroed_page_def
      zero_lane_def ring_ok_def ring_count_def has_room_def char_next_def ring_next_def layout_simps)

text \<open>
  C1. The writer and its readers form one first-in first-out stream. Whatever the readers, the
  zero-copy consumer, wake-ups and signals do while the writer sleeps, a write of a well-formed
  ring stays inside the buffer and keeps it well-formed, and the bytes delivered so far
  followed by the buffered ones grow by a prefix of the user's bytes: by all of them exactly
  if the write returns, and then it returns their number.
\<close>

theorem dev_write_fifo:
  assumes "char_inv (page w)"
  shows "\<exists>woke res es' w' k. dev_write bs es w = Return (woke, res, es', w')
    \<and> char_inv (page w')
    \<and> delivered w' @ char_content (page w')
        = delivered w @ char_content (page w) @ map the (take k bs)
    \<and> k \<le> length bs \<and> (\<forall>i<k. bs ! i \<noteq> None)
    \<and> (k = length bs) = (res = Wrote (Inr (length bs)))
    \<and> (\<forall>m. res = Wrote (Inr m) \<longrightarrow> m = length bs)"
proof -
  obtain res es' w' k where loop: "dev_write_loop bs 0 es w = Return (res, es', w')"
    "char_inv (page w')" "stream w' = stream w @ map the (take k bs)" "write_outcome_ok bs 0 k res"
    using dev_write_loop_stream [OF assms, of bs 0 es] by blast
  have "k \<le> length bs" "\<forall>i<k. bs ! i \<noteq> None" "(k = length bs) = (res = Wrote (Inr (length bs)))"
    "\<forall>m. res = Wrote (Inr m) \<longrightarrow> m = length bs"
    using loop(4) by (auto simp: write_outcome_ok_def split: write_result.splits sum.splits)
  moreover have "delivered w' @ char_content (page w')
      = delivered w @ char_content (page w) @ map the (take k bs)"
    using loop(3) by (simp add: stream_def)
  moreover have "dev_write bs es w = Return (bs = [], res, es', w')"
    by (rule dev_write_of_loop) (rule loop(1))
  ultimately show ?thesis using loop(2) by blast
qed

theorem dev_write_fifo_witness:
  "\<exists>woke res es' w' k. dev_write (map Some [65, 66]) [Reader (\<lambda>_. True) 1] full_world
      = Return (woke, res, es', w')
    \<and> delivered w' @ char_content (page w') = char_content (page full_world) @ map the (take k (map Some [65, 66]))"
proof -
  have "delivered full_world = []" by (simp add: full_world_def)
  then show ?thesis
    using dev_write_fifo [OF full_world(1), of "map Some [65, 66]" "[Reader (\<lambda>_. True) 1]"]
    by (metis append_Nil)
qed

text \<open>
  A write that fits returns its length at once, whatever the schedule: the bytes are
  appended to the ring, nobody else acts, and the writer never sleeps.
\<close>

lemma dev_write_that_fits:
  assumes "char_inv (page w)" "xs \<noteq> []"
    and "length xs \<le> TELEMETRY_RING_BUFFER_CAPACITY - 1 - length (char_content (page w))"
  shows "\<exists>w'. dev_write (map Some xs) es w = Return (False, Wrote (Inr (length xs)), es, w')
    \<and> char_content (page w') = char_content (page w) @ xs \<and> delivered w' = delivered w"
  using dev_write_loop_fill [OF assms(1,3), of "[]" 0 es] assms(2) by (auto simp: dev_write_def)

text \<open>
  A writer facing readers gets through: if the schedule has as many reads as the write has
  bytes, each of at least one byte, the write completes however full the ring was.
\<close>

theorem dev_write_completes_with_readers:
  assumes "char_inv (page w)" "length xs \<le> length lens" "\<forall>l \<in> set lens. 0 < l" "xs \<noteq> []"
  shows "\<exists>es' w'. dev_write (map Some xs) (map (Reader (\<lambda>_. True)) lens) w
    = Return (False, Wrote (Inr (length xs)), es', w')"
  using dev_write_loop_readers [OF assms(1,2,3), of 0] assms(4) by (auto simp: dev_write_def)

theorem dev_write_completes_with_readers_witness:
  "\<exists>es' w'. dev_write (map Some [65, 66]) (map (Reader (\<lambda>_. True)) [31, 1]) full_world
    = Return (False, Wrote (Inr 2), es', w')"
  using dev_write_completes_with_readers [OF full_world(1), of "[65, 66]" "[31, 1]"]
  by (simp add: numeral_2_eq_2)

text \<open>
  C17. The zero-copy consumer wakes the writer often enough: although it issues the wake-up
  command only once in 1024 passes or on an empty ring, 1024 passes per byte are enough for
  any write to complete, from any well-formed ring and any state of the kick counter.
\<close>

theorem dev_write_completes_with_zero_copy:
  assumes "char_inv (page w)" "TELEMETRY_RING_BUFFER_CAPACITY * length xs \<le> passes" "xs \<noteq> []"
  shows "\<exists>es' w'. dev_write (map Some xs) (replicate passes ZeroCopyPass) w
    = Return (False, Wrote (Inr (length xs)), es', w')"
  using dev_write_loop_zero_copy [OF assms(1,2), of 0] assms(3) by (auto simp: dev_write_def)

theorem dev_write_completes_with_zero_copy_witness:
  "\<exists>es' w'. dev_write (map Some [65, 66]) (replicate 2048 ZeroCopyPass)
      (full_world\<lparr>zc := zc_start\<lparr>kick_count := 5\<rparr>\<rparr>) = Return (False, Wrote (Inr 2), es', w')"
  using dev_write_completes_with_zero_copy [of "full_world\<lparr>zc := zc_start\<lparr>kick_count := 5\<rparr>\<rparr>" "[65, 66]" 2048]
    full_world(1)
  by (simp add: layout_simps numeral_2_eq_2)

text \<open>
  C39. A signal loses the count and leaves the flag. A write longer than the room that a signal
  interrupts returns \<open>ERESTARTSYS\<close> although the bytes that fitted are published (a
  restarted call writes them again), and the sleep flag stays raised with nobody asleep.
\<close>

theorem dev_write_interrupted:
  assumes "char_inv (page w)"
    and "TELEMETRY_RING_BUFFER_CAPACITY - 1 - length (char_content (page w)) < length xs"
  shows "\<exists>w'. dev_write (map Some xs) [Signal] w = Return (False, Wrote (Inl ERESTARTSYS), [], w')
    \<and> char_content (page w') = char_content (page w)
        @ take (TELEMETRY_RING_BUFFER_CAPACITY - 1 - length (char_content (page w))) xs
    \<and> writer_asleep (page w')"
proof -
  let ?room = "TELEMETRY_RING_BUFFER_CAPACITY - 1 - length (char_content (page w))"
  obtain y ys where ys: "drop ?room xs = y # ys" using assms(2) by (cases "drop ?room xs") auto
  have split: "map Some xs = map Some (take ?room xs) @ Some y # map Some ys"
    by (metis append_take_drop_id list.simps(9) map_append ys)
  obtain w1 where w1: "dev_write_loop (map Some xs) 0 [Signal] w
      = dev_write_loop (Some y # map Some ys) (0 + length (take ?room xs)) [Signal] w1"
    "char_inv (page w1)" "char_content (page w1) = char_content (page w) @ take ?room xs"
    using dev_write_loop_fill [OF assms(1), of "take ?room xs" "Some y # map Some ys" 0 "[Signal]"]
    by (auto simp: split)
  have full: "\<not> has_room (page w1)"
    using w1(2,3) assms(2) char_fifo.content_le [OF assms(1)] by (simp add: has_room_iff)
  then have "wait_event_interruptible [Signal] (upd_page raise_asleep w1)
      = Return (Interrupted, [], upd_page raise_asleep w1)"
    by (simp add: wait_event_eq)
  from dev_write_full [OF full this] w1 assms(2) show ?thesis
    by (auto simp: dev_write_def)
qed

theorem dev_write_interrupted_witness:
  "\<exists>w'. dev_write (map Some [65]) [Signal] full_world
      = Return (False, Wrote (Inl ERESTARTSYS), [], w') \<and> writer_asleep (page w')"
  using dev_write_interrupted [OF full_world(1), of "[65]"] full_world(2)
  by (auto simp: layout_simps)

end
