(* ===== verification/SlotConsumer.thy ===== *)
theory SlotConsumer
  imports TicketRing
begin

text \<open>
  The outer loop that the packet consumer and the block consumer share: while the run signal
  is set, one walk over the ring and then a store of the new position. The producers run
  between the passes. The locale extends the ticket ring by that store and states what a
  consumer gets from any sequence of batches of pushes.
\<close>

section \<open>Passes\<close>

text \<open>
  One entry of the environment per iteration of the loop: what happened to the page since
  the previous walk. The result is the final page and, for each pass, the page it saw and
  what it did.
\<close>

fun run_passes ::
  "('s \<Rightarrow> u32 \<Rightarrow> u32 \<times> action list) \<Rightarrow> (u32 \<Rightarrow> 's \<Rightarrow> 's) \<Rightarrow> ('s \<Rightarrow> 's) list \<Rightarrow> 's \<Rightarrow> u32 \<Rightarrow>
     's \<times> ('s \<times> action list) list" where
  "run_passes walk store_rd [] s e = (s, [])"
| "run_passes walk store_rd (env # envs) s e =
     (let s1 = env s;
          (e', acts) = walk s1 e;
          (s', passes) = run_passes walk store_rd envs (store_rd e' s1) e'
      in (s', (s1, acts) # passes))"

definition delivered :: "nat \<Rightarrow> ('s \<Rightarrow> nat \<Rightarrow> 'm) \<Rightarrow> ('s \<times> action list) list \<Rightarrow> (u32 \<times> 'm) list" where
  "delivered n pay passes =
     concat (map (\<lambda>(s, acts). map (\<lambda>e. (e, pay s (slot_of n e))) (accepted acts)) passes)"

lemma delivered_simps [simp]:
  "delivered n pay [] = []"
  "delivered n pay ((s, acts) # passes) =
     map (\<lambda>e. (e, pay s (slot_of n e))) (accepted acts) @ delivered n pay passes"
  by (simp_all add: delivered_def)

text \<open>The entries \<open>a .. b - 1\<close> of a history with their tickets.\<close>

definition entries :: "'m list \<Rightarrow> nat \<Rightarrow> nat \<Rightarrow> (u32 \<times> 'm) list" where
  "entries h a b = map (\<lambda>i. (of_nat i, h ! i)) [a..<b]"

lemma entries_append: "a \<le> b \<Longrightarrow> b \<le> c \<Longrightarrow> entries h a b @ entries h b c = entries h a c"
  using upt_add_eq_append [of a b "c - b"] by (simp add: entries_def)

lemma entries_prefix: "b \<le> length h \<Longrightarrow> entries (h @ g) a b = entries h a b"
  by (auto simp: entries_def nth_append)

lemma entries_empty [simp]: "entries h a a = []"
  by (simp add: entries_def)

text \<open>What a consumer that recovers from laps gets: after each batch, what is still there.\<close>

fun recovered :: "nat \<Rightarrow> nat \<Rightarrow> 'm list \<Rightarrow> 'm list list \<Rightarrow> (u32 \<times> 'm) list" where
  "recovered n t h [] = []"
| "recovered n t h (b # bs) =
     (let h' = h @ b; d = length h'
      in entries h' (max t (d - n)) d @ recovered n d h' bs)"

section \<open>A consumer of a ticket ring\<close>

locale ticket_consumer = ticket_ring n ok counter tick pay push
  for n :: nat and ok :: "'s \<Rightarrow> bool" and counter tick
    and pay :: "'s \<Rightarrow> nat \<Rightarrow> 'm" and push +
  fixes store_rd :: "u32 \<Rightarrow> 's \<Rightarrow> 's" and rd :: "'s \<Rightarrow> u32"
  assumes small: "n < 2 ^ 31"
    and store_ok: "ok s \<Longrightarrow> ok (store_rd e s)"
    and store_counter: "counter (store_rd e s) = counter s"
    and store_tick: "tick (store_rd e s) = tick s"
    and rd_store: "rd (store_rd e s) = e"
    and store_pay: "pay (store_rd e s) = pay s"
begin

lemma holds_store: "holds h (store_rd e s) = holds h s"
  by (simp add: store_counter store_tick store_pay)

lemma holds_entries:
  assumes "holds h s" "length h < 2 ^ 32" "length h \<le> a + n" "b \<le> length h"
  shows "map (\<lambda>e. (e, pay s (slot_of n e))) (map of_nat [a..<b]) = entries h a b"
proof -
  have "pay s (slot_of n (of_nat i)) = h ! i" if "a \<le> i" "i < b" for i
  proof -
    have "unat (of_nat i :: u32) = i" by (rule unat_of_nat_small) (use that assms in simp)
    then show ?thesis using that assms by (simp add: ring_holds_def slot_of_def)
  qed
  then show ?thesis by (auto simp: entries_def)
qed

text \<open>The page of the next pass.\<close>

lemma batch_holds:
  assumes "ok s" "holds h s" "length (h @ concat (b # bs)) < 2 ^ 32"
  shows "ok (fold push b s)" "holds (h @ b) (fold push b s)"
    "ok (store_rd e (fold push b s))" "holds (h @ b) (store_rd e (fold push b s))"
  using holds_push_all [OF assms(1,2), of b] assms(3) store_ok holds_store by auto

text \<open>
  Scatter-Gather that is never lapped delivers everything, once and in order.
\<close>

lemma gather_passes:
  assumes "ok s" "holds h s" "length (h @ concat bs) < 2 ^ 32"
    and "\<forall>b bs'. bs = b # bs' \<longrightarrow> 0 < length (h @ b) \<and> t \<le> length (h @ b) \<and> length (h @ b) \<le> t + n"
    and "\<forall>b \<in> set (tl bs). length b \<le> n"
    and "bs = [] \<longrightarrow> t = length h"
    and "run_passes (\<lambda>s. gather n (tick s)) store_rd (map (fold push) bs) s (of_nat t) = (s', passes)"
  shows "ok s' \<and> holds (h @ concat bs) s'
    \<and> delivered n pay passes = entries (h @ concat bs) t (length (h @ concat bs))
    \<and> (bs \<noteq> [] \<longrightarrow> rd s' = of_nat (length (h @ concat bs)))"
  using assms
proof (induction bs arbitrary: s h t passes)
  case Nil
  then show ?case by simp
next
  case (Cons b bs)
  let ?s = "fold push b s" and ?h = "h @ b"
  have first: "0 < length ?h" "t \<le> length ?h" "length ?h \<le> t + n" using Cons.prems(4) by auto
  have n32: "n < 2 ^ 32" using small by simp
  note page = batch_holds [OF Cons.prems(1,2,3)]
  have walk: "gather n (tick ?s) (of_nat t) = (of_nat (length ?h),
      visits (map of_nat [t..<length ?h]) @ [Examine (of_nat (length ?h))])"
    by (rule gather_history [OF slots n32 page(2)]) (use first Cons.prems(3) in auto)
  obtain rest where rest: "run_passes (\<lambda>s. gather n (tick s)) store_rd (map (fold push) bs)
      (store_rd (of_nat (length ?h)) ?s) (of_nat (length ?h)) = (s', rest)"
    "passes = (?s, visits (map of_nat [t..<length ?h]) @ [Examine (of_nat (length ?h))]) # rest"
    using Cons.prems(7) walk by (auto simp: Let_def split: prod.splits)
  have IH: "ok s' \<and> holds (?h @ concat bs) s' \<and> delivered n pay rest
      = entries (?h @ concat bs) (length ?h) (length (?h @ concat bs))
    \<and> (bs \<noteq> [] \<longrightarrow> rd s' = of_nat (length (?h @ concat bs)))"
  proof (rule Cons.IH [OF page(3,4)])
    show "\<forall>c cs. bs = c # cs \<longrightarrow> 0 < length (?h @ c) \<and> length ?h \<le> length (?h @ c) \<and> length (?h @ c) \<le> length ?h + n"
      using first Cons.prems(5) by auto
    show "\<forall>b \<in> set (tl bs). length b \<le> n"
      using Cons.prems(5) by (cases bs) auto
  qed (use rest Cons.prems in auto)
  have "length ?h < 2 ^ 32" using Cons.prems(3) by simp
  then have "map (\<lambda>e. (e, pay ?s (slot_of n e))) (map of_nat [t..<length ?h]) = entries ?h t (length ?h)"
    using holds_entries [OF page(2)] first by blast
  also have "\<dots> = entries (?h @ concat bs) t (length ?h)"
    using entries_prefix [of "length ?h" ?h] by simp
  finally show ?case
    using IH rest rd_store entries_append [of t "length ?h" "length (?h @ concat bs)"] first(2)
    by (cases "bs = []") (auto simp del: map_map)
qed

text \<open>
  Scatter-Gather that was lapped once never delivers anything again.
\<close>

lemma gather_passes_lapped:
  assumes "ok s" "holds h s" "length (h @ concat bs) < 2 ^ 32" "t + n < length h"
    and "run_passes (\<lambda>s. gather n (tick s)) store_rd (map (fold push) bs) s (of_nat t) = (s', passes)"
  shows "holds (h @ concat bs) s' \<and> delivered n pay passes = []
    \<and> (bs \<noteq> [] \<longrightarrow> rd s' = of_nat t)"
  using assms
proof (induction bs arbitrary: s h passes)
  case Nil
  then show ?case by simp
next
  case (Cons b bs)
  let ?s = "fold push b s" and ?h = "h @ b"
  note page = batch_holds [OF Cons.prems(1,2,3)]
  have n32: "n < 2 ^ 32" using small by simp
  have walk: "gather n (tick ?s) (of_nat t) = (of_nat t, [Examine (of_nat t)])"
    by (rule gather_lapped [OF slots n32 page(2)]) (use Cons.prems(3,4) in auto)
  obtain rest where rest: "run_passes (\<lambda>s. gather n (tick s)) store_rd (map (fold push) bs)
      (store_rd (of_nat t) ?s) (of_nat t) = (s', rest)" "passes = (?s, [Examine (of_nat t)]) # rest"
    using Cons.prems(5) walk by (auto simp: Let_def split: prod.splits)
  have "holds (?h @ concat bs) s' \<and> delivered n pay rest = [] \<and> (bs \<noteq> [] \<longrightarrow> rd s' = of_nat t)"
    by (rule Cons.IH [OF page(3,4)]) (use Cons.prems rest in auto)
  then show ?case using rest rd_store by (cases "bs = []") auto
qed

text \<open>
  Skip-Ahead whose hint is the ticket counter recovers from every lap: each pass delivers
  what is still in the ring.
\<close>

lemma skip_passes:
  assumes "ok s" "holds h s" "length (h @ concat bs) < 2 ^ 31 - 1"
    and "\<forall>b bs'. bs = b # bs' \<longrightarrow> 0 < length (h @ b) \<and> t \<le> length (h @ b)"
    and "run_passes (\<lambda>s. skip n (tick s) (counter s)) store_rd (map (fold push) bs) s (of_nat t)
      = (s', passes)"
  shows "holds (h @ concat bs) s' \<and> delivered n pay passes = recovered n t h bs
    \<and> (bs \<noteq> [] \<longrightarrow> rd s' = of_nat (length (h @ concat bs)))"
  using assms
proof (induction bs arbitrary: s h t passes)
  case Nil
  then show ?case by simp
next
  case (Cons b bs)
  let ?s = "fold push b s" and ?h = "h @ b"
  let ?d = "length ?h"
  have first: "0 < ?d" "t \<le> ?d" using Cons.prems(4) by auto
  have len: "length (h @ concat (b # bs)) < 2 ^ 32" using Cons.prems(3) by simp
  note page = batch_holds [OF Cons.prems(1,2) len]
  have counter: "counter ?s = of_nat ?d" using page(2) by (simp add: ring_holds_def)
  obtain acts where acts: "skip n (tick ?s) (of_nat ?d) (of_nat t) = (of_nat (if ?d \<le> ?d + n
      then max t (min (?d + 1) ?d) else t), acts)"
    "accepted acts = map of_nat [max t (?d - n)..<min (?d + 1) ?d]"
    using skip_history [OF slots page(2) first(1), of ?d t] Cons.prems(3) first(2) by auto
  then have walk: "skip n (tick ?s) (counter ?s) (of_nat t) = (of_nat ?d, acts)"
    using first(2) counter by (simp add: max_def)
  obtain rest where rest: "run_passes (\<lambda>s. skip n (tick s) (counter s)) store_rd (map (fold push) bs)
      (store_rd (of_nat ?d) ?s) (of_nat ?d) = (s', rest)" "passes = (?s, acts) # rest"
    using Cons.prems(5) walk by (auto simp: Let_def split: prod.splits)
  have IH: "holds (?h @ concat bs) s' \<and> delivered n pay rest = recovered n ?d ?h bs
    \<and> (bs \<noteq> [] \<longrightarrow> rd s' = of_nat (length (?h @ concat bs)))"
    by (rule Cons.IH [OF page(3,4)]) (use Cons.prems(3) first rest in auto)
  have "map (\<lambda>e. (e, pay ?s (slot_of n e))) (accepted acts) = entries ?h (max t (?d - n)) ?d"
    unfolding acts(2) using holds_entries [OF page(2), of "max t (?d - n)" ?d] len by simp
  then show ?case using IH rest rd_store by (cases "bs = []") (auto simp: Let_def)
qed

end

end
