(* ===== verification/NetConsumer.thy ===== *)
theory NetConsumer
  imports NetFilter SlotConsumer
begin

text \<open>
  The packet consumer (\<open>user/net_filter_client.c\<close>,
  \<open>zero_copy_consumer_thread\<close> and \<open>process_metric\<close>): the two engines on the mapped
  page, what they print, and what they deliver of the packets that the hook recorded.
\<close>

section \<open>The thread\<close>

datatype consumer_mode = MODE_SCATTER_GATHER | MODE_SKIP_AHEAD

text \<open>\<open>process_metric\<close> prints the ticket and the metric of a slot.\<close>

definition process_metric :: "u8 list \<Rightarrow> nat \<Rightarrow> u32 \<times> net_packet_metric" where
  "process_metric pool i = (net_slot_ticket pool i, net_slot_metric pool i)"

text \<open>
  Both engines print every slot that they look at, and once more when they accept it.
\<close>

definition net_log :: "shared_ring \<times> action list \<Rightarrow> (u32 \<times> net_packet_metric) list" where
  "net_log pass = (case pass of (r, acts) \<Rightarrow>
     map (\<lambda>a. process_metric (net_buffer r) (slot_of NETFILTER_SLOT_CAPACITY
       (case a of Examine e \<Rightarrow> e | Accept e \<Rightarrow> e))) acts)"

text \<open>
  One iteration of the loop: Scatter-Gather walks a copy of the buffer, Skip-Ahead the
  buffer itself up to the write hint. The page does not change during the walk.
\<close>

definition net_walk :: "consumer_mode \<Rightarrow> shared_ring \<Rightarrow> u32 \<Rightarrow> u32 \<times> action list" where
  "net_walk mode r expected_ticket = (case mode of
     MODE_SCATTER_GATHER \<Rightarrow>
       (let local_snapshot = net_buffer r
        in gather NETFILTER_SLOT_CAPACITY (net_slot_ticket local_snapshot) expected_ticket)
   | MODE_SKIP_AHEAD \<Rightarrow>
       (let highest_hint = wr_idx (net_ctl r)
        in skip NETFILTER_SLOT_CAPACITY (net_slot_ticket (net_buffer r)) highest_hint
             expected_ticket))"

definition net_store_rd :: "u32 \<Rightarrow> shared_ring \<Rightarrow> shared_ring" where
  "net_store_rd expected_ticket r = r\<lparr>net_ctl := (net_ctl r)\<lparr>rd_idx := expected_ticket\<rparr>\<rparr>"

definition net_thread_begin :: "shared_ring \<Rightarrow> shared_ring" where
  "net_thread_begin r = r\<lparr>net_ctl := (net_ctl r)
     \<lparr>state_flags := state_flags (net_ctl r) OR TELEMETRY_FLAG_NET_THREAD_ACTIVE\<rparr>\<rparr>"

definition net_thread_end :: "shared_ring \<Rightarrow> shared_ring" where
  "net_thread_end r = r\<lparr>net_ctl := (net_ctl r)
     \<lparr>state_flags := state_flags (net_ctl r) AND NOT TELEMETRY_FLAG_NET_THREAD_ACTIVE\<rparr>\<rparr>"

text \<open>
  The thread runs one pass per entry of the environment (what happened to the page before
  that pass) and ends when the run signal is cleared, after the last one.
\<close>

definition zero_copy_consumer_thread ::
  "consumer_mode \<Rightarrow> (shared_ring \<Rightarrow> shared_ring) list \<Rightarrow> shared_ring \<Rightarrow>
     shared_ring \<times> (shared_ring \<times> action list) list" where
  "zero_copy_consumer_thread mode envs r =
     (let r1 = net_thread_begin r;
          expected_ticket = rd_idx (net_ctl r1);
          (r2, passes) = run_passes (net_walk mode) net_store_rd envs r1 expected_ticket
      in (net_thread_end r2, passes))"

text \<open>Batches of packets that the hook records between the passes.\<close>

definition net_arrivals :: "net_packet_metric list list \<Rightarrow> (shared_ring \<Rightarrow> shared_ring) list" where
  "net_arrivals batches = map (fold (record_packet [])) batches"

section \<open>The consumer on the hook's ring\<close>

interpretation net_consumer: ticket_consumer 24 page_ok "\<lambda>r. ticket_dispenser (net_ctl r)" net_tick
  net_pay "record_packet []" net_store_rd "\<lambda>r. rd_idx (net_ctl r)"
  by unfold_locales (auto simp: net_store_rd_def page_ok_def)

lemma net_flags_neutral [simp]:
  "page_ok (net_thread_begin r) = page_ok r" "page_ok (net_thread_end r) = page_ok r"
  "net_buffer (net_thread_begin r) = net_buffer r" "net_buffer (net_thread_end r) = net_buffer r"
  "ticket_dispenser (net_ctl (net_thread_begin r)) = ticket_dispenser (net_ctl r)"
  "ticket_dispenser (net_ctl (net_thread_end r)) = ticket_dispenser (net_ctl r)"
  "rd_idx (net_ctl (net_thread_begin r)) = rd_idx (net_ctl r)"
  "rd_idx (net_ctl (net_thread_end r)) = rd_idx (net_ctl r)"
  "wr_idx (net_ctl (net_thread_begin r)) = wr_idx (net_ctl r)"
  by (simp_all add: net_thread_begin_def net_thread_end_def page_ok_def)

lemma net_walk_gather:
  "net_walk MODE_SCATTER_GATHER = (\<lambda>r. gather 24 (net_tick r))"
  by (simp add: net_walk_def net_slot_capacity fun_eq_iff)

lemma net_thread_split:
  "zero_copy_consumer_thread mode envs r = (r', passes) \<longleftrightarrow>
    (\<exists>r2. run_passes (net_walk mode) net_store_rd envs (net_thread_begin r) (rd_idx (net_ctl r))
       = (r2, passes) \<and> r' = net_thread_end r2)"
  by (auto simp: zero_copy_consumer_thread_def Let_def split: prod.splits)

section \<open>The bounded hint\<close>

lemma hint_of_record: "unat (wr_idx (net_ctl (record_packet others m r))) \<le> 24"
proof -
  have "unat (ticket_dispenser (net_ctl r)) mod 24 < 24" by simp
  then show ?thesis
    using unat_slot_succ [of "ticket_dispenser (net_ctl r)"] by (simp add: record_packet_effect Let_def)
qed

lemma hint_of_batch:
  "unat (wr_idx (net_ctl r)) \<le> 24 \<Longrightarrow> unat (wr_idx (net_ctl (fold (record_packet []) ms r))) \<le> 24"
  using hint_of_record by (induction ms arbitrary: r) auto

lemma skip_below_hint:
  assumes "unat hint \<le> 24" "unat e \<le> 25" "skip n tick hint e = (e', acts)"
  shows "unat e \<le> unat e' \<and> unat e' \<le> 25 \<and> length (accepted acts) \<le> unat e' - unat e"
proof (cases "unat e \<le> unat hint + 1")
  case True
  obtain t' acts' where walk: "skip n tick (of_nat (unat hint)) (of_nat (unat e)) = (of_nat t', acts')"
    "unat e \<le> t'" "t' \<le> unat hint + 1" "accepted acts' = map of_nat (hits_in n tick (unat e) t')"
    using skip_nat [of "unat hint" "unat e" n tick] True assms(1) by auto
  have eq: "e' = of_nat t'" "acts = acts'" using walk(1) assms(3) by simp_all
  have "unat e' = t'" unfolding eq(1) by (rule unat_of_nat_small) (use walk(3) assms(1) in simp)
  moreover have "length (hits_in n tick (unat e) t') \<le> t' - unat e"
    unfolding hits_in_def by (rule order_trans [OF length_filter_le]) simp
  ultimately show ?thesis using walk eq(2) assms(1) by simp
next
  case False
  have "\<not> within (of_nat (unat hint)) (of_nat (unat e))"
    using within_of_nat [of "unat hint" "unat e"] False assms(1,2) by simp
  then have "skip n tick hint e = (e, [])" by (subst skip.simps) simp
  then show ?thesis using assms(2,3) by simp
qed

lemma net_skip_passes:
  assumes "unat (wr_idx (net_ctl r)) \<le> 24" "unat e \<le> 25"
    and "run_passes (net_walk MODE_SKIP_AHEAD) net_store_rd (net_arrivals batches) r e = (r', passes)"
  shows "length (delivered n net_pay passes) \<le> 25 - unat e
    \<and> (batches \<noteq> [] \<longrightarrow> unat (rd_idx (net_ctl r')) \<le> 25)"
  using assms
proof (induction batches arbitrary: r e passes)
  case Nil
  then show ?case by (simp add: net_arrivals_def)
next
  case (Cons b bs)
  let ?r = "fold (record_packet []) b r"
  obtain e' acts where walk: "net_walk MODE_SKIP_AHEAD ?r e = (e', acts)" by (cases "net_walk MODE_SKIP_AHEAD ?r e")
  then have step: "unat e \<le> unat e'" "unat e' \<le> 25" "length (accepted acts) \<le> unat e' - unat e"
    using skip_below_hint [OF hint_of_batch [OF Cons.prems(1)] Cons.prems(2)]
    by (auto simp: net_walk_def Let_def)
  obtain rest where rest: "passes = (?r, acts) # rest"
    "run_passes (net_walk MODE_SKIP_AHEAD) net_store_rd (net_arrivals bs) (net_store_rd e' ?r) e'
      = (r', rest)"
    using Cons.prems(3) walk by (auto simp: net_arrivals_def Let_def split: prod.splits)
  have "unat (wr_idx (net_ctl (net_store_rd e' ?r))) \<le> 24"
    using hint_of_batch [OF Cons.prems(1)] by (simp add: net_store_rd_def)
  note IH = Cons.IH [OF this step(2) rest(2)]
  have "unat (rd_idx (net_ctl r')) \<le> 25"
    using IH rest(2) step(2) by (cases "bs = []") (auto simp: net_arrivals_def net_store_rd_def)
  then show ?case using IH step rest(1) by simp
qed

section \<open>The fresh page\<close>

definition zero_metric :: net_packet_metric where
  "zero_metric = \<lparr>src_ip = 0, dest_ip = 0, src_port = 0, dest_port = 0, pkt_len = 0\<rparr>"

lemma le_word_zeroes: "le_word (replicate k 0) = 0"
  by (induction k) simp_all

lemma zeroed_net_pay: "net_pay zeroed_page 0 = zero_metric"
  by (simp add: net_slot_metric_def zero_metric_def zeroed_page_def layout_simps load16_def
      load32_def read_at_def le_word_zeroes)

lemma net_walk_fresh: "net_walk mode zeroed_page 0 = (1, case mode of
    MODE_SCATTER_GATHER \<Rightarrow> [Examine 0, Accept 0, Examine 1]
  | MODE_SKIP_AHEAD \<Rightarrow> [Examine 0, Accept 0])"
proof -
  have tick: "net_tick zeroed_page 0 = 0" "net_tick zeroed_page 1 = 0"
    by (simp_all add: zeroed_net_tick)
  have "wr_idx (net_ctl zeroed_page) = 0" by (simp add: zeroed_page_def)
  then show ?thesis
    using tick by (cases mode)
      (simp_all add: net_walk_def net_slot_capacity gather.simps skip.simps slot_of_def within_def)
qed

lemma net_begin_fresh:
  "net_walk mode (net_thread_begin r) = net_walk mode r"
  by (simp add: net_walk_def fun_eq_iff split: consumer_mode.split)

lemma record_all_rd: "rd_idx (net_ctl (fold (record_packet []) ms r)) = rd_idx (net_ctl r)"
  by (induction ms arbitrary: r) (simp_all add: record_packet_frame(2,3))

lemma record_all_flags:
  "state_flags (net_ctl (fold (record_packet []) ms r)) = state_flags (net_ctl r)"
  by (induction ms arbitrary: r) (simp_all add: record_packet_frame(2,3))

text \<open>A page on which 25 packets were recorded and none consumed.\<close>

definition lapped_page :: shared_ring where
  "lapped_page = fold (record_packet []) (replicate 25 zero_metric) zeroed_page"

lemma lapped_page_facts:
  "page_ok lapped_page" "net_ring.holds (replicate 25 zero_metric) lapped_page"
  "rd_idx (net_ctl lapped_page) = 0"
proof -
  have "page_ok lapped_page \<and> net_ring.holds ([] @ replicate 25 zero_metric) lapped_page"
    unfolding lapped_page_def
    by (rule net_ring.holds_push_all [OF page_ok_zeroed zeroed_net_holds]) simp
  then show "page_ok lapped_page" "net_ring.holds (replicate 25 zero_metric) lapped_page" by simp_all
  show "rd_idx (net_ctl lapped_page) = 0"
    unfolding lapped_page_def record_all_rd by (simp add: zeroed_page_def)
qed

text \<open>The passes keep every flag.\<close>

lemma net_passes_flags:
  "run_passes (net_walk mode) net_store_rd (net_arrivals batches) r e = (r', passes) \<Longrightarrow>
     state_flags (net_ctl r') = state_flags (net_ctl r)"
  by (induction batches arbitrary: r e passes)
    (auto simp: net_arrivals_def Let_def record_all_flags net_store_rd_def split: prod.splits)

lemma length_accepted_visits_log:
  "net_log (r, visits es @ [Examine e]) =
     concat (map (\<lambda>e. replicate 2 (process_metric (net_buffer r) (slot_of 24 e))) es)
     @ [process_metric (net_buffer r) (slot_of 24 e)]"
  by (induction es) (simp_all add: net_log_def net_slot_capacity numeral_2_eq_2)

section \<open>Properties of the packet consumer\<close>

text \<open>
  C6. Scatter-Gather that is never more than 24 packets behind delivers every recorded packet
  from its position on exactly once, in order and with its ticket, and leaves the position
  at the ticket counter: if at least one packet was recorded before the first pass, fewer than
  \<open>2 ^ 32\<close> are recorded in all, the first pass finds it at most 24 behind, and each later batch has
  at most 24 packets. (Without the first condition the pass over the fresh page accepts an empty
  slot, see below.)
\<close>

theorem net_scatter_gather_delivers:
  assumes "page_ok r"
    and "ring_holds NETFILTER_SLOT_CAPACITY (ticket_dispenser (net_ctl r))
      (net_slot_ticket (net_buffer r)) (net_slot_metric (net_buffer r)) h"
    and "rd_idx (net_ctl r) = of_nat t" "length (h @ concat (b # bs)) < 2 ^ 32"
    and "0 < length (h @ b)" "t \<le> length (h @ b)" "length (h @ b) \<le> t + NETFILTER_SLOT_CAPACITY"
    and "\<forall>c \<in> set bs. length c \<le> NETFILTER_SLOT_CAPACITY"
    and "zero_copy_consumer_thread MODE_SCATTER_GATHER (net_arrivals (b # bs)) r = (r', passes)"
  shows "delivered NETFILTER_SLOT_CAPACITY net_pay passes
      = entries (h @ concat (b # bs)) t (length (h @ concat (b # bs)))
    \<and> rd_idx (net_ctl r') = of_nat (length (h @ concat (b # bs)))
    \<and> rd_idx (net_ctl r') = ticket_dispenser (net_ctl r')"
proof -
  obtain r2 where r2: "run_passes (\<lambda>r. gather 24 (net_tick r)) net_store_rd
      (map (fold (record_packet [])) (b # bs)) (net_thread_begin r) (of_nat t) = (r2, passes)"
    "r' = net_thread_end r2"
    using assms(3,9) by (auto simp: net_thread_split net_walk_gather net_arrivals_def)
  have "page_ok r2 \<and> net_ring.holds (h @ concat (b # bs)) r2
    \<and> delivered 24 net_pay passes = entries (h @ concat (b # bs)) t (length (h @ concat (b # bs)))
    \<and> (b # bs \<noteq> [] \<longrightarrow> rd_idx (net_ctl r2) = of_nat (length (h @ concat (b # bs))))"
    by (rule net_consumer.gather_passes [OF _ _ _ _ _ _ r2(1)])
      (use assms in \<open>auto simp: net_slot_capacity\<close>)
  then show ?thesis using r2(2) by (simp add: ring_holds_def net_slot_capacity)
qed

theorem net_scatter_gather_delivers_witness:
  "\<exists>r' passes. zero_copy_consumer_thread MODE_SCATTER_GATHER
       (net_arrivals [[zero_metric\<lparr>pkt_len := 7\<rparr>, zero_metric], [zero_metric\<lparr>pkt_len := 9\<rparr>]]) zeroed_page
       = (r', passes)
     \<and> map (pkt_len \<circ> snd) (delivered 24 net_pay passes) = [7, 0, 9]
     \<and> map fst (delivered 24 net_pay passes) = [0, 1, 2] \<and> rd_idx (net_ctl r') = 3"
proof -
  let ?b = "[zero_metric\<lparr>pkt_len := 7\<rparr>, zero_metric]" and ?c = "[zero_metric\<lparr>pkt_len := 9\<rparr>]"
  obtain r' passes where run: "zero_copy_consumer_thread MODE_SCATTER_GATHER
      (net_arrivals (?b # [?c])) zeroed_page = (r', passes)" by fastforce
  have rd: "rd_idx (net_ctl zeroed_page) = of_nat 0" by (simp add: zeroed_page_def)
  have "delivered NETFILTER_SLOT_CAPACITY net_pay passes
      = entries ([] @ concat (?b # [?c])) 0 (length ([] @ concat (?b # [?c])))
    \<and> rd_idx (net_ctl r') = of_nat (length ([] @ concat (?b # [?c])))
    \<and> rd_idx (net_ctl r') = ticket_dispenser (net_ctl r')"
    by (rule net_scatter_gather_delivers [OF page_ok_zeroed _ rd _ _ _ _ _ run])
      (use zeroed_net_holds in \<open>auto simp: net_slot_capacity\<close>)
  then show ?thesis
    using run by (auto simp: net_slot_capacity entries_def zero_metric_def upt_rec)
qed

text \<open>
  C35. Once Scatter-Gather is lapped (more than 24 packets behind) it does not deliver a packet
  again, whatever arrives, up to the wrap-around of the counter (fewer than \<open>2 ^ 32\<close> packets in
  all): the position stays where it is.
\<close>

theorem net_scatter_gather_lapped:
  assumes "page_ok r"
    and "ring_holds NETFILTER_SLOT_CAPACITY (ticket_dispenser (net_ctl r))
      (net_slot_ticket (net_buffer r)) (net_slot_metric (net_buffer r)) h"
    and "rd_idx (net_ctl r) = of_nat t" "t + NETFILTER_SLOT_CAPACITY < length h"
    and "length (h @ concat (b # bs)) < 2 ^ 32"
    and "zero_copy_consumer_thread MODE_SCATTER_GATHER (net_arrivals (b # bs)) r = (r', passes)"
  shows "delivered NETFILTER_SLOT_CAPACITY net_pay passes = [] \<and> rd_idx (net_ctl r') = of_nat t"
proof -
  obtain r2 where r2: "run_passes (\<lambda>r. gather 24 (net_tick r)) net_store_rd
      (map (fold (record_packet [])) (b # bs)) (net_thread_begin r) (of_nat t) = (r2, passes)"
    "r' = net_thread_end r2"
    using assms(3,6) by (auto simp: net_thread_split net_walk_gather net_arrivals_def)
  have "net_ring.holds (h @ concat (b # bs)) r2 \<and> delivered 24 net_pay passes = []
    \<and> (b # bs \<noteq> [] \<longrightarrow> rd_idx (net_ctl r2) = of_nat t)"
    by (rule net_consumer.gather_passes_lapped [OF _ _ _ _ r2(1)])
      (use assms in \<open>auto simp: net_slot_capacity\<close>)
  then show ?thesis using r2(2) by (simp add: net_slot_capacity)
qed

theorem net_scatter_gather_lapped_witness:
  "\<exists>r' passes. zero_copy_consumer_thread MODE_SCATTER_GATHER (net_arrivals [[zero_metric], []])
       lapped_page = (r', passes)
     \<and> delivered 24 net_pay passes = [] \<and> rd_idx (net_ctl r') = 0"
proof -
  obtain r' passes where run: "zero_copy_consumer_thread MODE_SCATTER_GATHER
      (net_arrivals ([zero_metric] # [[]])) lapped_page = (r', passes)" by fastforce
  have rd: "rd_idx (net_ctl lapped_page) = of_nat 0" using lapped_page_facts(3) by simp
  have "delivered NETFILTER_SLOT_CAPACITY net_pay passes = [] \<and> rd_idx (net_ctl r') = of_nat 0"
    by (rule net_scatter_gather_lapped [OF lapped_page_facts(1) _ rd _ _ run,
          where h = "replicate 25 zero_metric"])
      (use lapped_page_facts(2) in \<open>simp_all add: net_slot_capacity\<close>)
  then show ?thesis using run by (auto simp: net_slot_capacity)
qed

text \<open>
  C30. Skip-Ahead stops for good after the first lap of the hint: the hint is a slot number,
  so from a position up to 25 the position never passes 25, and the thread delivers at most
  \<open>25 - position\<close> packets however many arrive.
\<close>

theorem net_skip_ahead_stalls:
  assumes "unat (wr_idx (net_ctl r)) \<le> NETFILTER_SLOT_CAPACITY"
    and "unat (rd_idx (net_ctl r)) \<le> NETFILTER_SLOT_CAPACITY + 1"
    and "zero_copy_consumer_thread MODE_SKIP_AHEAD (net_arrivals batches) r = (r', passes)"
  shows "length (delivered NETFILTER_SLOT_CAPACITY net_pay passes)
      \<le> NETFILTER_SLOT_CAPACITY + 1 - unat (rd_idx (net_ctl r))
    \<and> unat (rd_idx (net_ctl r')) \<le> NETFILTER_SLOT_CAPACITY + 1"
proof -
  obtain r2 where r2: "run_passes (net_walk MODE_SKIP_AHEAD) net_store_rd (net_arrivals batches)
      (net_thread_begin r) (rd_idx (net_ctl r)) = (r2, passes)" "r' = net_thread_end r2"
    using assms(3) by (auto simp: net_thread_split)
  have "unat (wr_idx (net_ctl (net_thread_begin r))) \<le> 24" "unat (rd_idx (net_ctl r)) \<le> 25"
    using assms(1,2) by (simp_all add: net_slot_capacity)
  note run = net_skip_passes [OF this r2(1), of 24]
  have "unat (rd_idx (net_ctl r2)) \<le> 25"
    using run r2(1) assms(2) by (cases "batches = []") (auto simp: net_arrivals_def net_slot_capacity)
  then show ?thesis using run r2(2) by (simp add: net_slot_capacity)
qed

theorem net_skip_ahead_stalls_witness:
  "\<exists>r' passes. zero_copy_consumer_thread MODE_SKIP_AHEAD
       (net_arrivals (replicate 100 [zero_metric])) zeroed_page = (r', passes)
     \<and> length (delivered 24 net_pay passes) \<le> 25 \<and> unat (rd_idx (net_ctl r')) \<le> 25"
proof -
  obtain r' passes where run: "zero_copy_consumer_thread MODE_SKIP_AHEAD
      (net_arrivals (replicate 100 [zero_metric])) zeroed_page = (r', passes)" by fastforce
  have zero: "wr_idx (net_ctl zeroed_page) = 0" "rd_idx (net_ctl zeroed_page) = 0"
    by (simp_all add: zeroed_page_def)
  show ?thesis
    using net_skip_ahead_stalls [OF _ _ run] run zero by (auto simp: net_slot_capacity)
qed

text \<open>
  A consumer that runs on the fresh page before the first packet accepts the empty slot 0
  as ticket 0 in both modes; the first packet, which gets that ticket, is then never
  delivered by Scatter-Gather, which delivers all the following ones.
\<close>

theorem net_fresh_page_phantom:
  assumes "b \<noteq> []" "length (concat (b # bs)) < 2 ^ 32" "length b \<le> NETFILTER_SLOT_CAPACITY"
    and "\<forall>c \<in> set bs. length c \<le> NETFILTER_SLOT_CAPACITY"
    and "zero_copy_consumer_thread mode (net_arrivals [[]]) zeroed_page = (r1, passes1)"
    and "zero_copy_consumer_thread MODE_SCATTER_GATHER (net_arrivals ([] # b # bs)) zeroed_page
      = (r', passes)"
  shows "delivered NETFILTER_SLOT_CAPACITY net_pay passes1 = [(0, zero_metric)]
    \<and> rd_idx (net_ctl r1) = 1
    \<and> delivered NETFILTER_SLOT_CAPACITY net_pay passes
      = (0, zero_metric) # entries (concat (b # bs)) 1 (length (concat (b # bs)))"
proof -
  let ?z = "net_thread_begin zeroed_page"
  have zero: "rd_idx (net_ctl zeroed_page) = 0" by (simp add: zeroed_page_def)
  have pay: "net_slot_metric (net_buffer zeroed_page) 0 = zero_metric" using zeroed_net_pay .
  have one: "delivered 24 net_pay passes1 = [(0, zero_metric)]" "rd_idx (net_ctl r1) = 1"
    using assms(5) zero pay
    by (auto simp: net_thread_split net_arrivals_def net_begin_fresh net_walk_fresh
        net_store_rd_def slot_of_def Let_def split: consumer_mode.splits)
  have fresh: "net_walk MODE_SCATTER_GATHER ?z 0 = (1, [Examine 0, Accept 0, Examine 1])"
    by (simp add: net_begin_fresh net_walk_fresh)
  have first: "net_arrivals ([] # b # bs) = (\<lambda>r. r) # net_arrivals (b # bs)"
    by (simp add: net_arrivals_def id_def)
  obtain r2 rest where run: "run_passes (net_walk MODE_SCATTER_GATHER) net_store_rd
      (net_arrivals (b # bs)) (net_store_rd 1 ?z) 1 = (r2, rest)"
    by (cases "run_passes (net_walk MODE_SCATTER_GATHER) net_store_rd
      (net_arrivals (b # bs)) (net_store_rd 1 ?z) 1")
  then have "passes = (?z, [Examine 0, Accept 0, Examine 1]) # rest"
    using assms(6) zero fresh by (auto simp: net_thread_split first Let_def)
  then have rest: "run_passes (\<lambda>r. gather 24 (net_tick r)) net_store_rd
      (map (fold (record_packet [])) (b # bs)) (net_store_rd 1 ?z) (of_nat 1) = (r2, rest)"
    "passes = (?z, [Examine 0, Accept 0, Examine 1]) # rest"
    using run by (simp_all add: net_walk_gather net_arrivals_def)
  have held: "net_ring.holds [] (net_store_rd 1 ?z)"
    using zeroed_net_holds by (simp add: net_consumer.holds_store)
  have ok: "page_ok (net_store_rd 1 ?z)" by (simp add: net_consumer.store_ok)
  have "page_ok r2 \<and> net_ring.holds ([] @ concat (b # bs)) r2
    \<and> delivered 24 net_pay rest = entries ([] @ concat (b # bs)) 1 (length ([] @ concat (b # bs)))
    \<and> (b # bs \<noteq> [] \<longrightarrow> rd_idx (net_ctl r2) = of_nat (length ([] @ concat (b # bs))))"
    by (rule net_consumer.gather_passes [OF ok held _ _ _ _ rest(1)])
      (use assms in \<open>auto simp: net_slot_capacity Suc_le_eq\<close>)
  then show ?thesis
    using one rest(2) pay by (simp add: net_slot_capacity slot_of_def)
qed

theorem net_fresh_page_phantom_witness:
  "\<exists>r' passes. zero_copy_consumer_thread MODE_SCATTER_GATHER
       (net_arrivals [[], [zero_metric\<lparr>pkt_len := 7\<rparr>, zero_metric\<lparr>pkt_len := 9\<rparr>]]) zeroed_page
       = (r', passes)
     \<and> map (pkt_len \<circ> snd) (delivered 24 net_pay passes) = [0, 9]"
proof -
  let ?b = "[zero_metric\<lparr>pkt_len := 7\<rparr>, zero_metric\<lparr>pkt_len := 9\<rparr>]"
  obtain r1 passes1 where run1: "zero_copy_consumer_thread MODE_SKIP_AHEAD (net_arrivals [[]])
      zeroed_page = (r1, passes1)" by fastforce
  obtain r' passes where run: "zero_copy_consumer_thread MODE_SCATTER_GATHER
      (net_arrivals ([] # ?b # [])) zeroed_page = (r', passes)" by fastforce
  have "delivered NETFILTER_SLOT_CAPACITY net_pay passes
      = (0, zero_metric) # entries (concat (?b # [])) 1 (length (concat (?b # [])))"
    using net_fresh_page_phantom [OF _ _ _ _ run1 run] by (simp add: net_slot_capacity)
  then show ?thesis
    using run by (auto simp: net_slot_capacity entries_def zero_metric_def upt_rec)
qed

text \<open>
  C37. On any bytes in the buffer, also those of a user that wrote to its mapping, a
  Scatter-Gather pass ends: it accepts at most 24 successive tickets and stops at the first
  one that is missing. It prints every accepted slot twice and then one slot that it does
  not accept.
\<close>

theorem net_scatter_gather_pass_ends:
  "\<exists>k \<le> NETFILTER_SLOT_CAPACITY.
     fst (net_walk MODE_SCATTER_GATHER r e) = e + of_nat k
   \<and> accepted (snd (net_walk MODE_SCATTER_GATHER r e)) = map (\<lambda>i. e + of_nat i) [0..<k]
   \<and> net_slot_ticket (net_buffer r) (unat (e + of_nat k) mod NETFILTER_SLOT_CAPACITY) \<noteq> e + of_nat k
   \<and> net_log (r, snd (net_walk MODE_SCATTER_GATHER r e)) =
       concat (map (\<lambda>i. replicate 2 (process_metric (net_buffer r)
         (unat (e + of_nat i) mod NETFILTER_SLOT_CAPACITY))) [0..<k])
       @ [process_metric (net_buffer r) (unat (e + of_nat k) mod NETFILTER_SLOT_CAPACITY)]"
proof -
  let ?k = "run_length 24 (net_tick r) e"
  have walk: "net_walk MODE_SCATTER_GATHER r e
      = (e + of_nat ?k, visits (tickets_from e ?k) @ [Examine (e + of_nat ?k)])"
    using gather_spec [of 24 "net_tick r" e] by (simp add: net_walk_gather)
  have "?k \<le> 24" by (rule run_length_le) simp_all
  moreover have "\<not> hit 24 (net_tick r) (e + of_nat ?k)" by (rule run_length_miss) simp_all
  ultimately show ?thesis
    unfolding walk net_slot_capacity
    by (intro exI [of _ ?k])
      (simp add: hit_def slot_of_def tickets_from_def length_accepted_visits_log o_def)
qed

text \<open>
  The thread marks itself active while it runs and not afterwards: during the passes the
  flag is set, at the end it is cleared, and every other flag of the lane is as before.
\<close>

lemma net_thread_active_flag:
  "let (r', passes) = zero_copy_consumer_thread mode (net_arrivals batches) r in
     state_flags (net_ctl r') = state_flags (net_ctl r) AND NOT TELEMETRY_FLAG_NET_THREAD_ACTIVE
   \<and> state_flags (net_ctl (net_thread_begin r)) AND TELEMETRY_FLAG_NET_THREAD_ACTIVE
       = TELEMETRY_FLAG_NET_THREAD_ACTIVE"
proof -
  have cancel: "(f OR a) AND NOT a = f AND NOT a" "(f OR a) AND a = a" for f a :: u32
    by (rule bit_word_eqI; auto simp: bit_simps)+
  show ?thesis
    using net_passes_flags [of mode batches "net_thread_begin r"]
    by (auto simp: zero_copy_consumer_thread_def Let_def net_thread_end_def net_thread_begin_def
        cancel split: prod.splits)
qed

end
