(* ===== verification/BlockFilter.thy ===== *)
theory BlockFilter
  imports TicketRing
begin

text \<open>
  The block-layer hook (\<open>block_filter/telemetry_block.c\<close>): a kprobe on
  \<open>submit_bio\<close> whose handler builds the metric of a bio and commits it to the 8 slots of
  the block buffer. The ticket counter of this ring is the write index of the block lane
  itself. The ring is an interpretation of \<open>ticket_ring\<close>.
\<close>

section \<open>The metric and its slots\<close>

record block_io_metric =
  dev_major :: u32
  dev_minor :: u32
  sector_low :: u32
  sector_high :: u32
  nr_sectors :: u32
  bytes :: u32
  op :: u32
  flags :: u32

definition block_slot_at :: "nat \<Rightarrow> string \<Rightarrow> nat" where
  "block_slot_at i f =
     i * BLOCKFILTER_SLOT_SIZE + the (offsetof False block_payload_slot_members f)"

definition block_metric_at :: "nat \<Rightarrow> string \<Rightarrow> nat" where
  "block_metric_at i f =
     block_slot_at i ''io_metrics'' + the (offsetof True block_io_metric_members f)"

lemma block_offsets [layout_simps]:
  "block_metric_at i ''dev_major'' = i * 64" "block_metric_at i ''dev_minor'' = i * 64 + 4"
  "block_metric_at i ''sector_low'' = i * 64 + 8" "block_metric_at i ''sector_high'' = i * 64 + 12"
  "block_metric_at i ''nr_sectors'' = i * 64 + 16" "block_metric_at i ''bytes'' = i * 64 + 20"
  "block_metric_at i ''op'' = i * 64 + 24" "block_metric_at i ''flags'' = i * 64 + 28"
  "block_slot_at i ''slot_ticket'' = i * 64 + 32"
  by (simp_all add: block_metric_at_def block_slot_at_def member_defs struct_defs layout_simps)

definition block_slot_metric :: "u8 list \<Rightarrow> nat \<Rightarrow> block_io_metric" where
  "block_slot_metric pool i =
     \<lparr>dev_major = load32 (block_metric_at i ''dev_major'') pool,
      dev_minor = load32 (block_metric_at i ''dev_minor'') pool,
      sector_low = load32 (block_metric_at i ''sector_low'') pool,
      sector_high = load32 (block_metric_at i ''sector_high'') pool,
      nr_sectors = load32 (block_metric_at i ''nr_sectors'') pool,
      bytes = load32 (block_metric_at i ''bytes'') pool,
      op = load32 (block_metric_at i ''op'') pool,
      flags = load32 (block_metric_at i ''flags'') pool\<rparr>"

definition block_slot_ticket :: "u8 list \<Rightarrow> nat \<Rightarrow> u32" where
  "block_slot_ticket pool i = load32 (block_slot_at i ''slot_ticket'') pool"

text \<open>The structure assignment \<open>slot->io_metrics = *metric\<close> copies the 32 bytes.\<close>

definition block_metric_bytes :: "block_io_metric \<Rightarrow> u8 list" where
  "block_metric_bytes m = le_bytes 4 (dev_major m) @ le_bytes 4 (dev_minor m)
     @ le_bytes 4 (sector_low m) @ le_bytes 4 (sector_high m) @ le_bytes 4 (nr_sectors m)
     @ le_bytes 4 (bytes m) @ le_bytes 4 (op m) @ le_bytes 4 (flags m)"

definition store_block_metric :: "nat \<Rightarrow> block_io_metric \<Rightarrow> u8 list \<Rightarrow> u8 list" where
  "store_block_metric i m pool =
     write_at (block_slot_at i ''io_metrics'') (block_metric_bytes m) pool"

definition store_block_ticket :: "nat \<Rightarrow> u32 \<Rightarrow> u8 list \<Rightarrow> u8 list" where
  "store_block_ticket i t pool = store32 (block_slot_at i ''slot_ticket'') t pool"

lemmas block_slot_defs = block_slot_metric_def block_slot_ticket_def store_block_metric_def
  store_block_ticket_def

lemma block_io_metrics_at [layout_simps]: "block_slot_at i ''io_metrics'' = i * 64"
  by (simp add: block_slot_at_def member_defs struct_defs layout_simps)

lemma length_block_metric_bytes [simp]: "length (block_metric_bytes m) = 32"
  by (simp add: block_metric_bytes_def)

lemma length_store_block [simp]:
  assumes "length pool = 512" "i < 8"
  shows "length (store_block_metric i m pool) = 512" "length (store_block_ticket i t pool) = 512"
  using assms by (simp_all add: block_slot_defs layout_simps)

text \<open>A field of a stored metric reads back.\<close>

lemma read_at_inside:
  assumes "off + length xs \<le> length bs" "k + n \<le> length xs"
  shows "read_at (off + k) n (write_at off xs bs) = read_at k n xs"
  by (rule nth_equalityI) (use assms in \<open>auto simp: nth_read_at nth_write_at\<close>)

lemma block_metric_fields:
  "read_at 0 4 (block_metric_bytes m) = le_bytes 4 (dev_major m)"
  "read_at 4 4 (block_metric_bytes m) = le_bytes 4 (dev_minor m)"
  "read_at 8 4 (block_metric_bytes m) = le_bytes 4 (sector_low m)"
  "read_at 12 4 (block_metric_bytes m) = le_bytes 4 (sector_high m)"
  "read_at 16 4 (block_metric_bytes m) = le_bytes 4 (nr_sectors m)"
  "read_at 20 4 (block_metric_bytes m) = le_bytes 4 (bytes m)"
  "read_at 24 4 (block_metric_bytes m) = le_bytes 4 (op m)"
  "read_at 28 4 (block_metric_bytes m) = le_bytes 4 (flags m)"
  by (simp_all add: read_at_def block_metric_bytes_def)

lemma block_store_same [byte_simps]:
  assumes "length pool = 512" "i < 8"
  shows "block_slot_metric (store_block_metric i m pool) i = m"
    "block_slot_ticket (store_block_metric i m pool) i = block_slot_ticket pool i"
    "block_slot_ticket (store_block_ticket i t pool) i = t"
    "block_slot_metric (store_block_ticket i t pool) i = block_slot_metric pool i"
proof -
  have "load32 (i * 64 + k) (write_at (i * 64) (block_metric_bytes m) pool)
      = le_word (read_at k 4 (block_metric_bytes m))" if "k + 4 \<le> 32" for k
    using read_at_inside [of "i * 64" "block_metric_bytes m" pool k 4] assms that
    by (simp add: load32_def)
  from this [of 0] this [of 4] this [of 8] this [of 12] this [of 16] this [of 20] this [of 24]
    this [of 28]
  show "block_slot_metric (store_block_metric i m pool) i = m"
    by (simp add: block_slot_defs layout_simps block_metric_fields byte_simps)
qed (use assms in \<open>simp_all add: block_slot_defs layout_simps byte_simps load32_def store32_def read_at_write_other\<close>)

lemma block_store_other [byte_simps]:
  assumes "length pool = 512" "i < 8" "j < 8" "i \<noteq> j"
  shows "block_slot_metric (store_block_metric i m pool) j = block_slot_metric pool j"
    "block_slot_ticket (store_block_metric i m pool) j = block_slot_ticket pool j"
    "block_slot_ticket (store_block_ticket i t pool) j = block_slot_ticket pool j"
    "block_slot_metric (store_block_ticket i t pool) j = block_slot_metric pool j"
  using slots_apart [OF assms(4), of 64] assms(1-3)
  by (elim disjE; simp add: block_slot_defs layout_simps load32_def store32_def
        read_at_write_other)+

section \<open>The handler\<close>

text \<open>
  The parts of a bio that the hook reads. \<open>MAJOR\<close>, \<open>MINOR\<close> and \<open>bio_op\<close> are
  macros of the kernel headers and parameters here; a device pointer is the device number
  that \<open>bio_dev\<close> reads through it.
\<close>

record bio =
  bi_bdev :: "u32 option"
  bi_sector :: u64
  bi_size :: u32
  bi_opf :: u32

record block_api =
  MAJOR :: "u32 \<Rightarrow> u32"
  MINOR :: "u32 \<Rightarrow> u32"
  bio_op :: "bio \<Rightarrow> u32"

definition block_slot_index :: "u32 \<Rightarrow> u32" where
  "block_slot_index my_ticket =
     ucast (ucast my_ticket mod of_nat BLOCKFILTER_SLOT_CAPACITY :: u64)"

definition commit_on_page :: "block_io_metric \<Rightarrow> shared_ring \<Rightarrow> shared_ring" where
  "commit_on_page metric r =
     (let my_ticket = wr_idx (block_ctl r);
          r1 = r\<lparr>block_ctl := (block_ctl r)\<lparr>wr_idx := my_ticket + 1\<rparr>\<rparr>;
          slot_idx = unat (block_slot_index my_ticket);
          r2 = r1\<lparr>block_buffer := store_block_metric slot_idx metric (block_buffer r1)\<rparr>
      in r2\<lparr>block_buffer := store_block_ticket slot_idx my_ticket (block_buffer r2)\<rparr>)"

definition block_telemetry_commit_metric ::
  "block_io_metric option \<Rightarrow> shared_ring option \<Rightarrow> shared_ring option" where
  "block_telemetry_commit_metric metric ring_ptr =
     (case (metric, ring_ptr) of
        (Some m, Some r) \<Rightarrow> if BLOCKFILTER_SLOT_CAPACITY = 0 then Some r else Some (commit_on_page m r)
      | _ \<Rightarrow> ring_ptr)"

definition bio_metric :: "block_api \<Rightarrow> u32 \<Rightarrow> bio \<Rightarrow> block_io_metric" where
  "bio_metric api dev bio =
     (let sector = bi_sector bio; size = bi_size bio in
       \<lparr>dev_major = MAJOR api dev, dev_minor = MINOR api dev,
        sector_low = ucast sector, sector_high = ucast (drop_bit 32 sector),
        nr_sectors = drop_bit 9 size, bytes = size,
        op = bio_op api bio, flags = bi_opf bio\<rparr>)"

definition block_telemetry_bio_submit ::
  "block_api \<Rightarrow> bio option \<Rightarrow> shared_ring option \<Rightarrow> shared_ring option" where
  "block_telemetry_bio_submit api bio ring_ptr =
     (case bio of None \<Rightarrow> ring_ptr | Some b \<Rightarrow>
        (case bi_bdev b of None \<Rightarrow> ring_ptr | Some dev \<Rightarrow>
           block_telemetry_commit_metric (Some (bio_metric api dev b)) ring_ptr))"

text \<open>
  The probe takes the first argument of \<open>submit_bio\<close> from the register that the calling
  convention of the architecture puts it in.
\<close>

datatype arch = CONFIG_X86_64 | CONFIG_ARM64 | Other_arch

record pt_regs =
  di :: "bio option"
  regs0 :: "bio option"

definition block_rq_issue_pre_handler ::
  "arch \<Rightarrow> block_api \<Rightarrow> pt_regs \<Rightarrow> shared_ring option \<Rightarrow> int \<times> shared_ring option" where
  "block_rq_issue_pre_handler arch api regs ring_ptr =
     (let bio = (case arch of CONFIG_X86_64 \<Rightarrow> di regs | CONFIG_ARM64 \<Rightarrow> regs0 regs | Other_arch \<Rightarrow> None)
      in (0, block_telemetry_bio_submit api bio ring_ptr))"

section \<open>The ring\<close>

abbreviation block_tick :: "shared_ring \<Rightarrow> nat \<Rightarrow> u32" where
  "block_tick r \<equiv> block_slot_ticket (block_buffer r)"

abbreviation block_pay :: "shared_ring \<Rightarrow> nat \<Rightarrow> block_io_metric" where
  "block_pay r \<equiv> block_slot_metric (block_buffer r)"

lemma block_slot_index_unat [ring_simps]: "unat (block_slot_index t) = unat t mod 8"
proof -
  have "unat (block_slot_index t) = unat t mod BLOCKFILTER_SLOT_CAPACITY"
    unfolding block_slot_index_def by (rule unat_slot_number) (simp_all add: block_slot_capacity)
  then show ?thesis by (simp add: block_slot_capacity)
qed

lemma block_buffer_length [simp]: "page_ok r \<Longrightarrow> length (block_buffer r) = 512"
  by (simp add: page_ok_def layout_simps)

lemma page_ok_commit [simp]: "page_ok r \<Longrightarrow> page_ok (commit_on_page m r)"
  by (simp add: commit_on_page_def page_ok_def Let_def ring_simps
      TELEMETRY_BLOCKFILTER_RING_BUFFER_CAPACITY_def)

lemma commit_counter: "wr_idx (block_ctl (commit_on_page m r)) = wr_idx (block_ctl r) + 1"
  by (simp add: commit_on_page_def Let_def)

lemma commit_frame:
  "(commit_on_page m r)\<lparr>block_ctl := block_ctl r, block_buffer := block_buffer r\<rparr> = r"
  "rd_idx (block_ctl (commit_on_page m r)) = rd_idx (block_ctl r)"
  "state_flags (block_ctl (commit_on_page m r)) = state_flags (block_ctl r)"
  by (simp_all add: commit_on_page_def Let_def)

lemma commit_slots:
  assumes "page_ok r" "i < 8"
  shows "block_tick (commit_on_page m r) i =
      (if i = unat (wr_idx (block_ctl r)) mod 8 then wr_idx (block_ctl r) else block_tick r i)"
    and "block_pay (commit_on_page m r) i =
      (if i = unat (wr_idx (block_ctl r)) mod 8 then m else block_pay r i)"
  using assms by (auto simp: commit_on_page_def Let_def ring_simps byte_simps)

interpretation block_ring: ticket_ring 8 page_ok "\<lambda>r. wr_idx (block_ctl r)" block_tick block_pay
  commit_on_page
  by unfold_locales (auto simp: commit_slots commit_counter)

lemma zeroed_block_tick: "i < 8 \<Longrightarrow> block_tick zeroed_page i = 0"
proof -
  assume i: "i < 8"
  have "read_at (i * 64 + 32) 4 (replicate 512 (0 :: u8)) = replicate 4 0"
    using i by (intro nth_equalityI) (auto simp: nth_read_at)
  then have "load32 (i * 64 + 32) (replicate 512 0) = le_word (replicate 4 (0 :: u8))"
    by (simp add: load32_def)
  also have "\<dots> = 0" by (simp add: numeral_eq_Suc)
  finally show ?thesis by (simp add: block_slot_ticket_def zeroed_page_def layout_simps)
qed

lemma zeroed_block_holds: "block_ring.holds [] zeroed_page"
  using zeroed_block_tick by (auto simp: ring_holds_def) (simp add: zeroed_page_def zero_lane_def)

section \<open>Sequences of requests\<close>

definition probe_step ::
  "arch \<Rightarrow> block_api \<Rightarrow> pt_regs \<Rightarrow> shared_ring option \<Rightarrow> shared_ring option" where
  "probe_step arch api regs ring_ptr = snd (block_rq_issue_pre_handler arch api regs ring_ptr)"

text \<open>The metric that the probe commits for a call of \<open>submit_bio\<close>, if it commits one.\<close>

definition probed_metric :: "arch \<Rightarrow> block_api \<Rightarrow> pt_regs \<Rightarrow> block_io_metric option" where
  "probed_metric arch api regs =
     Option.bind (case arch of CONFIG_X86_64 \<Rightarrow> di regs | CONFIG_ARM64 \<Rightarrow> regs0 regs | Other_arch \<Rightarrow> None)
       (\<lambda>b. map_option (\<lambda>dev. bio_metric api dev b) (bi_bdev b))"

lemma probe_step_Some:
  "probe_step arch api regs (Some r) = Some (case probed_metric arch api regs of
     None \<Rightarrow> r | Some m \<Rightarrow> commit_on_page m r)"
  by (auto simp: probe_step_def block_rq_issue_pre_handler_def block_telemetry_bio_submit_def
      block_telemetry_commit_metric_def probed_metric_def block_slot_capacity Let_def
      split: option.splits arch.splits)

lemma probe_run:
  "fold (probe_step arch api) calls (Some r)
     = Some (fold commit_on_page (List.map_filter (probed_metric arch api) calls) r)"
  by (induction calls arbitrary: r)
    (auto simp: probe_step_Some List.map_filter_simps split: option.splits)

section \<open>Registration\<close>

text \<open>
  \<open>register_kprobe\<close> is a parameter: the code that it returns. It has registered the probe
  if and only if that code is 0.
\<close>

record kprobe =
  symbol_name :: string
  pre_handler_set :: bool

record block_filter_state =
  block_rq_issue_kprobe :: kprobe
  probes :: "kprobe list"

definition block_filter_init ::
  "(kprobe \<Rightarrow> int) \<Rightarrow> block_filter_state \<Rightarrow> int \<times> block_filter_state" where
  "block_filter_init register_kprobe s =
     (let kp = (block_rq_issue_kprobe s)\<lparr>symbol_name := ''submit_bio'', pre_handler_set := True\<rparr>;
          s' = s\<lparr>block_rq_issue_kprobe := kp\<rparr>;
          ret = register_kprobe kp
      in if ret \<noteq> 0 then (ret, s') else (0, s'\<lparr>probes := kp # probes s\<rparr>))"

definition block_filter_exit :: "block_filter_state \<Rightarrow> block_filter_state" where
  "block_filter_exit s = s\<lparr>probes := remove1 (block_rq_issue_kprobe s) (probes s)\<rparr>"

text \<open>
  A sample: a write of 4096 bytes at a sector above \<open>2 ^ 32\<close>, with the macros as the
  kernel documents them (20 bits of minor, 8 bits of operation).
\<close>

definition sample_api :: block_api where
  "sample_api = \<lparr>MAJOR = drop_bit 20, MINOR = take_bit 20, bio_op = (\<lambda>b. take_bit 8 (bi_opf b))\<rparr>"

definition sample_regs :: pt_regs where
  "sample_regs = \<lparr>di = Some \<lparr>bi_bdev = Some 0x800001, bi_sector = 0x100000007, bi_size = 4096,
     bi_opf = 0x801\<rparr>, regs0 = None\<rparr>"

lemma sample_probed:
  "probed_metric CONFIG_X86_64 sample_api sample_regs = Some \<lparr>dev_major = 8, dev_minor = 1,
     sector_low = 7, sector_high = 1, nr_sectors = 8, bytes = 4096, op = 1, flags = 0x801\<rparr>"
  by (simp add: probed_metric_def sample_regs_def sample_api_def bio_metric_def Let_def)

section \<open>Properties of the block hook\<close>

text \<open>
  A call of \<open>submit_bio\<close> with a bio on a device takes the next ticket of the block
  lane and is stored, with that ticket, in slot \<open>ticket mod 8\<close>; no other slot and nothing
  else on the page changes. Without a bio or a device, or on another architecture than
  x86_64 and arm64, the page stays as it is. The handler always returns 0.
\<close>

theorem block_probe_effect:
  assumes "page_ok r"
  shows "\<exists>r'. block_rq_issue_pre_handler arch api regs (Some r) = (0, Some r') \<and> page_ok r' \<and>
    (case probed_metric arch api regs of
       None \<Rightarrow> r' = r
     | Some m \<Rightarrow>
         let t = wr_idx (block_ctl r); n = BLOCKFILTER_SLOT_CAPACITY in
           wr_idx (block_ctl r') = t + 1
           \<and> block_slot_metric (block_buffer r') (unat t mod n) = m
           \<and> block_slot_ticket (block_buffer r') (unat t mod n) = t
           \<and> (\<forall>i < n. i \<noteq> unat t mod n \<longrightarrow>
                block_slot_metric (block_buffer r') i = block_slot_metric (block_buffer r) i
                \<and> block_slot_ticket (block_buffer r') i = block_slot_ticket (block_buffer r) i)
           \<and> rd_idx (block_ctl r') = rd_idx (block_ctl r)
           \<and> state_flags (block_ctl r') = state_flags (block_ctl r)
           \<and> r'\<lparr>block_ctl := block_ctl r, block_buffer := block_buffer r\<rparr> = r)"
proof -
  have handler: "block_rq_issue_pre_handler arch api regs (Some r) =
      (0, Some (case probed_metric arch api regs of None \<Rightarrow> r | Some m \<Rightarrow> commit_on_page m r))"
    using probe_step_Some [of arch api regs r]
    by (simp add: probe_step_def block_rq_issue_pre_handler_def Let_def)
  show ?thesis
    using assms commit_slots [OF assms] commit_frame commit_counter
    by (cases "probed_metric arch api regs") (simp_all add: handler block_slot_capacity Let_def)
qed

theorem block_probe_effect_witness:
  "\<exists>r'. block_rq_issue_pre_handler CONFIG_X86_64 sample_api sample_regs (Some zeroed_page)
       = (0, Some r')
     \<and> wr_idx (block_ctl r') = 1 \<and> nr_sectors (block_slot_metric (block_buffer r') 0) = 8"
proof -
  have "wr_idx (block_ctl zeroed_page) = 0" by (simp add: zeroed_page_def zero_lane_def)
  then show ?thesis
    using block_probe_effect [OF page_ok_zeroed, of CONFIG_X86_64 sample_api sample_regs]
    by (auto simp: sample_probed Let_def)
qed

text \<open>
  C24. From the fresh page, after any sequence of calls whatever its length, the block ring holds
  exactly the last 8 requests in their slots with their tickets, and the write index is their
  number. Tickets and write index are counted modulo \<open>2 ^ 32\<close>, and 8 divides that: the
  wrap-around changes nothing.
\<close>

theorem block_history:
  "\<exists>r. fold (probe_step arch api) calls (Some zeroed_page) = Some r \<and> page_ok r
    \<and> ring_holds BLOCKFILTER_SLOT_CAPACITY (wr_idx (block_ctl r))
        (block_slot_ticket (block_buffer r)) (block_slot_metric (block_buffer r))
        (List.map_filter (probed_metric arch api) calls)"
  using block_ring.holds_push_all [OF page_ok_zeroed zeroed_block_holds,
      of "List.map_filter (probed_metric arch api) calls"]
  by (simp add: probe_run block_slot_capacity)

theorem block_history_witness:
  "\<exists>r. fold (probe_step CONFIG_X86_64 sample_api) (replicate 9 sample_regs) (Some zeroed_page) = Some r
     \<and> wr_idx (block_ctl r) = 9 \<and> block_slot_ticket (block_buffer r) 0 = 8"
proof -
  have nine: "List.map_filter (probed_metric CONFIG_X86_64 sample_api) (replicate 9 sample_regs)
      = replicate 9 (the (probed_metric CONFIG_X86_64 sample_api sample_regs))"
    by (simp add: numeral_eq_Suc List.map_filter_simps sample_probed)
  show ?thesis
    using block_history [of CONFIG_X86_64 sample_api "replicate 9 sample_regs"]
    unfolding nine
    by (auto simp: ring_holds_def block_slot_capacity dest: spec [of _ 8])
qed

end
