(* ===== verification/BlockConsumer.thy ===== *)
theory BlockConsumer
  imports BlockFilter SlotConsumer
begin

text \<open>
  The block consumer (\<open>user/block_filter_client.cpp\<close>):
  \<open>process_block_metric\<close>, the two engines of \<open>block_zero_copy_consumer_thread\<close>, and
  what they deliver of the requests that the probe recorded. Unlike the packet consumer,
  its Skip-Ahead engine gets the ticket counter as its hint.
\<close>

section \<open>The thread\<close>

datatype block_consumer_mode = BLOCK_MODE_SCATTER_GATHER | BLOCK_MODE_SKIP_AHEAD

text \<open>What \<open>process_block_metric\<close> prints: the two halves of the sector are joined again.\<close>

record block_line =
  line_ticket :: u32
  line_dev :: "u32 \<times> u32"
  line_sector :: u64
  line_nsect :: u32
  line_bytes :: u32
  line_op :: u32
  line_flags :: u32

definition process_block_metric :: "u32 \<times> block_io_metric \<Rightarrow> block_line" where
  "process_block_metric slot = (case slot of (ticket, metric) \<Rightarrow>
     let sector = push_bit 32 (ucast (sector_high metric)) OR ucast (sector_low metric) in
     \<lparr>line_ticket = ticket, line_dev = (dev_major metric, dev_minor metric), line_sector = sector,
      line_nsect = nr_sectors metric, line_bytes = bytes metric, line_op = op metric,
      line_flags = flags metric\<rparr>)"

definition block_walk :: "block_consumer_mode \<Rightarrow> shared_ring \<Rightarrow> u32 \<Rightarrow> u32 \<times> action list" where
  "block_walk mode r expected_ticket =
     (if mode = BLOCK_MODE_SCATTER_GATHER then
        (let local_snapshot = block_buffer r
         in gather BLOCKFILTER_SLOT_CAPACITY (block_slot_ticket local_snapshot) expected_ticket)
      else
        (let highest_hint = wr_idx (block_ctl r)
         in skip BLOCKFILTER_SLOT_CAPACITY (block_slot_ticket (block_buffer r)) highest_hint
              expected_ticket))"

definition block_store_rd :: "u32 \<Rightarrow> shared_ring \<Rightarrow> shared_ring" where
  "block_store_rd expected_ticket r = r\<lparr>block_ctl := (block_ctl r)\<lparr>rd_idx := expected_ticket\<rparr>\<rparr>"

definition block_thread_begin :: "shared_ring \<Rightarrow> shared_ring" where
  "block_thread_begin r = r\<lparr>block_ctl := (block_ctl r)
     \<lparr>state_flags := state_flags (block_ctl r) OR TELEMETRY_FLAG_BLOCK_THREAD_ACTIVE\<rparr>\<rparr>"

definition block_thread_end :: "shared_ring \<Rightarrow> shared_ring" where
  "block_thread_end r = r\<lparr>block_ctl := (block_ctl r)
     \<lparr>state_flags := state_flags (block_ctl r) AND NOT TELEMETRY_FLAG_BLOCK_THREAD_ACTIVE\<rparr>\<rparr>"

definition block_zero_copy_consumer_thread ::
  "block_consumer_mode \<Rightarrow> (shared_ring \<Rightarrow> shared_ring) list \<Rightarrow> shared_ring \<Rightarrow>
     shared_ring \<times> (shared_ring \<times> action list) list" where
  "block_zero_copy_consumer_thread mode envs r =
     (let r1 = block_thread_begin r;
          expected_ticket = rd_idx (block_ctl r1);
          (r2, passes) = run_passes (block_walk mode) block_store_rd envs r1 expected_ticket
      in (block_thread_end r2, passes))"

text \<open>The lines of the run: one per accepted slot, as the slot was during the pass.\<close>

definition block_log :: "(shared_ring \<times> action list) list \<Rightarrow> block_line list" where
  "block_log passes = concat (map (\<lambda>(r, acts). map (\<lambda>e.
     let i = slot_of BLOCKFILTER_SLOT_CAPACITY e in
     process_block_metric (block_slot_ticket (block_buffer r) i, block_slot_metric (block_buffer r) i))
     (accepted acts)) passes)"

definition block_arrivals :: "block_io_metric list list \<Rightarrow> (shared_ring \<Rightarrow> shared_ring) list" where
  "block_arrivals batches = map (fold commit_on_page) batches"

section \<open>The consumer on the probe's ring\<close>

interpretation block_consumer: ticket_consumer 8 page_ok "\<lambda>r. wr_idx (block_ctl r)" block_tick
  block_pay commit_on_page block_store_rd "\<lambda>r. rd_idx (block_ctl r)"
  by unfold_locales (auto simp: block_store_rd_def page_ok_def)

lemma block_flags_neutral [simp]:
  "page_ok (block_thread_begin r) = page_ok r"
  "block_buffer (block_thread_begin r) = block_buffer r"
  "wr_idx (block_ctl (block_thread_begin r)) = wr_idx (block_ctl r)"
  "wr_idx (block_ctl (block_thread_end r)) = wr_idx (block_ctl r)"
  "rd_idx (block_ctl (block_thread_begin r)) = rd_idx (block_ctl r)"
  "rd_idx (block_ctl (block_thread_end r)) = rd_idx (block_ctl r)"
  by (simp_all add: block_thread_begin_def block_thread_end_def page_ok_def)

lemma block_walk_gather:
  "block_walk BLOCK_MODE_SCATTER_GATHER = (\<lambda>r. gather 8 (block_tick r))"
  by (simp add: block_walk_def block_slot_capacity fun_eq_iff)

lemma block_walk_skip:
  "block_walk BLOCK_MODE_SKIP_AHEAD = (\<lambda>r. skip 8 (block_tick r) (wr_idx (block_ctl r)))"
  by (simp add: block_walk_def block_slot_capacity fun_eq_iff)

lemma block_thread_split:
  "block_zero_copy_consumer_thread mode envs r = (r', passes) \<longleftrightarrow>
    (\<exists>r2. run_passes (block_walk mode) block_store_rd envs (block_thread_begin r) (rd_idx (block_ctl r))
       = (r2, passes) \<and> r' = block_thread_end r2)"
  by (auto simp: block_zero_copy_consumer_thread_def Let_def split: prod.splits)

text \<open>
  Every line is that of an accepted ticket, whose stamp is that ticket.
\<close>

lemma gather_accepts_hits:
  assumes "0 < n" "n < 2 ^ 32" "e' \<in> set (accepted (snd (gather n tick e)))"
  shows "tick (slot_of n e') = e'"
  using assms(3) run_length_hit [of _ n tick e] gather_spec [OF assms(1,2), of tick e]
  by (auto simp: tickets_from_def hit_def)

lemma skip_accepts_hits:
  "skip n tick hint e = (r, acts) \<Longrightarrow> e' \<in> set (accepted acts) \<Longrightarrow> tick (slot_of n e') = e'"
proof (induction n tick hint e arbitrary: r acts rule: skip.induct)
  case (1 n tick hint e)
  show ?case
  proof (cases "within hint e \<and> tick (slot_of n e) = e")
    case True
    then show ?thesis
      using "1.IH"(1) "1.prems" by (auto simp: skip.simps [of n tick hint e] split: prod.splits)
  next
    case False
    then show ?thesis
      using "1.IH"(2) "1.prems" scan_accepts_nothing [of n tick hint "e + 1"]
      by (auto simp: skip.simps [of n tick hint e] split: if_splits prod.splits option.splits)
  qed
qed

lemma block_log_delivered:
  assumes "run_passes (block_walk mode) block_store_rd envs r e = (r', passes)"
  shows "block_log passes = map process_block_metric (delivered 8 block_pay passes)"
  using assms
proof (induction envs arbitrary: r e passes)
  case Nil
  then show ?case by (simp add: block_log_def)
next
  case (Cons env envs)
  obtain e' acts where walk: "block_walk mode (env r) e = (e', acts)" by (cases "block_walk mode (env r) e")
  obtain rest where rest: "passes = (env r, acts) # rest"
    "run_passes (block_walk mode) block_store_rd envs (block_store_rd e' (env r)) e' = (r', rest)"
    using Cons.prems walk by (auto simp: Let_def split: prod.splits)
  have hits: "block_tick (env r) (slot_of 8 t) = t" if "t \<in> set (accepted acts)" for t
  proof (cases "mode = BLOCK_MODE_SCATTER_GATHER")
    case True
    then show ?thesis
      using walk that gather_accepts_hits [of 8 t "block_tick (env r)" e]
      by (auto simp: block_walk_gather)
  next
    case False
    then show ?thesis
      using walk that skip_accepts_hits [of 8 "block_tick (env r)" "wr_idx (block_ctl (env r))" e]
      by (auto simp: block_walk_def block_slot_capacity Let_def)
  qed
  then show ?case
    using Cons.IH [OF rest(2)] rest(1) by (simp add: block_log_def block_slot_capacity Let_def)
qed

section \<open>Properties of the block consumer\<close>

text \<open>
  C31. Round trip: for every bio on a device, the line that is printed for the slot that the
  probe committed shows the 64-bit sector, the size, the number of 512-byte sectors and the
  other fields of the bio, whatever the parameters for the kernel macros.
\<close>

theorem block_line_roundtrip:
  assumes "page_ok r" "bi_bdev b = Some dev"
    and "block_telemetry_bio_submit api (Some b) (Some r) = Some r'"
  shows "process_block_metric
      (block_slot_ticket (block_buffer r') (unat (wr_idx (block_ctl r)) mod BLOCKFILTER_SLOT_CAPACITY),
       block_slot_metric (block_buffer r') (unat (wr_idx (block_ctl r)) mod BLOCKFILTER_SLOT_CAPACITY))
    = \<lparr>line_ticket = wr_idx (block_ctl r), line_dev = (MAJOR api dev, MINOR api dev),
       line_sector = bi_sector b, line_nsect = bi_size b div 512, line_bytes = bi_size b,
       line_op = bio_op api b, line_flags = bi_opf b\<rparr>"
proof -
  have r': "r' = commit_on_page (bio_metric api dev b) r"
    using assms(2,3)
    by (simp add: block_telemetry_bio_submit_def block_telemetry_commit_metric_def block_slot_capacity)
  have join: "push_bit 32 (ucast (ucast (drop_bit 32 s) :: u32)) OR ucast (ucast s :: u32) = s"
    for s :: u64
    by (rule bit_word_eqI) (auto simp: bit_simps)
  have half: "drop_bit 9 w = w div 512" for w :: u32
    by (simp add: drop_bit_eq_div)
  show ?thesis
    using commit_slots [OF assms(1), of "unat (wr_idx (block_ctl r)) mod 8" "bio_metric api dev b"] join
    by (simp add: r' block_slot_capacity process_block_metric_def bio_metric_def Let_def half)
qed

theorem block_line_roundtrip_witness:
  "\<exists>r'. block_telemetry_bio_submit sample_api (di sample_regs) (Some zeroed_page) = Some r'
     \<and> line_sector (process_block_metric (block_slot_ticket (block_buffer r') 0,
          block_slot_metric (block_buffer r') 0)) = 0x100000007
     \<and> line_nsect (process_block_metric (block_slot_ticket (block_buffer r') 0,
          block_slot_metric (block_buffer r') 0)) = 8"
proof -
  let ?b = "the (di sample_regs)"
  have b: "di sample_regs = Some ?b" "bi_bdev ?b = Some 0x800001" "bi_sector ?b = 0x100000007"
    "bi_size ?b = 4096"
    by (simp_all add: sample_regs_def)
  obtain r' where r': "block_telemetry_bio_submit sample_api (Some ?b) (Some zeroed_page) = Some r'"
    using b(2) by (auto simp: block_telemetry_bio_submit_def block_telemetry_commit_metric_def
        block_slot_capacity)
  have zero: "wr_idx (block_ctl zeroed_page) = 0" by (simp add: zeroed_page_def zero_lane_def)
  show ?thesis
    using block_line_roundtrip [OF page_ok_zeroed b(2) r'] b r' zero by auto
qed

text \<open>
  The block Scatter-Gather engine that is never more than 8 requests behind prints every
  request from its position on exactly once, in order and with its ticket.
\<close>

theorem block_scatter_gather_delivers:
  assumes "page_ok r"
    and "ring_holds BLOCKFILTER_SLOT_CAPACITY (wr_idx (block_ctl r))
      (block_slot_ticket (block_buffer r)) (block_slot_metric (block_buffer r)) h"
    and "rd_idx (block_ctl r) = of_nat t" "length (h @ concat (b # bs)) < 2 ^ 32"
    and "0 < length (h @ b)" "t \<le> length (h @ b)" "length (h @ b) \<le> t + BLOCKFILTER_SLOT_CAPACITY"
    and "\<forall>c \<in> set bs. length c \<le> BLOCKFILTER_SLOT_CAPACITY"
    and "block_zero_copy_consumer_thread BLOCK_MODE_SCATTER_GATHER (block_arrivals (b # bs)) r
      = (r', passes)"
  shows "block_log passes = map process_block_metric
      (entries (h @ concat (b # bs)) t (length (h @ concat (b # bs))))
    \<and> rd_idx (block_ctl r') = wr_idx (block_ctl r')"
proof -
  obtain r2 where r2: "run_passes (block_walk BLOCK_MODE_SCATTER_GATHER) block_store_rd
      (block_arrivals (b # bs)) (block_thread_begin r) (of_nat t) = (r2, passes)"
    "r' = block_thread_end r2"
    using assms(3,9) by (auto simp: block_thread_split)
  note run = r2(1) [unfolded block_walk_gather block_arrivals_def]
  have "page_ok r2 \<and> block_ring.holds (h @ concat (b # bs)) r2
    \<and> delivered 8 block_pay passes = entries (h @ concat (b # bs)) t (length (h @ concat (b # bs)))
    \<and> (b # bs \<noteq> [] \<longrightarrow> rd_idx (block_ctl r2) = of_nat (length (h @ concat (b # bs))))"
    by (rule block_consumer.gather_passes [OF _ _ _ _ _ _ run])
      (use assms in \<open>auto simp: block_slot_capacity\<close>)
  then show ?thesis
    using r2(2) block_log_delivered [OF r2(1)] by (simp add: ring_holds_def)
qed

theorem block_scatter_gather_delivers_witness:
  "\<exists>r' passes. block_zero_copy_consumer_thread BLOCK_MODE_SCATTER_GATHER
       (block_arrivals [[bio_metric sample_api 1 (the (di sample_regs))], []]) zeroed_page = (r', passes)
     \<and> map line_sector (block_log passes) = [0x100000007]"
proof -
  let ?m = "bio_metric sample_api 1 (the (di sample_regs))"
  obtain r' passes where run: "block_zero_copy_consumer_thread BLOCK_MODE_SCATTER_GATHER
      (block_arrivals ([?m] # [[]])) zeroed_page = (r', passes)" by fastforce
  have rd: "rd_idx (block_ctl zeroed_page) = of_nat 0" by (simp add: zeroed_page_def zero_lane_def)
  have "block_log passes = map process_block_metric
      (entries ([] @ concat ([?m] # [[]])) 0 (length ([] @ concat ([?m] # [[]]))))
    \<and> rd_idx (block_ctl r') = wr_idx (block_ctl r')"
    by (rule block_scatter_gather_delivers [OF page_ok_zeroed _ rd _ _ _ _ _ run])
      (use zeroed_block_holds in \<open>auto simp: block_slot_capacity\<close>)
  then show ?thesis
    using run by (auto simp: entries_def upt_rec process_block_metric_def bio_metric_def
        sample_regs_def Let_def)
qed

text \<open>
  C8. The block Skip-Ahead engine recovers from every lap. If at least one request was committed
  before its first pass, and fewer than \<open>2 ^ 31 - 1\<close> in all, each pass prints, in order, all
  requests from its position on that are still among the last 8, so it loses only what was
  overwritten, and its position is the ticket counter afterwards. (Before the first request it
  prints an empty slot, see below; the hint is compared as a signed number.)
\<close>

theorem block_skip_ahead_recovers:
  assumes "page_ok r"
    and "ring_holds BLOCKFILTER_SLOT_CAPACITY (wr_idx (block_ctl r))
      (block_slot_ticket (block_buffer r)) (block_slot_metric (block_buffer r)) h"
    and "rd_idx (block_ctl r) = of_nat t" "0 < length (h @ b)" "t \<le> length (h @ b)"
    and "length (h @ concat (b # bs)) < 2 ^ 31 - 1"
    and "block_zero_copy_consumer_thread BLOCK_MODE_SKIP_AHEAD (block_arrivals (b # bs)) r
      = (r', passes)"
  shows "block_log passes
      = map process_block_metric (recovered BLOCKFILTER_SLOT_CAPACITY t h (b # bs))
    \<and> rd_idx (block_ctl r') = wr_idx (block_ctl r')"
proof -
  obtain r2 where r2: "run_passes (block_walk BLOCK_MODE_SKIP_AHEAD) block_store_rd
      (block_arrivals (b # bs)) (block_thread_begin r) (of_nat t) = (r2, passes)"
    "r' = block_thread_end r2"
    using assms(3,7) by (auto simp: block_thread_split)
  note run = r2(1) [unfolded block_walk_skip block_arrivals_def]
  have "block_ring.holds (h @ concat (b # bs)) r2
    \<and> delivered 8 block_pay passes = recovered 8 t h (b # bs)
    \<and> (b # bs \<noteq> [] \<longrightarrow> rd_idx (block_ctl r2) = of_nat (length (h @ concat (b # bs))))"
    by (rule block_consumer.skip_passes [OF _ _ _ _ run])
      (use assms in \<open>auto simp: block_slot_capacity\<close>)
  then show ?thesis
    using r2(2) block_log_delivered [OF r2(1)] by (simp add: ring_holds_def block_slot_capacity)
qed

theorem block_skip_ahead_recovers_witness:
  "\<exists>r' passes. block_zero_copy_consumer_thread BLOCK_MODE_SKIP_AHEAD
       (block_arrivals [replicate 10 (bio_metric sample_api 1 (the (di sample_regs)))]) zeroed_page
       = (r', passes)
     \<and> map line_ticket (block_log passes) = [2, 3, 4, 5, 6, 7, 8, 9]"
proof -
  let ?b = "replicate 10 (bio_metric sample_api 1 (the (di sample_regs)))"
  obtain r' passes where run: "block_zero_copy_consumer_thread BLOCK_MODE_SKIP_AHEAD
      (block_arrivals (?b # [])) zeroed_page = (r', passes)" by fastforce
  have rd: "rd_idx (block_ctl zeroed_page) = of_nat 0" by (simp add: zeroed_page_def zero_lane_def)
  have "block_log passes = map process_block_metric (recovered BLOCKFILTER_SLOT_CAPACITY 0 [] (?b # []))
    \<and> rd_idx (block_ctl r') = wr_idx (block_ctl r')"
    by (rule block_skip_ahead_recovers [OF page_ok_zeroed _ rd _ _ _ run])
      (use zeroed_block_holds in \<open>auto simp: block_slot_capacity\<close>)
  then show ?thesis
    using run by (auto simp: block_slot_capacity entries_def upt_rec process_block_metric_def Let_def)
qed

text \<open>
  A Skip-Ahead pass over the fresh page, before the first request, prints the empty slot 0 as
  ticket 0: the hint 0 is not below the expected ticket 0, and the stamp of a slot that was never
  used is 0. The first request, which gets that ticket, is then lost, whatever follows.
\<close>

lemma zeroed_block_line: "process_block_metric (block_tick zeroed_page 0, block_pay zeroed_page 0)
    = \<lparr>line_ticket = 0, line_dev = (0, 0), line_sector = 0, line_nsect = 0, line_bytes = 0,
       line_op = 0, line_flags = 0\<rparr>"
proof -
  have "le_word (replicate k 0) = (0 :: u32)" for k by (induction k) simp_all
  then have "load32 off (replicate 512 0) = 0" if "off + 4 \<le> 512" for off
    using that by (simp add: load32_def read_at_def)
  then show ?thesis
    by (simp add: process_block_metric_def block_slot_metric_def block_slot_ticket_def zeroed_page_def
        layout_simps)
qed

lemma block_walk_fresh:
  "block_walk BLOCK_MODE_SKIP_AHEAD (block_thread_begin zeroed_page) 0 = (1, [Examine 0, Accept 0])"
proof -
  have "block_tick zeroed_page 0 = 0" "wr_idx (block_ctl zeroed_page) = 0"
    using zeroed_block_tick [of 0] by (simp_all) (simp add: zeroed_page_def zero_lane_def)
  then show ?thesis
    by (simp add: block_walk_skip skip.simps slot_of_def within_def)
qed

theorem block_fresh_page_phantom:
  assumes "b \<noteq> []" "length (concat (b # bs)) < 2 ^ 31 - 1"
    and "block_zero_copy_consumer_thread BLOCK_MODE_SKIP_AHEAD (block_arrivals ([] # b # bs)) zeroed_page
      = (r', passes)"
  shows "block_log passes
      = \<lparr>line_ticket = 0, line_dev = (0, 0), line_sector = 0, line_nsect = 0, line_bytes = 0,
         line_op = 0, line_flags = 0\<rparr>
        # map process_block_metric (recovered BLOCKFILTER_SLOT_CAPACITY 1 [] (b # bs))"
proof -
  let ?z = "block_thread_begin zeroed_page"
  have "rd_idx (block_ctl zeroed_page) = 0" by (simp add: zeroed_page_def zero_lane_def)
  then obtain r2 where r2: "run_passes (block_walk BLOCK_MODE_SKIP_AHEAD) block_store_rd
      (block_arrivals ([] # b # bs)) ?z 0 = (r2, passes)"
    using assms(3) by (auto simp: block_thread_split)
  obtain rest where rest: "passes = (?z, [Examine 0, Accept 0]) # rest"
    "run_passes (block_walk BLOCK_MODE_SKIP_AHEAD) block_store_rd (map (fold commit_on_page) (b # bs))
      (block_store_rd 1 ?z) (of_nat 1) = (r2, rest)"
    using r2 block_walk_fresh by (auto simp: block_arrivals_def Let_def split: prod.splits)
  have held: "block_ring.holds [] (block_store_rd 1 ?z)"
    using zeroed_block_holds by (simp add: block_consumer.holds_store)
  have ok: "page_ok (block_store_rd 1 ?z)" by (simp add: block_consumer.store_ok)
  have first: "Suc 0 \<le> length b" using assms(1) by (cases b) simp_all
  have "block_ring.holds ([] @ concat (b # bs)) r2
    \<and> delivered 8 block_pay rest = recovered 8 1 [] (b # bs)
    \<and> (b # bs \<noteq> [] \<longrightarrow> rd_idx (block_ctl r2) = of_nat (length ([] @ concat (b # bs))))"
    by (rule block_consumer.skip_passes [OF ok held _ _ rest(2) [unfolded block_walk_skip]])
      (use assms(1,2) first in simp_all)
  then show ?thesis
    using block_log_delivered [OF r2] zeroed_block_line zeroed_block_tick [of 0]
    by (simp add: rest(1) block_slot_capacity slot_of_def)
qed

theorem block_fresh_page_phantom_witness:
  "\<exists>r' passes. block_zero_copy_consumer_thread BLOCK_MODE_SKIP_AHEAD
       (block_arrivals [[], replicate 3 (bio_metric sample_api 1 (the (di sample_regs)))]) zeroed_page
       = (r', passes)
     \<and> map (\<lambda>l. (line_ticket l, line_bytes l)) (block_log passes) = [(0, 0), (1, 4096), (2, 4096)]"
proof -
  let ?b = "replicate 3 (bio_metric sample_api 1 (the (di sample_regs)))"
  obtain r' passes where run: "block_zero_copy_consumer_thread BLOCK_MODE_SKIP_AHEAD
      (block_arrivals ([] # ?b # [])) zeroed_page = (r', passes)" by fastforce
  from block_fresh_page_phantom [OF _ _ run] run show ?thesis
    by (auto simp: block_slot_capacity entries_def upt_rec process_block_metric_def bio_metric_def
        sample_regs_def Let_def)
qed

end
