(* ===== verification/CheckedSlots.thy ===== *)
theory CheckedSlots
  imports NetConsumer BlockConsumer
begin

text \<open>
  The slot rings with every access to memory checked. The theories before work on byte strings
  whose loads and stores are total functions; here a load or a store outside its array ends the
  operation with \<open>OutOfBounds\<close>: the stores of the packet hook
  (\<open>net_filter/net_filter_kernel.c\<close>) and of the block probe
  (\<open>block_filter/telemetry_block.c\<close>), the copy of the buffer, and each slot that the walks
  of the two consumers look at or print (\<open>user/net_filter_client.c\<close>,
  \<open>user/block_filter_client.cpp\<close>). On a page whose arrays have their lengths the checked
  operations return, and what they return is what the unchecked ones compute.
\<close>

section \<open>Checked memory\<close>

definition read_checked :: "nat \<Rightarrow> nat \<Rightarrow> u8 list \<Rightarrow> u8 list outcome" where
  "read_checked off k bs = (if off + k \<le> length bs then Return (read_at off k bs) else OutOfBounds)"

definition write_checked :: "nat \<Rightarrow> u8 list \<Rightarrow> u8 list \<Rightarrow> u8 list outcome" where
  "write_checked off xs bs =
     (if off + length xs \<le> length bs then Return (write_at off xs bs) else OutOfBounds)"

definition load16_checked :: "nat \<Rightarrow> u8 list \<Rightarrow> u16 outcome" where
  "load16_checked off bs = map_outcome le_word (read_checked off 2 bs)"

definition load32_checked :: "nat \<Rightarrow> u8 list \<Rightarrow> u32 outcome" where
  "load32_checked off bs = map_outcome le_word (read_checked off 4 bs)"

definition store16_checked :: "nat \<Rightarrow> u16 \<Rightarrow> u8 list \<Rightarrow> u8 list outcome" where
  "store16_checked off v = write_checked off (le_bytes 2 v)"

definition store32_checked :: "nat \<Rightarrow> u32 \<Rightarrow> u8 list \<Rightarrow> u8 list outcome" where
  "store32_checked off v = write_checked off (le_bytes 4 v)"

lemmas checked_defs = read_checked_def write_checked_def load16_checked_def load32_checked_def
  store16_checked_def store32_checked_def

lemma checked_in_bounds:
  "off + 2 \<le> length bs \<Longrightarrow> load16_checked off bs = Return (load16 off bs)"
  "off + 4 \<le> length bs \<Longrightarrow> load32_checked off bs = Return (load32 off bs)"
  "off + 2 \<le> length bs \<Longrightarrow> store16_checked off v bs = Return (store16 off v bs)"
  "off + 4 \<le> length bs \<Longrightarrow> store32_checked off w bs = Return (store32 off w bs)"
  by (simp_all add: checked_defs load16_def load32_def store16_def store32_def)

lemma checked_out_of_bounds:
  "length bs < off + 4 \<Longrightarrow> load32_checked off bs = OutOfBounds"
  "length bs < off + 4 \<Longrightarrow> store32_checked off w bs = OutOfBounds"
  by (simp_all add: checked_defs)

lemma bind_outcome_cong [fundef_cong]:
  "m = m' \<Longrightarrow> (\<And>x. m' = Return x \<Longrightarrow> f x = g x) \<Longrightarrow> bind_outcome m f = bind_outcome m' g"
  by (cases m') simp_all

section \<open>The walks\<close>

text \<open>
  The walks of \<open>TicketRing\<close> over loads that may fail. \<open>look\<close> is what the code loads of a slot
  that it examines, with the stamp as its result; \<open>use\<close> is what it loads to print the slot that
  it accepts.
\<close>

definition stamp_of :: "(nat \<Rightarrow> u32 outcome) \<Rightarrow> nat \<Rightarrow> u32" where
  "stamp_of look i = (case look i of Return t \<Rightarrow> t | _ \<Rightarrow> 0)"

function gather_checked ::
  "nat \<Rightarrow> (nat \<Rightarrow> u32 outcome) \<Rightarrow> (nat \<Rightarrow> unit outcome) \<Rightarrow> u32 \<Rightarrow> (u32 \<times> action list) outcome" where
  "gather_checked n look use e =
     bind_outcome (look (slot_of n e)) (\<lambda>t.
       if 0 < n \<and> n < 2 ^ 32 \<and> t = e then
         bind_outcome (use (slot_of n e)) (\<lambda>_.
         bind_outcome (gather_checked n look use (e + 1)) (\<lambda>(e', acts).
           Return (e', Examine e # Accept e # acts)))
       else Return (e, [Examine e]))"
  by pat_completeness auto
termination
  by (relation "measure (\<lambda>(n, look, use, e). run_length n (stamp_of look) e)")
    (auto simp: run_length_step hit_def stamp_of_def)

declare gather_checked.simps [simp del]

function scan_checked ::
  "nat \<Rightarrow> (nat \<Rightarrow> u32 outcome) \<Rightarrow> u32 \<Rightarrow> u32 \<Rightarrow> (u32 option \<times> action list) outcome" where
  "scan_checked n look hint s =
     (if within hint s then
        bind_outcome (look (slot_of n s)) (\<lambda>t.
          if t = s then Return (Some s, [Examine s])
          else bind_outcome (scan_checked n look hint (s + 1)) (\<lambda>(r, acts). Return (r, Examine s # acts)))
      else Return (None, []))"
  by pat_completeness auto
termination
  by (relation "measure (\<lambda>(n, look, hint, s). distance hint s)") (auto simp: distance_step)

declare scan_checked.simps [simp del]

lemma scan_checked_nearer:
  "scan_checked n look hint s = Return (Some t, acts) \<Longrightarrow> distance hint t \<le> distance hint s"
proof (induction n look hint s arbitrary: acts rule: scan_checked.induct)
  case (1 n look hint s)
  obtain u where u: "within hint s" "look (slot_of n s) = Return u"
    using "1.prems" by (auto simp: scan_checked.simps [of n look hint s] bind_outcome_Return split: if_splits)
  show ?case
  proof (cases "u = s")
    case True
    then show ?thesis using "1.prems" u by (simp add: scan_checked.simps [of n look hint s])
  next
    case False
    then obtain acts' where "scan_checked n look hint (s + 1) = Return (Some t, acts')"
      using "1.prems" u by (auto simp: scan_checked.simps [of n look hint s] bind_outcome_Return)
    then show ?thesis using "1.IH" u False distance_step [OF u(1)] by fastforce
  qed
qed

function skip_checked ::
  "nat \<Rightarrow> (nat \<Rightarrow> u32 outcome) \<Rightarrow> (nat \<Rightarrow> unit outcome) \<Rightarrow> u32 \<Rightarrow> u32 \<Rightarrow> (u32 \<times> action list) outcome" where
  "skip_checked n look use hint e =
     (if within hint e then
        bind_outcome (look (slot_of n e)) (\<lambda>t.
          if t = e then
            bind_outcome (use (slot_of n e)) (\<lambda>_.
            bind_outcome (skip_checked n look use hint (e + 1)) (\<lambda>(e', acts).
              Return (e', Examine e # Accept e # acts)))
          else
            bind_outcome (scan_checked n look hint (e + 1)) (\<lambda>(found, scanned).
              case found of
                Some scan_ticket \<Rightarrow>
                  bind_outcome (skip_checked n look use hint scan_ticket) (\<lambda>(e', acts).
                    Return (e', Examine e # scanned @ acts))
              | None \<Rightarrow> Return (e, Examine e # scanned)))
      else Return (e, []))"
  by pat_completeness auto
termination
  by (relation "measure (\<lambda>(n, look, use, hint, e). distance hint e)")
    (auto simp: distance_step intro: le_less_trans [OF scan_checked_nearer distance_step])

declare skip_checked.simps [simp del]

text \<open>Where no load fails the checked walks are the unchecked ones.\<close>

lemma slot_of_less: "0 < n \<Longrightarrow> slot_of n e < n"
  by (simp add: slot_of_def)

lemma gather_checked_eq:
  assumes "0 < n" "\<forall>i<n. look i = Return (tick i) \<and> use i = Return ()"
  shows "gather_checked n look use e = Return (gather n tick e)"
  using assms
proof (induction n tick e rule: gather.induct)
  case (1 n tick e)
  then have slot: "look (slot_of n e) = Return (tick (slot_of n e))" "use (slot_of n e) = Return ()"
    using slot_of_less by auto
  show ?case
    using 1 slot by (subst gather_checked.simps, subst gather.simps) (simp split: prod.split)
qed

lemma scan_checked_eq:
  assumes "0 < n" "\<forall>i<n. look i = Return (tick i)"
  shows "scan_checked n look hint s = Return (scan n tick hint s)"
  using assms
proof (induction n tick hint s rule: scan.induct)
  case (1 n tick hint s)
  then have slot: "look (slot_of n s) = Return (tick (slot_of n s))" using slot_of_less by auto
  show ?case
    using 1 slot by (subst scan_checked.simps, subst scan.simps) (simp split: prod.split)
qed

lemma skip_checked_eq:
  assumes "0 < n" "\<forall>i<n. look i = Return (tick i) \<and> use i = Return ()"
  shows "skip_checked n look use hint e = Return (skip n tick hint e)"
  using assms
proof (induction n tick hint e rule: skip.induct)
  case (1 n tick hint e)
  then have slot: "look (slot_of n e) = Return (tick (slot_of n e))" "use (slot_of n e) = Return ()"
    using slot_of_less by auto
  have sc: "scan_checked n look hint (e + 1) = Return (scan n tick hint (e + 1))"
    using scan_checked_eq 1 by blast
  show ?case
    using 1 slot sc
    by (subst skip_checked.simps, subst skip.simps) (auto split: prod.split option.split)
qed

section \<open>The slots of the packet ring\<close>

definition net_slot_ticket_checked :: "u8 list \<Rightarrow> nat \<Rightarrow> u32 outcome" where
  "net_slot_ticket_checked pool i = load32_checked (net_slot_at i ''slot_ticket'') pool"

definition net_slot_metric_checked :: "u8 list \<Rightarrow> nat \<Rightarrow> net_packet_metric outcome" where
  "net_slot_metric_checked pool i =
     bind_outcome (load32_checked (net_metric_at i ''src_ip'') pool) (\<lambda>sip.
     bind_outcome (load32_checked (net_metric_at i ''dest_ip'') pool) (\<lambda>dip.
     bind_outcome (load16_checked (net_metric_at i ''src_port'') pool) (\<lambda>sport.
     bind_outcome (load16_checked (net_metric_at i ''dest_port'') pool) (\<lambda>dport.
     bind_outcome (load32_checked (net_metric_at i ''pkt_len'') pool) (\<lambda>len.
       Return \<lparr>src_ip = sip, dest_ip = dip, src_port = sport, dest_port = dport, pkt_len = len\<rparr>)))))"

definition process_metric_checked :: "u8 list \<Rightarrow> nat \<Rightarrow> (u32 \<times> net_packet_metric) outcome" where
  "process_metric_checked pool i =
     bind_outcome (net_slot_ticket_checked pool i) (\<lambda>t.
     bind_outcome (net_slot_metric_checked pool i) (\<lambda>m. Return (t, m)))"

definition store_net_metric_checked :: "nat \<Rightarrow> net_packet_metric \<Rightarrow> u8 list \<Rightarrow> u8 list outcome" where
  "store_net_metric_checked i m pool =
     bind_outcome (store32_checked (net_metric_at i ''src_ip'') (src_ip m) pool) (\<lambda>pool.
     bind_outcome (store32_checked (net_metric_at i ''dest_ip'') (dest_ip m) pool) (\<lambda>pool.
     bind_outcome (store16_checked (net_metric_at i ''src_port'') (src_port m) pool) (\<lambda>pool.
     bind_outcome (store16_checked (net_metric_at i ''dest_port'') (dest_port m) pool) (\<lambda>pool.
       store32_checked (net_metric_at i ''pkt_len'') (pkt_len m) pool))))"

definition store_net_ticket_checked :: "nat \<Rightarrow> u32 \<Rightarrow> u8 list \<Rightarrow> u8 list outcome" where
  "store_net_ticket_checked i t pool = store32_checked (net_slot_at i ''slot_ticket'') t pool"

lemma net_checked:
  assumes "length pool = 768" "i < 24"
  shows "net_slot_ticket_checked pool i = Return (net_slot_ticket pool i)"
    "net_slot_metric_checked pool i = Return (net_slot_metric pool i)"
    "process_metric_checked pool i = Return (process_metric pool i)"
    "store_net_metric_checked i m pool = Return (store_net_metric i m pool)"
    "store_net_ticket_checked i t pool = Return (store_net_ticket i t pool)"
proof -
  show t: "net_slot_ticket_checked pool i = Return (net_slot_ticket pool i)"
    using assms by (simp add: net_slot_ticket_checked_def net_slot_ticket_def layout_simps checked_in_bounds)
  show m: "net_slot_metric_checked pool i = Return (net_slot_metric pool i)"
    using assms by (simp add: net_slot_metric_checked_def net_slot_metric_def layout_simps checked_in_bounds)
  show "process_metric_checked pool i = Return (process_metric pool i)"
    by (simp add: process_metric_checked_def process_metric_def t m)
  show "store_net_metric_checked i m pool = Return (store_net_metric i m pool)"
    using assms by (simp add: store_net_metric_checked_def store_net_metric_def layout_simps checked_in_bounds)
  show "store_net_ticket_checked i t pool = Return (store_net_ticket i t pool)"
    using assms by (simp add: store_net_ticket_checked_def store_net_ticket_def layout_simps checked_in_bounds)
qed

text \<open>Slot 24 is outside: the stamp of a slot is loaded and stored inside the buffer only.\<close>

lemma net_checked_outside:
  assumes "length pool = 768" "24 \<le> i"
  shows "net_slot_ticket_checked pool i = OutOfBounds" "process_metric_checked pool i = OutOfBounds"
    "store_net_metric_checked i m pool = OutOfBounds" "store_net_ticket_checked i t pool = OutOfBounds"
  using assms
  by (simp_all add: process_metric_checked_def net_slot_ticket_checked_def store_net_metric_checked_def
      store_net_ticket_checked_def layout_simps checked_out_of_bounds)

section \<open>The packet hook\<close>

definition record_packet_checked ::
  "u32 option list \<Rightarrow> net_packet_metric \<Rightarrow> shared_ring \<Rightarrow> shared_ring outcome" where
  "record_packet_checked others m r =
     (let (my_ticket, r1) = claim_ticket r;
          slot_idx = slot_index my_ticket
      in bind_outcome (store_net_metric_checked (unat slot_idx) m (net_buffer r1)) (\<lambda>pool2.
         bind_outcome (store_net_ticket_checked (unat slot_idx) my_ticket pool2) (\<lambda>pool3.
           Return (advance_hint slot_idx others (r1\<lparr>net_buffer := pool3\<rparr>)))))"

definition packet_telemetry_hook_checked ::
  "u32 option list \<Rightarrow> sk_buff option \<Rightarrow> shared_ring option \<Rightarrow> (nf_verdict \<times> shared_ring option) outcome"
where
  "packet_telemetry_hook_checked others skb ring_ptr =
     (case ring_ptr of None \<Rightarrow> Return (NF_ACCEPT, None) | Some r \<Rightarrow>
        (case traced_metric skb of
           None \<Rightarrow> Return (NF_ACCEPT, Some r)
         | Some m \<Rightarrow> map_outcome (\<lambda>r'. (NF_ACCEPT, Some r')) (record_packet_checked others m r)))"

lemma record_packet_checked_eq:
  assumes "page_ok r"
  shows "record_packet_checked others m r = Return (record_packet others m r)"
proof -
  have i: "unat (slot_index t) < 24" for t by (simp add: slot_index_unat net_slot_capacity)
  have len: "length (net_buffer r) = 768" using assms by simp
  note stores = net_checked(4) [OF len i] net_checked(5) [OF length_store_net(1) [OF len i] i]
  show ?thesis
    by (simp add: record_packet_checked_def record_packet_def claim_ticket_def fill_slot_def
        stamp_slot_def Let_def stores)
qed

lemma packet_telemetry_hook_checked_eq:
  "page_ok r \<Longrightarrow> packet_telemetry_hook_checked others skb (Some r)
    = Return (packet_telemetry_hook others skb (Some r))"
  by (simp add: packet_telemetry_hook_checked_def packet_telemetry_hook_def record_packet_checked_eq
      split: option.split)

section \<open>The slots of the block ring and the probe\<close>

definition block_slot_ticket_checked :: "u8 list \<Rightarrow> nat \<Rightarrow> u32 outcome" where
  "block_slot_ticket_checked pool i = load32_checked (block_slot_at i ''slot_ticket'') pool"

text \<open>The line of a slot is printed from its eight words and its ticket.\<close>

definition block_slot_metric_checked :: "u8 list \<Rightarrow> nat \<Rightarrow> block_io_metric outcome" where
  "block_slot_metric_checked pool i =
     bind_outcome (load32_checked (block_metric_at i ''dev_major'') pool) (\<lambda>major.
     bind_outcome (load32_checked (block_metric_at i ''dev_minor'') pool) (\<lambda>minor.
     bind_outcome (load32_checked (block_metric_at i ''sector_low'') pool) (\<lambda>low.
     bind_outcome (load32_checked (block_metric_at i ''sector_high'') pool) (\<lambda>high.
     bind_outcome (load32_checked (block_metric_at i ''nr_sectors'') pool) (\<lambda>nsect.
     bind_outcome (load32_checked (block_metric_at i ''bytes'') pool) (\<lambda>nbytes.
     bind_outcome (load32_checked (block_metric_at i ''op'') pool) (\<lambda>operation.
     bind_outcome (load32_checked (block_metric_at i ''flags'') pool) (\<lambda>fl.
       Return \<lparr>dev_major = major, dev_minor = minor, sector_low = low, sector_high = high,
         nr_sectors = nsect, bytes = nbytes, op = operation, flags = fl\<rparr>))))))))"

definition process_block_metric_checked :: "u8 list \<Rightarrow> nat \<Rightarrow> block_line outcome" where
  "process_block_metric_checked pool i =
     bind_outcome (block_slot_metric_checked pool i) (\<lambda>m.
     bind_outcome (block_slot_ticket_checked pool i) (\<lambda>t. Return (process_block_metric (t, m))))"

definition store_block_metric_checked :: "nat \<Rightarrow> block_io_metric \<Rightarrow> u8 list \<Rightarrow> u8 list outcome" where
  "store_block_metric_checked i m pool =
     write_checked (block_slot_at i ''io_metrics'') (block_metric_bytes m) pool"

definition store_block_ticket_checked :: "nat \<Rightarrow> u32 \<Rightarrow> u8 list \<Rightarrow> u8 list outcome" where
  "store_block_ticket_checked i t pool = store32_checked (block_slot_at i ''slot_ticket'') t pool"

lemma block_checked:
  assumes "length pool = 512" "i < 8"
  shows "block_slot_ticket_checked pool i = Return (block_slot_ticket pool i)"
    "process_block_metric_checked pool i
      = Return (process_block_metric (block_slot_ticket pool i, block_slot_metric pool i))"
    "store_block_metric_checked i m pool = Return (store_block_metric i m pool)"
    "store_block_ticket_checked i t pool = Return (store_block_ticket i t pool)"
proof -
  show t: "block_slot_ticket_checked pool i = Return (block_slot_ticket pool i)"
    using assms by (simp add: block_slot_ticket_checked_def block_slot_ticket_def layout_simps checked_in_bounds)
  have "block_slot_metric_checked pool i = Return (block_slot_metric pool i)"
    using assms by (simp add: block_slot_metric_checked_def block_slot_metric_def layout_simps checked_in_bounds)
  then show "process_block_metric_checked pool i
      = Return (process_block_metric (block_slot_ticket pool i, block_slot_metric pool i))"
    by (simp add: process_block_metric_checked_def t)
  show "store_block_metric_checked i m pool = Return (store_block_metric i m pool)"
    using assms by (simp add: store_block_metric_checked_def store_block_metric_def layout_simps write_checked_def)
  show "store_block_ticket_checked i t pool = Return (store_block_ticket i t pool)"
    using assms by (simp add: store_block_ticket_checked_def store_block_ticket_def layout_simps checked_in_bounds)
qed

lemma block_checked_outside:
  assumes "length pool = 512" "8 \<le> i"
  shows "block_slot_ticket_checked pool i = OutOfBounds" "store_block_metric_checked i m pool = OutOfBounds"
    "store_block_ticket_checked i t pool = OutOfBounds"
  using assms
  by (simp_all add: block_slot_ticket_checked_def store_block_metric_checked_def write_checked_def
      store_block_ticket_checked_def layout_simps checked_out_of_bounds)

definition commit_on_page_checked :: "block_io_metric \<Rightarrow> shared_ring \<Rightarrow> shared_ring outcome" where
  "commit_on_page_checked metric r =
     (let my_ticket = wr_idx (block_ctl r);
          r1 = r\<lparr>block_ctl := (block_ctl r)\<lparr>wr_idx := my_ticket + 1\<rparr>\<rparr>;
          slot_idx = unat (block_slot_index my_ticket)
      in bind_outcome (store_block_metric_checked slot_idx metric (block_buffer r1)) (\<lambda>pool2.
         bind_outcome (store_block_ticket_checked slot_idx my_ticket pool2) (\<lambda>pool3.
           Return (r1\<lparr>block_buffer := pool3\<rparr>))))"

definition block_rq_issue_pre_handler_checked ::
  "arch \<Rightarrow> block_api \<Rightarrow> pt_regs \<Rightarrow> shared_ring option \<Rightarrow> (int \<times> shared_ring option) outcome" where
  "block_rq_issue_pre_handler_checked arch api regs ring_ptr =
     (case (case arch of CONFIG_X86_64 \<Rightarrow> di regs | CONFIG_ARM64 \<Rightarrow> regs0 regs | Other_arch \<Rightarrow> None) of
        None \<Rightarrow> Return (0, ring_ptr)
      | Some b \<Rightarrow>
         (case bi_bdev b of None \<Rightarrow> Return (0, ring_ptr) | Some dev \<Rightarrow>
           (case ring_ptr of None \<Rightarrow> Return (0, None) | Some r \<Rightarrow>
              if BLOCKFILTER_SLOT_CAPACITY = 0 then Return (0, Some r)
              else map_outcome (\<lambda>r'. (0, Some r')) (commit_on_page_checked (bio_metric api dev b) r))))"

lemma commit_on_page_checked_eq:
  assumes "page_ok r"
  shows "commit_on_page_checked m r = Return (commit_on_page m r)"
proof -
  have i: "unat (block_slot_index t) < 8" for t by (simp add: block_slot_index_unat)
  have len: "length (block_buffer r) = 512" using assms by simp
  note stores = block_checked(3) [OF len i] block_checked(4) [OF length_store_block(1) [OF len i] i]
  show ?thesis
    by (simp add: commit_on_page_checked_def commit_on_page_def Let_def stores)
qed

lemma block_rq_issue_pre_handler_checked_eq:
  "page_ok r \<Longrightarrow> block_rq_issue_pre_handler_checked a api regs (Some r)
    = Return (block_rq_issue_pre_handler a api regs (Some r))"
  by (simp add: block_rq_issue_pre_handler_checked_def block_rq_issue_pre_handler_def
      block_telemetry_bio_submit_def block_telemetry_commit_metric_def commit_on_page_checked_eq
      Let_def split: option.split)

section \<open>The consumer threads\<close>

fun run_passes_checked ::
  "('s \<Rightarrow> u32 \<Rightarrow> (u32 \<times> action list) outcome) \<Rightarrow> (u32 \<Rightarrow> 's \<Rightarrow> 's) \<Rightarrow> ('s \<Rightarrow> 's) list \<Rightarrow> 's \<Rightarrow> u32 \<Rightarrow>
     ('s \<times> ('s \<times> action list) list) outcome" where
  "run_passes_checked walk store_rd [] s e = Return (s, [])"
| "run_passes_checked walk store_rd (env # envs) s e =
     (let s1 = env s in
      bind_outcome (walk s1 e) (\<lambda>(e', acts).
      bind_outcome (run_passes_checked walk store_rd envs (store_rd e' s1) e') (\<lambda>(s', passes).
        Return (s', (s1, acts) # passes))))"

text \<open>
  The packet consumer prints every slot that it looks at, so it loads all of it; the block
  consumer looks at the stamp and prints the slot that it accepts. Scatter-Gather first copies
  the whole buffer.
\<close>

definition net_look :: "u8 list \<Rightarrow> nat \<Rightarrow> u32 outcome" where
  "net_look pool i = map_outcome fst (process_metric_checked pool i)"

definition net_use :: "u8 list \<Rightarrow> nat \<Rightarrow> unit outcome" where
  "net_use pool i = map_outcome (\<lambda>_. ()) (process_metric_checked pool i)"

definition net_walk_checked :: "consumer_mode \<Rightarrow> shared_ring \<Rightarrow> u32 \<Rightarrow> (u32 \<times> action list) outcome" where
  "net_walk_checked mode r expected_ticket = (case mode of
     MODE_SCATTER_GATHER \<Rightarrow>
       bind_outcome (read_checked 0 (NETFILTER_SLOT_CAPACITY * NETFILTER_SLOT_SIZE) (net_buffer r)) (\<lambda>local_snapshot.
         gather_checked NETFILTER_SLOT_CAPACITY (net_look local_snapshot) (net_use local_snapshot) expected_ticket)
   | MODE_SKIP_AHEAD \<Rightarrow>
       (let highest_hint = wr_idx (net_ctl r)
        in skip_checked NETFILTER_SLOT_CAPACITY (net_look (net_buffer r)) (net_use (net_buffer r))
             highest_hint expected_ticket))"

definition zero_copy_consumer_thread_checked ::
  "consumer_mode \<Rightarrow> (shared_ring \<Rightarrow> shared_ring) list \<Rightarrow> shared_ring \<Rightarrow>
     (shared_ring \<times> (shared_ring \<times> action list) list) outcome" where
  "zero_copy_consumer_thread_checked mode envs r =
     (let r1 = net_thread_begin r;
          expected_ticket = rd_idx (net_ctl r1)
      in bind_outcome (run_passes_checked (net_walk_checked mode) net_store_rd envs r1 expected_ticket)
           (\<lambda>(r2, passes). Return (net_thread_end r2, passes)))"

definition block_use :: "u8 list \<Rightarrow> nat \<Rightarrow> unit outcome" where
  "block_use pool i = map_outcome (\<lambda>_. ()) (process_block_metric_checked pool i)"

definition block_walk_checked ::
  "block_consumer_mode \<Rightarrow> shared_ring \<Rightarrow> u32 \<Rightarrow> (u32 \<times> action list) outcome" where
  "block_walk_checked mode r expected_ticket =
     (if mode = BLOCK_MODE_SCATTER_GATHER then
        bind_outcome (read_checked 0 (BLOCKFILTER_SLOT_CAPACITY * BLOCKFILTER_SLOT_SIZE) (block_buffer r)) (\<lambda>local_snapshot.
          gather_checked BLOCKFILTER_SLOT_CAPACITY (block_slot_ticket_checked local_snapshot)
            (block_use local_snapshot) expected_ticket)
      else
        (let highest_hint = wr_idx (block_ctl r)
         in skip_checked BLOCKFILTER_SLOT_CAPACITY (block_slot_ticket_checked (block_buffer r))
              (block_use (block_buffer r)) highest_hint expected_ticket))"

definition block_zero_copy_consumer_thread_checked ::
  "block_consumer_mode \<Rightarrow> (shared_ring \<Rightarrow> shared_ring) list \<Rightarrow> shared_ring \<Rightarrow>
     (shared_ring \<times> (shared_ring \<times> action list) list) outcome" where
  "block_zero_copy_consumer_thread_checked mode envs r =
     (let r1 = block_thread_begin r;
          expected_ticket = rd_idx (block_ctl r1)
      in bind_outcome (run_passes_checked (block_walk_checked mode) block_store_rd envs r1 expected_ticket)
           (\<lambda>(r2, passes). Return (block_thread_end r2, passes)))"

lemma run_passes_checked_eq:
  assumes "ok s" "\<forall>env \<in> set envs. \<forall>s. ok s \<longrightarrow> ok (env s)" "\<And>s e. ok s \<Longrightarrow> ok (store_rd e s)"
    and "\<And>s e. ok s \<Longrightarrow> walk_checked s e = Return (walk s e)"
  shows "run_passes_checked walk_checked store_rd envs s e = Return (run_passes walk store_rd envs s e)"
  using assms(1,2)
proof (induction envs arbitrary: s e)
  case Nil
  then show ?case by simp
next
  case (Cons env envs)
  have "ok (env s)" using Cons.prems by simp
  then show ?case
    using Cons.IH [of "store_rd (fst (walk (env s) e)) (env s)" "fst (walk (env s) e)"]
      Cons.prems(2) assms(3,4) by (auto simp: Let_def split: prod.split)
qed

lemma read_all [simp]: "length bs = k \<Longrightarrow> read_checked 0 k bs = Return bs"
  by (simp add: read_checked_def read_at_def)

lemma net_walk_checked_eq:
  assumes "page_ok r"
  shows "net_walk_checked mode r e = Return (net_walk mode r e)"
proof -
  have len: "length (net_buffer r) = 768" using assms by simp
  have look: "\<forall>i<24. net_look (net_buffer r) i = Return (net_tick r i) \<and> net_use (net_buffer r) i = Return ()"
    using net_checked(3) [OF len] by (simp add: net_look_def net_use_def process_metric_def)
  show ?thesis
    using gather_checked_eq [OF _ look] skip_checked_eq [OF _ look] len
    by (simp add: net_walk_checked_def net_walk_def layout_simps Let_def split: consumer_mode.split)
qed

lemma block_walk_checked_eq:
  assumes "page_ok r"
  shows "block_walk_checked mode r e = Return (block_walk mode r e)"
proof -
  have len: "length (block_buffer r) = 512" using assms by simp
  have look: "\<forall>i<8. block_slot_ticket_checked (block_buffer r) i = Return (block_tick r i)
      \<and> block_use (block_buffer r) i = Return ()"
    using block_checked(1,2) [OF len] by (simp add: block_use_def)
  show ?thesis
    using gather_checked_eq [OF _ look] skip_checked_eq [OF _ look] len
    by (simp add: block_walk_checked_def block_walk_def layout_simps Let_def)
qed

text \<open>
  Whatever happens to the page between the passes, as long as its arrays keep their lengths, the
  checked threads return what the unchecked ones compute.
\<close>

lemma zero_copy_consumer_thread_checked_eq:
  assumes "page_ok r" "\<forall>env \<in> set envs. \<forall>s. page_ok s \<longrightarrow> page_ok (env s)"
  shows "zero_copy_consumer_thread_checked mode envs r = Return (zero_copy_consumer_thread mode envs r)"
proof -
  have "run_passes_checked (net_walk_checked mode) net_store_rd envs (net_thread_begin r) e
      = Return (run_passes (net_walk mode) net_store_rd envs (net_thread_begin r) e)" for e
    by (rule run_passes_checked_eq [where ok = page_ok])
      (use assms net_consumer.store_ok net_walk_checked_eq in auto)
  then show ?thesis
    by (simp add: zero_copy_consumer_thread_checked_def zero_copy_consumer_thread_def Let_def
        split: prod.split)
qed

lemma block_zero_copy_consumer_thread_checked_eq:
  assumes "page_ok r" "\<forall>env \<in> set envs. \<forall>s. page_ok s \<longrightarrow> page_ok (env s)"
  shows "block_zero_copy_consumer_thread_checked mode envs r
    = Return (block_zero_copy_consumer_thread mode envs r)"
proof -
  have "run_passes_checked (block_walk_checked mode) block_store_rd envs (block_thread_begin r) e
      = Return (run_passes (block_walk mode) block_store_rd envs (block_thread_begin r) e)" for e
    by (rule run_passes_checked_eq [where ok = page_ok])
      (use assms block_consumer.store_ok block_walk_checked_eq in auto)
  then show ?thesis
    by (simp add: block_zero_copy_consumer_thread_checked_def block_zero_copy_consumer_thread_def
        Let_def split: prod.split)
qed

end
