(* ===== verification/Tenants.thy ===== *)
theory Tenants
  imports CharWrite CheckedSlots
begin

text \<open>
  The operations of all components on the one page they share. Every tenant (the character
  stream, the packets, the block requests, and the two that have lanes but no code yet) owns a
  lane and a buffer. This theory puts the operations of the components into one system and shows
  that each of them works on the lane and the buffer of its own tenant only.
\<close>

section \<open>The system\<close>

datatype tenant = Tenant_char | Tenant_net | Tenant_block | Tenant_mem | Tenant_cpu

text \<open>The part of a tenant from one page, everything else from another.\<close>

fun graft :: "tenant \<Rightarrow> shared_ring \<Rightarrow> shared_ring \<Rightarrow> shared_ring" where
  "graft Tenant_char q r = q\<lparr>char_ctl := char_ctl r, char_buffer := char_buffer r\<rparr>"
| "graft Tenant_net q r = q\<lparr>net_ctl := net_ctl r, net_buffer := net_buffer r\<rparr>"
| "graft Tenant_block q r = q\<lparr>block_ctl := block_ctl r, block_buffer := block_buffer r\<rparr>"
| "graft Tenant_mem q r = q\<lparr>mem_ctl := mem_ctl r, memory_buffer := memory_buffer r\<rparr>"
| "graft Tenant_cpu q r = q\<lparr>cpu_ctl := cpu_ctl r, cpu_buffer := cpu_buffer r\<rparr>"

fun same_tenant :: "tenant \<Rightarrow> shared_ring \<Rightarrow> shared_ring \<Rightarrow> bool" where
  "same_tenant Tenant_char r s = (char_ctl r = char_ctl s \<and> char_buffer r = char_buffer s)"
| "same_tenant Tenant_net r s = (net_ctl r = net_ctl s \<and> net_buffer r = net_buffer s)"
| "same_tenant Tenant_block r s = (block_ctl r = block_ctl s \<and> block_buffer r = block_buffer s)"
| "same_tenant Tenant_mem r s = (mem_ctl r = mem_ctl s \<and> memory_buffer r = memory_buffer s)"
| "same_tenant Tenant_cpu r s = (cpu_ctl r = cpu_ctl s \<and> cpu_buffer r = cpu_buffer s)"

text \<open>
  The operations: a read and a write of the device (with what happens while the writer sleeps), a
  pass of the zero-copy consumer, the two pushes, the packet hook, the block probe, and a
  consumer thread of each engine that makes one pass.
\<close>

datatype sys_op =
    Read_op "nat \<Rightarrow> bool" nat
  | Write_op "u8 option list" "wait_event list" zc_state
  | Zero_copy_op bool zc_state
  | Push_char_op net_packet_metric
  | Push_net_op net_packet_metric
  | Packet_op "u32 option list" "sk_buff option"
  | Bio_op arch block_api pt_regs
  | Net_pass_op consumer_mode
  | Block_pass_op block_consumer_mode

fun op_tenant :: "sys_op \<Rightarrow> tenant" where
  "op_tenant (Read_op ok len) = Tenant_char"
| "op_tenant (Write_op bs es z) = Tenant_char"
| "op_tenant (Zero_copy_op fin z) = Tenant_char"
| "op_tenant (Push_char_op m) = Tenant_char"
| "op_tenant (Push_net_op m) = Tenant_net"
| "op_tenant (Packet_op others skb) = Tenant_net"
| "op_tenant (Bio_op a api regs) = Tenant_block"
| "op_tenant (Net_pass_op mode) = Tenant_net"
| "op_tenant (Block_pass_op bmode) = Tenant_block"

text \<open>
  Every operation is run with its accesses to memory checked: an index outside its array, of the
  stream or of a slot, ends it with \<open>OutOfBounds\<close>.
\<close>

fun run_op :: "sys_op \<Rightarrow> shared_ring \<Rightarrow> shared_ring outcome" where
  "run_op (Read_op ok len) r =
     bind_outcome (dev_read ok len r) (\<lambda>(ret, woke, r', out). Return r')"
| "run_op (Write_op bs es z) r =
     bind_outcome (dev_write bs es \<lparr>page = r, zc = z, delivered = []\<rparr>)
       (\<lambda>(woke, res, es', w). Return (page w))"
| "run_op (Zero_copy_op fin z) r =
     bind_outcome (zero_copy_iter modulo_divisor fin z r) (\<lambda>(z', r', out, kick, left). Return r')"
| "run_op (Push_char_op m) r =
     bind_outcome (telemetry_shared_char_dev_push_metric (Some m) (Some r))
       (\<lambda>(ret, p). Return (the p))"
| "run_op (Push_net_op m) r =
     bind_outcome (telemetry_net_dev_push_metric (Some m) (Some r)) (\<lambda>(ret, p). Return (the p))"
| "run_op (Packet_op others skb) r =
     bind_outcome (packet_telemetry_hook_checked others skb (Some r)) (\<lambda>(verdict, p). Return (the p))"
| "run_op (Bio_op a api regs) r =
     bind_outcome (block_rq_issue_pre_handler_checked a api regs (Some r)) (\<lambda>(ret, p). Return (the p))"
| "run_op (Net_pass_op mode) r =
     bind_outcome (zero_copy_consumer_thread_checked mode [\<lambda>s. s] r) (\<lambda>(r', passes). Return r')"
| "run_op (Block_pass_op bmode) r =
     bind_outcome (block_zero_copy_consumer_thread_checked bmode [\<lambda>s. s] r) (\<lambda>(r', passes). Return r')"

fun run_ops :: "sys_op list \<Rightarrow> shared_ring \<Rightarrow> shared_ring outcome" where
  "run_ops [] r = Return r"
| "run_ops (x # xs) r = bind_outcome (run_op x r) (run_ops xs)"

section \<open>Every operation works on its own tenant\<close>

lemma graft_same: "same_tenant k r s \<Longrightarrow> graft k s r = s"
  by (cases k) simp_all

lemma same_graft: "same_tenant k (graft k q r) r"
  by (cases k) simp_all

lemma same_tenant_sym: "same_tenant k r s = same_tenant k s r"
  by (cases k) auto

lemma same_tenant_trans: "same_tenant k r s \<Longrightarrow> same_tenant k s t \<Longrightarrow> same_tenant k r t"
  by (cases k) auto

lemma graft_other: "j \<noteq> k \<Longrightarrow> same_tenant j (graft k q r) q"
  by (cases k; cases j) simp_all

text \<open>
  An operation that commutes with grafting its tenant's part onto any other page reads and
  writes nothing else. First the character stream.
\<close>

definition world_graft :: "shared_ring \<Rightarrow> world \<Rightarrow> world" where
  "world_graft q w = w\<lparr>page := graft Tenant_char q (page w)\<rparr>"

lemma graft_char_fields [simp]:
  "char_ctl (graft Tenant_char q r) = char_ctl r"
  "char_buffer (graft Tenant_char q r) = char_buffer r"
  "set_char_rd i (graft Tenant_char q r) = graft Tenant_char q (set_char_rd i r)"
  "set_char_wr i (graft Tenant_char q r) = graft Tenant_char q (set_char_wr i r)"
  "set_char_flags f (graft Tenant_char q r) = graft Tenant_char q (set_char_flags f r)"
  "store_char i b (graft Tenant_char q r) = graft Tenant_char q (store_char i b r)"
  "writer_asleep (graft Tenant_char q r) = writer_asleep r"
  "has_room (graft Tenant_char q r) = has_room r"
  by (simp_all add: page_update_defs writer_asleep_def has_room_def)

lemma graft_net_fields [simp]:
  "net_ctl (graft Tenant_net q r) = net_ctl r" "net_buffer (graft Tenant_net q r) = net_buffer r"
  "set_net_wr i (graft Tenant_net q r) = graft Tenant_net q (set_net_wr i r)"
  "store_net i b (graft Tenant_net q r) = graft Tenant_net q (store_net i b r)"
  by (simp_all add: page_update_defs)

declare graft.simps [simp del]

lemma dev_read_loop_graft:
  "dev_read_loop ok len n ready (graft Tenant_char q r) out
    = map_outcome (\<lambda>(ret, woke, r', xs). (ret, woke, graft Tenant_char q r', xs))
        (dev_read_loop ok len n ready r out)"
  by (induction ok len n ready r out rule: dev_read_loop.induct) (simp_all add: Let_def)

lemma dev_read_graft:
  "dev_read ok len (graft Tenant_char q r)
    = map_outcome (\<lambda>(ret, woke, r', xs). (ret, woke, graft Tenant_char q r', xs)) (dev_read ok len r)"
  by (simp add: dev_read_def dev_read_loop_graft)

lemma zero_copy_iter_graft:
  "zero_copy_iter d fin z (graft Tenant_char q r)
    = map_outcome (\<lambda>(z', r', rest). (z', graft Tenant_char q r', rest)) (zero_copy_iter d fin z r)"
  by (simp add: zero_copy_iter_def Let_def)

lemma char_push_loop_graft:
  "char_push_loop bs (graft Tenant_char q r)
    = map_outcome (\<lambda>(ret, r'). (ret, graft Tenant_char q r')) (char_push_loop bs r)"
  by (induction bs r rule: char_push_loop.induct) (simp_all add: Let_def)

lemma net_push_loop_graft:
  "net_push_loop bs (graft Tenant_net q r)
    = map_outcome (\<lambda>(ret, r'). (ret, graft Tenant_net q r')) (net_push_loop bs r)"
  by (induction bs r rule: net_push_loop.induct) (simp_all add: Let_def)

lemma env_step_graft:
  "env_step e (world_graft q w) = map_outcome (\<lambda>(woken, w'). (woken, world_graft q w')) (env_step e w)"
proof (cases e)
  case (Reader ok len)
  then show ?thesis
    by (cases "dev_read ok len (page w)") (auto simp: world_graft_def dev_read_graft)
next
  case ZeroCopyPass
  then show ?thesis
    by (cases "zero_copy_iter modulo_divisor False (zc w) (page w)")
      (auto simp: world_graft_def zero_copy_iter_graft)
qed simp_all

lemma page_world_graft [simp]: "page (world_graft q w) = graft Tenant_char q (page w)"
  by (simp add: world_graft_def)

lemma upd_page_graft:
  assumes "\<And>r. f (graft Tenant_char q r) = graft Tenant_char q (f r)"
  shows "upd_page f (world_graft q w) = world_graft q (upd_page f w)"
  by (simp add: upd_page_def world_graft_def assms)

lemma sleep_graft:
  "sleep_for_room es (world_graft q w)
    = map_outcome (\<lambda>(res, es', w'). (res, es', world_graft q w')) (sleep_for_room es w)"
proof (induction es arbitrary: w)
  case Nil
  then show ?case by simp
next
  case (Cons e es)
  then show ?case
    by (cases "env_step e w") (auto simp: env_step_graft)
qed

lemma wait_graft:
  "wait_event_interruptible es (world_graft q w)
    = map_outcome (\<lambda>(res, es', w'). (res, es', world_graft q w')) (wait_event_interruptible es w)"
  by (simp add: wait_event_eq sleep_graft)

lemma flag_graft [simp]:
  "raise_asleep (graft Tenant_char q r) = graft Tenant_char q (raise_asleep r)"
  "clear_asleep (graft Tenant_char q r) = graft Tenant_char q (clear_asleep r)"
  by (simp_all add: raise_asleep_def clear_asleep_def)

lemma dev_write_loop_graft:
  "dev_write_loop bs n es (world_graft q w)
    = map_outcome (\<lambda>(res, es', w'). (res, es', world_graft q w')) (dev_write_loop bs n es w)"
proof (induction bs n es w rule: dev_write_loop.induct)
  case (1 n es w)
  then show ?case by simp
next
  case (2 b bs n es w)
  let ?full = "char_next (char_wr (page w)) = char_rd (page w)"
  show ?case
  proof (cases ?full)
    case True
    show ?thesis
    proof (cases "wait_event_interruptible es (upd_page raise_asleep w)")
      case (Return p)
      obtain res es' w' where p: "p = (res, es', w')" by (cases p)
      show ?thesis
        using 2(1) [OF refl refl True Return [unfolded p] refl] True Return p
        by (cases res)
          (simp_all add: dev_write_loop.simps(2) [of b bs n es] upd_page_graft wait_graft)
    qed (use True in \<open>simp_all add: dev_write_loop.simps(2) [of b bs n es] upd_page_graft wait_graft\<close>)
  next
    case False
    then show ?thesis
      using 2(2) [OF refl refl False]
      by (auto simp: dev_write_loop.simps(2) [of b bs n es] upd_page_graft split: option.split)
  qed
qed

lemma dev_write_graft:
  "dev_write bs es (world_graft q w)
    = map_outcome (\<lambda>(woke, res, es', w'). (woke, res, es', world_graft q w')) (dev_write bs es w)"
  by (cases "dev_write_loop bs 0 es w") (auto simp: dev_write_def dev_write_loop_graft)

text \<open>The packets and the block requests, with their accesses checked.\<close>

lemma record_packet_graft:
  "record_packet_checked others m (graft Tenant_net q r)
    = map_outcome (graft Tenant_net q) (record_packet_checked others m r)"
proof -
  have order: "q\<lparr>net_buffer := b, net_ctl := c\<rparr> = q\<lparr>net_ctl := c, net_buffer := b\<rparr>" for b c by simp
  show ?thesis
    by (simp add: record_packet_checked_def claim_ticket_def advance_hint_def graft.simps split_def
        Let_def order)
qed

lemma packet_hook_graft:
  "packet_telemetry_hook_checked others skb (Some (graft Tenant_net q r))
    = map_outcome (\<lambda>(verdict, p). (verdict, map_option (graft Tenant_net q) p))
        (packet_telemetry_hook_checked others skb (Some r))"
  by (simp add: packet_telemetry_hook_checked_def record_packet_graft outcome.map_comp o_def
      split: option.split)

lemma net_pass_graft:
  "bind_outcome (zero_copy_consumer_thread_checked mode [\<lambda>s. s] (graft Tenant_net q r)) (\<lambda>(r', passes). Return r')
    = map_outcome (graft Tenant_net q)
        (bind_outcome (zero_copy_consumer_thread_checked mode [\<lambda>s. s] r) (\<lambda>(r', passes). Return r'))"
proof -
  have parts: "net_thread_begin (graft Tenant_net q s) = graft Tenant_net q (net_thread_begin s)"
    "net_thread_end (graft Tenant_net q s) = graft Tenant_net q (net_thread_end s)"
    "net_store_rd e (graft Tenant_net q s) = graft Tenant_net q (net_store_rd e s)" for s e
    by (simp_all add: net_thread_begin_def net_thread_end_def net_store_rd_def graft.simps)
  have "net_walk_checked mode (graft Tenant_net q s) e = net_walk_checked mode s e" for s e
    by (simp add: net_walk_checked_def split: consumer_mode.split)
  then show ?thesis
    by (cases "net_walk_checked mode (net_thread_begin r) (rd_idx (net_ctl (net_thread_begin r)))")
      (auto simp: zero_copy_consumer_thread_checked_def parts Let_def)
qed

lemma commit_graft:
  "commit_on_page_checked m (graft Tenant_block q r)
    = map_outcome (graft Tenant_block q) (commit_on_page_checked m r)"
  by (simp add: commit_on_page_checked_def graft.simps Let_def)

lemma block_probe_graft:
  "block_rq_issue_pre_handler_checked a api regs (Some (graft Tenant_block q r))
    = map_outcome (\<lambda>(ret, p). (ret, map_option (graft Tenant_block q) p))
        (block_rq_issue_pre_handler_checked a api regs (Some r))"
  by (simp add: block_rq_issue_pre_handler_checked_def commit_graft outcome.map_comp o_def Let_def
      split: option.split)

lemma block_pass_graft:
  "bind_outcome (block_zero_copy_consumer_thread_checked bmode [\<lambda>s. s] (graft Tenant_block q r)) (\<lambda>(r', passes). Return r')
    = map_outcome (graft Tenant_block q)
        (bind_outcome (block_zero_copy_consumer_thread_checked bmode [\<lambda>s. s] r) (\<lambda>(r', passes). Return r'))"
proof -
  have parts: "block_thread_begin (graft Tenant_block q s) = graft Tenant_block q (block_thread_begin s)"
    "block_thread_end (graft Tenant_block q s) = graft Tenant_block q (block_thread_end s)"
    "block_store_rd e (graft Tenant_block q s) = graft Tenant_block q (block_store_rd e s)"
    "block_ctl (graft Tenant_block q s) = block_ctl s" for s e
    by (simp_all add: block_thread_begin_def block_thread_end_def block_store_rd_def graft.simps)
  have "block_walk_checked bmode (graft Tenant_block q s) e = block_walk_checked bmode s e" for s e
    by (simp add: block_walk_checked_def graft.simps)
  then show ?thesis
    by (cases "block_walk_checked bmode (block_thread_begin r) (rd_idx (block_ctl (block_thread_begin r)))")
      (auto simp: block_zero_copy_consumer_thread_checked_def parts Let_def)
qed

lemma run_op_graft:
  "run_op x (graft (op_tenant x) q r) = map_outcome (graft (op_tenant x) q) (run_op x r)"
proof (cases x)
  case (Read_op ok len)
  then show ?thesis by (cases "dev_read ok len r") (auto simp: dev_read_graft)
next
  case (Write_op bs es z)
  let ?w = "\<lparr>page = r, zc = z, delivered = []\<rparr>"
  have "\<lparr>page = graft Tenant_char q r, zc = z, delivered = []\<rparr> = world_graft q ?w"
    by (simp add: world_graft_def)
  then show ?thesis using Write_op by (cases "dev_write bs es ?w") (auto simp: dev_write_graft)
next
  case (Zero_copy_op fin z)
  then show ?thesis
    by (cases "zero_copy_iter modulo_divisor fin z r") (auto simp: zero_copy_iter_graft)
next
  case (Push_char_op m)
  then show ?thesis
    by (cases "char_push_loop (take sizeof_net_packet_metric (metric_bytes m)) r")
      (auto simp: telemetry_shared_char_dev_push_metric_def char_push_loop_graft)
next
  case (Push_net_op m)
  then show ?thesis
    by (cases "net_push_loop (take sizeof_net_packet_metric (metric_bytes m)) r")
      (auto simp: telemetry_net_dev_push_metric_def net_push_loop_graft)
next
  case (Packet_op others skb)
  have some: "snd x \<noteq> None" if "packet_telemetry_hook_checked others skb (Some r) = Return x" for x
    using that by (auto simp: packet_telemetry_hook_checked_def split: option.splits
        dest!: map_outcome_Return)
  then show ?thesis
    using Packet_op by (cases "packet_telemetry_hook_checked others skb (Some r)")
      (auto simp: packet_hook_graft)
next
  case (Bio_op a api regs)
  have some: "snd x \<noteq> None" if "block_rq_issue_pre_handler_checked a api regs (Some r) = Return x" for x
    using that by (auto simp: block_rq_issue_pre_handler_checked_def split: option.splits if_splits
        dest!: map_outcome_Return)
  then show ?thesis
    using Bio_op by (cases "block_rq_issue_pre_handler_checked a api regs (Some r)")
      (auto simp: block_probe_graft)
qed (simp_all only: run_op.simps op_tenant.simps net_pass_graft block_pass_graft)

text \<open>So it leaves the other tenants alone, and its result depends on its own tenant only.\<close>

lemma run_op_own:
  assumes "run_op x r = Return r'"
  shows "graft (op_tenant x) r r' = r'"
  using run_op_graft [of x r r] assms graft_same [of "op_tenant x" r r]
  by (cases "op_tenant x") simp_all

lemma run_op_others:
  assumes "run_op x r = Return r'" "k \<noteq> op_tenant x"
  shows "same_tenant k r' r"
  using graft_other [OF assms(2), of r r'] run_op_own [OF assms(1)] by simp

lemma run_op_depends:
  assumes "run_op x r = Return r'" "same_tenant (op_tenant x) r s"
  shows "\<exists>s'. run_op x s = Return s' \<and> same_tenant (op_tenant x) r' s'"
proof -
  have "run_op x (graft (op_tenant x) s r) = Return (graft (op_tenant x) s r')"
    using run_op_graft [of x s r] assms(1) by simp
  moreover have "graft (op_tenant x) s r = s"
    using graft_same assms(2) same_tenant_sym by (cases "op_tenant x") (simp_all add: graft.simps)
  ultimately show ?thesis using same_graft same_tenant_sym by metis
qed

lemma run_ops_purge:
  assumes "run_ops xs r = Return r'" "same_tenant k r s"
  shows "\<exists>s'. run_ops (filter (\<lambda>x. op_tenant x = k) xs) s = Return s' \<and> same_tenant k r' s'"
  using assms
proof (induction xs arbitrary: r s)
  case Nil
  then show ?case by simp
next
  case (Cons x xs)
  obtain r1 where r1: "run_op x r = Return r1" "run_ops xs r1 = Return r'"
    using Cons.prems(1) by (auto simp: bind_outcome_Return)
  show ?case
  proof (cases "op_tenant x = k")
    case True
    obtain s1 where s1: "run_op x s = Return s1" "same_tenant k r1 s1"
      using run_op_depends [OF r1(1)] Cons.prems(2) True by blast
    show ?thesis using Cons.IH [OF r1(2) s1(2)] s1(1) True by simp
  next
    case False
    then have "same_tenant k r1 s"
      using run_op_others [OF r1(1), of k] Cons.prems(2) same_tenant_trans by metis
    then show ?thesis using Cons.IH [OF r1(2)] False by simp
  qed
qed

section \<open>Every operation returns\<close>

declare net_buffer_length [simp del] block_buffer_length [simp del]

text \<open>
  The states in which every operation stays inside its arrays: the arrays have their lengths,
  the indices of the character ring are below its capacity, and so is the index that the
  byte-wise push of packets uses.
\<close>

definition sys_ok :: "shared_ring \<Rightarrow> bool" where
  "sys_ok r \<longleftrightarrow> page_ok r \<and> char_inv r
     \<and> unat (wr_idx (net_ctl r)) < TELEMETRY_NETFILTER_RING_BUFFER_CAPACITY"

lemma sys_ok_zeroed: "sys_ok zeroed_page"
  by (simp add: sys_ok_def layout_simps) (simp add: zeroed_page_def)

lemma sys_ok_char:
  assumes "sys_ok r" "run_op x r = Return r'" "op_tenant x = Tenant_char" "char_inv r'"
  shows "sys_ok r'"
proof -
  have other: "same_tenant k r' r" if "k \<noteq> Tenant_char" for k
    using run_op_others [OF assms(2)] that assms(3) by simp
  have len: "length (char_buffer r') = TELEMETRY_RING_BUFFER_CAPACITY"
    using assms(4) by (simp only: char_inv_def ring_ok_def)
  have "page_ok r'"
    using assms(1) len other [of Tenant_net] other [of Tenant_block] other [of Tenant_mem]
      other [of Tenant_cpu]
    by (simp add: sys_ok_def page_ok_def)
  then show ?thesis using assms(1,4) other [of Tenant_net] by (simp add: sys_ok_def)
qed

lemma net_push_loop_returns:
  assumes "sys_ok r"
  shows "\<exists>ret r'. net_push_loop bs r = Return (ret, r') \<and> sys_ok r'"
  using assms
proof (induction bs arbitrary: r)
  case Nil
  then show ?case by simp
next
  case (Cons b bs)
  let ?r = "set_net_wr (net_next (net_wr r)) (store_net (net_wr r) b r)"
  have "unat (net_next (net_wr r)) < TELEMETRY_NETFILTER_RING_BUFFER_CAPACITY"
    using Cons.prems ring_next_less [of TELEMETRY_NETFILTER_RING_BUFFER_CAPACITY "net_wr r"]
    by (simp add: sys_ok_def net_next_def layout_simps)
  then have "sys_ok ?r"
    using Cons.prems by (simp add: sys_ok_def page_ok_def page_update_defs char_inv_def)
  from Cons.IH [OF this] obtain ret t where t: "net_push_loop bs ?r = Return (ret, t)" "sys_ok t"
    by blast
  have "unat (net_wr r) < length (net_buffer r)"
    using Cons.prems by (simp add: sys_ok_def page_ok_def)
  then show ?case
    using t Cons.prems by (cases "net_next (net_wr r) = net_rd r") (simp_all add: Let_def)
qed

lemma sys_ok_other:
  assumes "sys_ok r" "char_ctl r' = char_ctl r" "char_buffer r' = char_buffer r" "page_ok r'"
    and "unat (wr_idx (net_ctl r')) < TELEMETRY_NETFILTER_RING_BUFFER_CAPACITY"
  shows "sys_ok r'"
  using assms by (simp add: sys_ok_def char_inv_def)

text \<open>The operations on the slots stay inside their buffers, and keep what the others rely on.\<close>

lemma sys_ok_record:
  assumes "sys_ok r"
  shows "\<exists>r'. record_packet_checked others m r = Return r' \<and> sys_ok r'"
proof -
  have "sys_ok (record_packet others m r)"
  proof (rule sys_ok_other [OF assms])
    show "page_ok (record_packet others m r)" using assms page_ok_record by (simp add: sys_ok_def)
    show "unat (wr_idx (net_ctl (record_packet others m r))) < TELEMETRY_NETFILTER_RING_BUFFER_CAPACITY"
      using hint_of_record [of others m r] by (simp add: layout_simps)
  qed (simp_all add: record_packet_effect Let_def)
  then show ?thesis using assms record_packet_checked_eq by (simp add: sys_ok_def)
qed

lemma sys_ok_commit:
  assumes "sys_ok r"
  shows "\<exists>r'. commit_on_page_checked m r = Return r' \<and> sys_ok r'"
proof -
  have "sys_ok (commit_on_page m r)"
  proof (rule sys_ok_other [OF assms])
    show "page_ok (commit_on_page m r)" using assms by (simp add: sys_ok_def)
  qed (use assms in \<open>simp_all add: commit_on_page_def Let_def sys_ok_def\<close>)
  then show ?thesis using assms commit_on_page_checked_eq by (simp add: sys_ok_def)
qed

lemma sys_ok_net_pass:
  assumes "sys_ok r"
  shows "\<exists>r' passes. zero_copy_consumer_thread_checked mode [\<lambda>s. s] r = Return (r', passes) \<and> sys_ok r'"
proof -
  have "sys_ok (fst (zero_copy_consumer_thread mode [\<lambda>s. s] r))"
    by (rule sys_ok_other [OF assms])
      (use assms in \<open>simp_all add: sys_ok_def page_ok_def zero_copy_consumer_thread_def
        net_thread_begin_def net_thread_end_def net_store_rd_def Let_def split_def\<close>)
  then show ?thesis
    using assms zero_copy_consumer_thread_checked_eq [of r "[\<lambda>s. s]" mode]
    by (cases "zero_copy_consumer_thread mode [\<lambda>s. s] r") (simp add: sys_ok_def)
qed

lemma sys_ok_block_pass:
  assumes "sys_ok r"
  shows "\<exists>r' passes. block_zero_copy_consumer_thread_checked bmode [\<lambda>s. s] r = Return (r', passes) \<and> sys_ok r'"
proof -
  have "sys_ok (fst (block_zero_copy_consumer_thread bmode [\<lambda>s. s] r))"
    by (rule sys_ok_other [OF assms])
      (use assms in \<open>simp_all add: sys_ok_def page_ok_def block_zero_copy_consumer_thread_def
        block_thread_begin_def block_thread_end_def block_store_rd_def Let_def split_def\<close>)
  then show ?thesis
    using assms block_zero_copy_consumer_thread_checked_eq [of r "[\<lambda>s. s]" bmode]
    by (cases "block_zero_copy_consumer_thread bmode [\<lambda>s. s] r") (simp add: sys_ok_def)
qed

text \<open>Of an operation on the character stream only the invariant of the stream is left to show.\<close>

lemma run_op_char_returns:
  assumes "char_inv r" "op_tenant x = Tenant_char"
  shows "\<exists>r'. run_op x r = Return r' \<and> char_inv r'"
proof (cases x)
  case (Read_op ok len)
  show ?thesis using dev_read_stream [OF assms(1), of ok len] Read_op by auto
next
  case (Write_op bs es z)
  let ?w = "\<lparr>page = r, zc = z, delivered = []\<rparr>"
  obtain res es' w' where "dev_write_loop bs 0 es ?w = Return (res, es', w')" "char_inv (page w')"
    using dev_write_loop_stream [of ?w bs 0 es] assms(1) by auto
  then show ?thesis using dev_write_of_loop Write_op by auto
next
  case (Zero_copy_op fin z)
  have "modulo_divisor \<noteq> 0" by (simp add: modulo_divisor_def layout_simps)
  then show ?thesis using zero_copy_iter_stream [OF assms(1), of modulo_divisor fin z] Zero_copy_op by auto
next
  case (Push_char_op m)
  obtain ok t where put: "put_all char_put (metric_bytes m) r = (ok, t)" by fastforce
  then have "char_inv t" using char_fifo.put_all_spec [OF assms(1)] by blast
  then show ?thesis
    using Push_char_op put char_push_loop_put_all [OF assms(1)]
    by (simp add: telemetry_shared_char_dev_push_metric_def layout_simps)
qed (use assms(2) in simp_all)

lemma run_op_returns:
  assumes "sys_ok r"
  shows "\<exists>r'. run_op x r = Return r' \<and> sys_ok r'"
proof (cases "op_tenant x = Tenant_char")
  case True
  then show ?thesis
    using run_op_char_returns [of r x] sys_ok_char [OF assms] assms by (auto simp: sys_ok_def)
next
  case False
  show ?thesis
  proof (cases x)
    case (Push_net_op m)
    then show ?thesis
      using net_push_loop_returns [OF assms, of "take sizeof_net_packet_metric (metric_bytes m)"]
      by (auto simp: telemetry_net_dev_push_metric_def)
  next
    case (Packet_op others skb)
    show ?thesis
    proof (cases "traced_metric skb")
      case (Some m)
      then show ?thesis
        using sys_ok_record [OF assms, of others m] Packet_op by (auto simp: packet_telemetry_hook_checked_def)
    qed (use Packet_op assms in \<open>simp add: packet_telemetry_hook_checked_def\<close>)
  next
    case (Bio_op a api regs)
    let ?bio = "case a of CONFIG_X86_64 \<Rightarrow> di regs | CONFIG_ARM64 \<Rightarrow> regs0 regs | Other_arch \<Rightarrow> None"
    have "\<exists>r'. block_rq_issue_pre_handler_checked a api regs (Some r) = Return (0, Some r') \<and> sys_ok r'"
    proof (cases "Option.bind ?bio bi_bdev")
      case None
      then show ?thesis
        using assms by (auto simp: block_rq_issue_pre_handler_checked_def bind_eq_None_conv split: option.split)
    next
      case (Some dev)
      then show ?thesis
        using sys_ok_commit [OF assms, of "bio_metric api dev (the ?bio)"]
        by (auto simp: block_rq_issue_pre_handler_checked_def bind_eq_Some_conv block_slot_capacity)
    qed
    then show ?thesis using Bio_op by auto
  next
    case (Net_pass_op mode)
    then show ?thesis using sys_ok_net_pass [OF assms, of mode] by auto
  next
    case (Block_pass_op bmode)
    then show ?thesis using sys_ok_block_pass [OF assms, of bmode] by auto
  qed (use False in simp_all)
qed

lemma run_ops_returns: "sys_ok r \<Longrightarrow> \<exists>r'. run_ops xs r = Return r' \<and> sys_ok r'"
proof (induction xs arbitrary: r)
  case Nil
  then show ?case by simp
next
  case (Cons x xs)
  then obtain r1 where "run_op x r = Return r1" "sys_ok r1" using run_op_returns by blast
  with Cons.IH show ?case by simp
qed

section \<open>Two users of one lane\<close>

text \<open>
  The byte-wise push and the packet hook share the network lane with different meanings of its
  write index: a byte position and a slot number plus one. Where the bytes of a push go.
\<close>

lemma net_push_bytes:
  assumes "page_ok r" "unat (net_wr r) + length bs < TELEMETRY_NETFILTER_RING_BUFFER_CAPACITY"
    and "\<forall>k<length bs. unat (net_rd r) \<noteq> unat (net_wr r) + k + 1"
  shows "\<exists>r'. net_push_loop bs r = Return (Inr (), r')
    \<and> net_buffer r' = write_at (unat (net_wr r)) bs (net_buffer r)"
  using assms
proof (induction bs arbitrary: r)
  case Nil
  then show ?case by (simp add: write_at_def)
next
  case (Cons b bs)
  let ?i = "unat (net_wr r)"
  let ?r = "set_net_wr (net_next (net_wr r)) (store_net (net_wr r) b r)"
  have next_i: "unat (net_next (net_wr r)) = ?i + 1"
    using Cons.prems(2) unat_ring_next [of TELEMETRY_NETFILTER_RING_BUFFER_CAPACITY "net_wr r"]
    by (simp add: net_next_def layout_simps)
  have len: "?i < length (net_buffer r)"
    using Cons.prems(1,2) by (simp add: page_ok_def)
  have "net_next (net_wr r) \<noteq> net_rd r"
    using Cons.prems(3) next_i by (auto simp: unat_eq_iff)
  moreover have "\<exists>r'. net_push_loop bs ?r = Return (Inr (), r')
      \<and> net_buffer r' = write_at (unat (net_wr ?r)) bs (net_buffer ?r)"
  proof (rule Cons.IH)
    show "page_ok ?r" using Cons.prems(1) by (simp add: page_ok_def page_update_defs)
    show "unat (net_wr ?r) + length bs < TELEMETRY_NETFILTER_RING_BUFFER_CAPACITY"
      using Cons.prems(2) next_i by (simp add: page_update_defs)
    show "\<forall>k<length bs. unat (net_rd ?r) \<noteq> unat (net_wr ?r) + k + 1"
      using Cons.prems(3) next_i by (auto simp: page_update_defs)
  qed
  moreover have "write_at (?i + 1) bs ((net_buffer r)[?i := b]) = write_at ?i (b # bs) (net_buffer r)"
    using len by (simp add: write_at_def take_Suc_conv_app_nth upd_conv_take_nth_drop add.commute)
  ultimately show ?case
    using len next_i by (auto simp: Let_def page_update_defs)
qed

text \<open>What a push at byte 1 does to the first slot: it ends inside the stamp.\<close>

lemma push_over_stamp:
  assumes "length pool = 768" "read_at 16 4 pool = [b0, 0, 0, 0]"
  shows "net_slot_ticket (write_at 1 (metric_bytes n) pool) 0 = drop_bit 24 (pkt_len n)"
proof -
  have old: "pool ! 17 = 0" "pool ! 18 = 0" "pool ! 19 = 0"
    using arg_cong [OF assms(2), of "\<lambda>l. l ! 1"] arg_cong [OF assms(2), of "\<lambda>l. l ! 2"]
      arg_cong [OF assms(2), of "\<lambda>l. l ! 3"] assms(1)
    by (simp_all add: nth_read_at)
  have last: "metric_bytes n ! 15 = ucast (drop_bit 24 (pkt_len n))"
    by (simp add: metric_bytes_def nth_append le_bytes_def)
  have "read_at 16 4 (write_at 1 (metric_bytes n) pool) = [metric_bytes n ! 15, 0, 0, 0]"
  proof (rule nth_equalityI)
    fix i assume "i < length (read_at 16 4 (write_at 1 (metric_bytes n) pool))"
    then have i: "i = 0 \<or> i = 1 \<or> i = 2 \<or> i = 3" using assms(1) by (auto simp: less_Suc_eq)
    then show "read_at 16 4 (write_at 1 (metric_bytes n) pool) ! i = [metric_bytes n ! 15, 0, 0, 0] ! i"
      using assms(1) old by (elim disjE) (simp_all add: nth_read_at nth_write_at)
  qed (use assms(1) in simp)
  then have "net_slot_ticket (write_at 1 (metric_bytes n) pool) 0
      = ucast (ucast (drop_bit 24 (pkt_len n)) :: u8)"
    by (simp add: net_slot_ticket_def layout_simps load32_def last)
  also have "\<dots> = drop_bit 24 (pkt_len n)"
    by (rule bit_word_eqI) (auto simp: bit_simps dest: bit_imp_le_length)
  finally show ?thesis .
qed

lemma stamp_bytes:
  "length pool = 768 \<Longrightarrow> read_at 16 4 (store_net_ticket 0 t pool) = le_bytes 4 t"
  by (simp add: store_net_ticket_def store32_def layout_simps read_at_write_same)

end
