(* ===== verification/CharSMP.thy ===== *)
theory CharSMP
  imports CharWrite
begin

text \<open>
  The character device with any number of writers and pushers and the zero-copy consumer at the
  same time (\<open>dev_write\<close> and \<open>telemetry_shared_char_dev_push_metric\<close> of
  \<open>kernel/telemetry_core.c\<close>, \<open>zero_copy_consumer\<close> of \<open>user/telemetry_user.c\<close>). Every access that another party can observe is a step of its
  own: taking the lock and the snapshot of the read index, the store of the byte, the
  publication of the write index, the wait condition, the flag, the wake-up. The invariant
  gives the safety of the stream under every interleaving; a run of the model shows the
  wake-up that two sleeping writers can lose.
\<close>

section \<open>The steps\<close>

text \<open>
  Where a writer is in the loop of \<open>dev_write\<close>, with its remaining bytes: before
  \<open>spin_lock\<close>, inside it with its snapshot, after \<open>get_user\<close> stored the byte, evaluating
  the wait condition (on the wait queue), asleep, and before clearing the flag. A party that
  pushes a metric (\<open>telemetry_shared_char_dev_push_metric\<close>) is before the lock, inside it at
  the head of its loop, or has stored a byte that it has not yet published; it keeps the lock
  for the whole metric.
\<close>

datatype writer_pc = Outside | Acquire "u8 list" | Locked "u8 list" u32 | Stored "u8 list"
  | Waiting "u8 list" | Sleeping "u8 list" | Clearing "u8 list"
  | Push_acquire "u8 list" | Push "u8 list" | Push_stored "u8 list"

fun pending :: "writer_pc \<Rightarrow> u8 list" where
  "pending Outside = []"
| "pending (Acquire bs) = bs"
| "pending (Locked bs snap) = bs"
| "pending (Stored bs) = bs"
| "pending (Waiting bs) = bs"
| "pending (Sleeping bs) = bs"
| "pending (Clearing bs) = bs"
| "pending (Push_acquire bs) = bs"
| "pending (Push bs) = bs"
| "pending (Push_stored bs) = bs"

fun in_lock :: "writer_pc \<Rightarrow> bool" where
  "in_lock (Locked bs snap) = True"
| "in_lock (Stored bs) = True"
| "in_lock (Push bs) = True"
| "in_lock (Push_stored bs) = True"
| "in_lock p = False"

datatype consumer_pc = C_top | C_have u32 | C_flag | C_empty

text \<open>
  \<open>committed\<close> (the published bytes with their writers), \<open>received\<close> (what the consumer
  took) and \<open>submitted\<close> (what each writer was asked to write) are history variables.
\<close>

record char_smp =
  kring :: shared_ring
  spinlock :: "nat option"
  writers :: "nat \<Rightarrow> writer_pc"
  consumer :: consumer_pc
  kicks :: int
  committed :: "(nat \<times> u8) list"
  received :: "u8 list"
  submitted :: "nat \<Rightarrow> u8 list"

definition char_smp_start :: char_smp where
  "char_smp_start = \<lparr>kring = zeroed_page, spinlock = None, writers = (\<lambda>w. Outside), consumer = C_top,
     kicks = 0, committed = [], received = [], submitted = (\<lambda>w. [])\<rparr>"

definition bytes_of :: "nat \<Rightarrow> (nat \<times> u8) list \<Rightarrow> u8 list" where
  "bytes_of w cs = map snd (filter (\<lambda>c. fst c = w) cs)"

text \<open>\<open>wake_up_interruptible\<close> wakes every sleeper; each evaluates its condition again.\<close>

definition wake_all :: "(nat \<Rightarrow> writer_pc) \<Rightarrow> nat \<Rightarrow> writer_pc" where
  "wake_all ws = (\<lambda>w. case ws w of Sleeping bs \<Rightarrow> Waiting bs | p \<Rightarrow> p)"

inductive writer_step :: "char_smp \<Rightarrow> char_smp \<Rightarrow> bool" where
  call: "writers s w = Outside \<Longrightarrow> bs \<noteq> [] \<Longrightarrow>
    writer_step s (s\<lparr>writers := (writers s)(w := Acquire bs),
      submitted := (submitted s)(w := submitted s w @ bs)\<rparr>)"
| acquire: "writers s w = Acquire bs \<Longrightarrow> spinlock s = None \<Longrightarrow>
    writer_step s (s\<lparr>spinlock := Some w, writers := (writers s)(w := Locked bs (char_rd (kring s)))\<rparr>)"
| full: "writers s w = Locked bs snap \<Longrightarrow> char_next (char_wr (kring s)) = snap \<Longrightarrow>
    writer_step s (s\<lparr>kring := raise_asleep (kring s), spinlock := None,
      writers := (writers s)(w := Waiting bs)\<rparr>)"
| store: "writers s w = Locked (b # bs) snap \<Longrightarrow> char_next (char_wr (kring s)) \<noteq> snap \<Longrightarrow>
    writer_step s (s\<lparr>kring := store_char (char_wr (kring s)) b (kring s),
      writers := (writers s)(w := Stored (b # bs))\<rparr>)"
| publish: "writers s w = Stored (b # bs) \<Longrightarrow>
    writer_step s (s\<lparr>kring := set_char_wr (char_next (char_wr (kring s))) (kring s), spinlock := None,
      writers := (writers s)(w := (if bs = [] then Outside else Acquire bs)),
      committed := committed s @ [(w, b)]\<rparr>)"
| check_room: "writers s w = Waiting bs \<Longrightarrow> has_room (kring s) \<Longrightarrow>
    writer_step s (s\<lparr>writers := (writers s)(w := Clearing bs)\<rparr>)"
| check_full: "writers s w = Waiting bs \<Longrightarrow> \<not> has_room (kring s) \<Longrightarrow>
    writer_step s (s\<lparr>writers := (writers s)(w := Sleeping bs)\<rparr>)"
| signal: "writers s w = Sleeping bs \<Longrightarrow>
    writer_step s (s\<lparr>writers := (writers s)(w := Outside),
      submitted := (submitted s)(w := bytes_of w (committed s))\<rparr>)"
| clear: "writers s w = Clearing bs \<Longrightarrow> spinlock s = None \<Longrightarrow>
    writer_step s (s\<lparr>kring := clear_asleep (kring s), writers := (writers s)(w := Acquire bs)\<rparr>)"
| fault: "writers s w = Locked (b # bs) snap \<Longrightarrow> char_next (char_wr (kring s)) \<noteq> snap \<Longrightarrow>
    writer_step s (s\<lparr>kring := store_char (char_wr (kring s)) 0 (kring s), spinlock := None,
      writers := (writers s)(w := Outside),
      submitted := (submitted s)(w := bytes_of w (committed s))\<rparr>)"
| empty_write: "writers s w = Outside \<Longrightarrow>
    writer_step s (s\<lparr>writers := wake_all (writers s)\<rparr>)"
| push_call: "writers s w = Outside \<Longrightarrow>
    writer_step s (s\<lparr>writers := (writers s)(w := Push_acquire (metric_bytes m)),
      submitted := (submitted s)(w := submitted s w @ metric_bytes m)\<rparr>)"
| push_lock: "writers s w = Push_acquire bs \<Longrightarrow> spinlock s = None \<Longrightarrow>
    writer_step s (s\<lparr>spinlock := Some w, writers := (writers s)(w := Push bs)\<rparr>)"
| push_full: "writers s w = Push (b # bs) \<Longrightarrow> \<not> has_room (kring s) \<Longrightarrow>
    writer_step s (s\<lparr>spinlock := None, writers := (writers s)(w := Outside),
      submitted := (submitted s)(w := bytes_of w (committed s))\<rparr>)"
| push_store: "writers s w = Push (b # bs) \<Longrightarrow> has_room (kring s) \<Longrightarrow>
    writer_step s (s\<lparr>kring := store_char (char_wr (kring s)) b (kring s),
      writers := (writers s)(w := Push_stored (b # bs))\<rparr>)"
| push_publish: "writers s w = Push_stored (b # bs) \<Longrightarrow>
    writer_step s (s\<lparr>kring := set_char_wr (char_next (char_wr (kring s))) (kring s),
      writers := (writers s)(w := Push bs), committed := committed s @ [(w, b)]\<rparr>)"
| push_end: "writers s w = Push [] \<Longrightarrow>
    writer_step s (s\<lparr>spinlock := None, writers := (writers s)(w := Outside)\<rparr>)"

inductive consumer_step :: "char_smp \<Rightarrow> char_smp \<Rightarrow> bool" where
  load_some: "consumer s = C_top \<Longrightarrow> char_rd (kring s) \<noteq> char_wr (kring s) \<Longrightarrow>
    consumer_step s (s\<lparr>consumer := C_have (char_rd (kring s))\<rparr>)"
| load_none: "consumer s = C_top \<Longrightarrow> char_rd (kring s) = char_wr (kring s) \<Longrightarrow>
    consumer_step s (s\<lparr>consumer := C_empty\<rparr>)"
| take_byte: "consumer s = C_have rd \<Longrightarrow>
    consumer_step s (s\<lparr>kring := set_char_rd (char_next rd) (kring s), consumer := C_flag,
      received := received s @ [char_buffer (kring s) ! unat rd]\<rparr>)"
| kick: "consumer s = C_flag \<Longrightarrow> writer_asleep (kring s) \<Longrightarrow> kicks s = 0 \<Longrightarrow>
    consumer_step s (s\<lparr>writers := wake_all (writers s), kicks := 1, consumer := C_top\<rparr>)"
| skip_kick: "consumer s = C_flag \<Longrightarrow> writer_asleep (kring s) \<Longrightarrow> kicks s \<noteq> 0 \<Longrightarrow>
    consumer_step s (s\<lparr>kicks := c_rem (kicks s + 1) modulo_divisor, consumer := C_top\<rparr>)"
| no_flag: "consumer s = C_flag \<Longrightarrow> \<not> writer_asleep (kring s) \<Longrightarrow>
    consumer_step s (s\<lparr>consumer := C_top\<rparr>)"
| empty_kick: "consumer s = C_empty \<Longrightarrow> writer_asleep (kring s) \<Longrightarrow>
    consumer_step s (s\<lparr>writers := wake_all (writers s), consumer := C_top\<rparr>)"
| empty_wait: "consumer s = C_empty \<Longrightarrow> \<not> writer_asleep (kring s) \<Longrightarrow>
    consumer_step s (s\<lparr>consumer := C_top\<rparr>)"

inductive_cases writer_stepE: "writer_step s s'"
inductive_cases consumer_stepE: "consumer_step s s'"

inductive char_reach :: "char_smp \<Rightarrow> bool" where
  start: "char_reach char_smp_start"
| writer: "char_reach s \<Longrightarrow> writer_step s s' \<Longrightarrow> char_reach s'"
| consumer: "char_reach s \<Longrightarrow> consumer_step s s' \<Longrightarrow> char_reach s'"

section \<open>Effects on the ring\<close>

lemma store_at_write_index:
  assumes "char_inv r"
  shows "char_inv (store_char (char_wr r) b r)"
    "char_content (store_char (char_wr r) b r) = char_content r"
    "char_buffer (store_char (char_wr r) b r) ! unat (char_wr r) = b"
proof -
  have ok: "ring_ok TELEMETRY_RING_BUFFER_CAPACITY (char_rd r) (char_wr r) (char_buffer r)"
    using assms by (simp add: char_inv_def)
  show "char_inv (store_char (char_wr r) b r)"
    using ok by (simp add: char_inv_def store_char_def ring_ok_def)
  show "char_content (store_char (char_wr r) b r) = char_content r"
    using ring_slot_other [OF ok]
    by (auto simp: store_char_def char_content_def ring_content_def
        intro!: nth_list_update_neq dest: sym)
  show "char_buffer (store_char (char_wr r) b r) ! unat (char_wr r) = b"
    using ok by (simp add: store_char_def ring_ok_def)
qed

lemma publish_stored:
  assumes "char_inv r" "has_room r" "char_buffer r ! unat (char_wr r) = b"
  shows "char_inv (set_char_wr (char_next (char_wr r)) r)"
    "char_content (set_char_wr (char_next (char_wr r)) r) = char_content r @ [b]"
proof -
  have "store_char (char_wr r) b r = r"
    using assms(3) by (simp add: store_char_def list_update_id [of _ "unat (char_wr r)"] flip: assms(3))
  then have "char_put b r = Some (set_char_wr (char_next (char_wr r)) r)"
    using assms(2) by (simp add: char_put_def has_room_def)
  from char_fifo.put_SomeD [OF assms(1) this]
  show "char_inv (set_char_wr (char_next (char_wr r)) r)"
    "char_content (set_char_wr (char_next (char_wr r)) r) = char_content r @ [b]" by auto
qed

lemma char_content_nil_iff: "char_inv r \<Longrightarrow> (char_content r = []) = (char_rd r = char_wr r)"
  unfolding char_inv_def char_content_def by (rule ring_content_nil_iff)

lemma take_oldest:
  assumes "char_inv r" "char_rd r \<noteq> char_wr r"
  shows "char_inv (set_char_rd (char_next (char_rd r)) r)"
    "char_content r = char_buffer r ! unat (char_rd r) # char_content (set_char_rd (char_next (char_rd r)) r)"
proof -
  have "char_get r = Some (char_buffer r ! unat (char_rd r), set_char_rd (char_next (char_rd r)) r)"
    using assms(2) by (simp add: char_get_def)
  from char_fifo.get_SomeD [OF assms(1) this]
  show "char_inv (set_char_rd (char_next (char_rd r)) r)"
    "char_content r = char_buffer r ! unat (char_rd r) # char_content (set_char_rd (char_next (char_rd r)) r)"
    by auto
qed

text \<open>
  A snapshot of the read index that the consumer has since moved on is safe: the ring has at
  least the room that the snapshot promises.
\<close>

definition stale_ok :: "shared_ring \<Rightarrow> u32 \<Rightarrow> bool" where
  "stale_ok r snap \<longleftrightarrow> unat snap < TELEMETRY_RING_BUFFER_CAPACITY
     \<and> length (char_content r) \<le> ring_count TELEMETRY_RING_BUFFER_CAPACITY snap (char_wr r)"

lemma stale_ok_now: "char_inv r \<Longrightarrow> stale_ok r (char_rd r)"
  by (simp add: stale_ok_def char_inv_def ring_ok_def char_content_def)

lemma stale_ok_room:
  assumes "char_inv r" "stale_ok r snap" "char_next (char_wr r) \<noteq> snap"
  shows "has_room r"
proof -
  let ?c = TELEMETRY_RING_BUFFER_CAPACITY
  have ok: "ring_ok ?c snap (char_wr r) (char_buffer r)"
    using assms(1,2) by (simp add: char_inv_def ring_ok_def stale_ok_def)
  have "ring_count ?c snap (char_wr r) < ?c - 1"
    using ring_full_iff [OF ok] ring_count_less [of ?c snap "char_wr r"] assms(3)
    by (simp add: char_next_def layout_simps)
  then show ?thesis using assms(1,2) by (simp add: has_room_iff stale_ok_def)
qed

section \<open>The invariant\<close>

fun writer_ok :: "shared_ring \<Rightarrow> writer_pc \<Rightarrow> bool" where
  "writer_ok r Outside = True"
| "writer_ok r (Locked bs snap) = (bs \<noteq> [] \<and> stale_ok r snap)"
| "writer_ok r (Stored bs) = (bs \<noteq> [] \<and> has_room r \<and> char_buffer r ! unat (char_wr r) = hd bs)"
| "writer_ok r (Push_acquire bs) = True"
| "writer_ok r (Push bs) = True"
| "writer_ok r (Push_stored bs) = (bs \<noteq> [] \<and> has_room r \<and> char_buffer r ! unat (char_wr r) = hd bs)"
| "writer_ok r p = (pending p \<noteq> [])"

fun consumer_ok :: "shared_ring \<Rightarrow> consumer_pc \<Rightarrow> bool" where
  "consumer_ok r (C_have rd) = (rd = char_rd r \<and> char_content r \<noteq> [])"
| "consumer_ok r p = True"

definition char_smp_inv :: "char_smp \<Rightarrow> bool" where
  "char_smp_inv s \<longleftrightarrow> char_inv (kring s)
     \<and> received s @ char_content (kring s) = map snd (committed s)
     \<and> (\<forall>w. in_lock (writers s w) = (spinlock s = Some w))
     \<and> (\<forall>w. writer_ok (kring s) (writers s w))
     \<and> consumer_ok (kring s) (consumer s)
     \<and> (\<forall>w. bytes_of w (committed s) @ pending (writers s w) = submitted s w)"

lemma writer_ok_outside: "\<not> in_lock p \<Longrightarrow> writer_ok r p = writer_ok r' p"
  by (cases p) simp_all

lemma writer_ok_flags [simp]:
  "writer_ok (set_char_flags f r) p = writer_ok r p"
  by (cases p) (simp_all add: stale_ok_def set_char_flags_def has_room_def char_content_def)

lemma consumer_ok_flags [simp]: "consumer_ok (set_char_flags f r) p = consumer_ok r p"
  by (cases p) (simp_all add: set_char_flags_def char_content_def)

lemma raise_clear_ok [simp]:
  "writer_ok (raise_asleep r) p = writer_ok r p" "writer_ok (clear_asleep r) p = writer_ok r p"
  "consumer_ok (raise_asleep r) q = consumer_ok r q" "consumer_ok (clear_asleep r) q = consumer_ok r q"
  by (simp_all add: raise_asleep_def clear_asleep_def)

lemma wake_all_neutral [simp]:
  "in_lock (wake_all ws w) = in_lock (ws w)" "pending (wake_all ws w) = pending (ws w)"
  "writer_ok r (wake_all ws w) = writer_ok r (ws w)"
  by (cases "ws w"; simp add: wake_all_def)+

lemma bytes_of_snoc [simp]: "bytes_of w (cs @ [(v, b)]) = bytes_of w cs @ (if v = w then [b] else [])"
  by (simp add: bytes_of_def)

lemma char_smp_invD:
  assumes "char_smp_inv s"
  shows "char_inv (kring s)" "in_lock (writers s w) = (spinlock s = Some w)"
    "writer_ok (kring s) (writers s w)" "bytes_of w (committed s) @ pending (writers s w) = submitted s w"
  using assms unfolding char_smp_inv_def by blast+

lemma char_smp_inv_start: "char_smp_inv char_smp_start"
  by (simp add: char_smp_inv_def char_smp_start_def bytes_of_def)

lemma stale_ok_store [simp]: "char_inv r \<Longrightarrow> stale_ok (store_char (char_wr r) b r) snap = stale_ok r snap"
  using store_at_write_index(2) [of r b] by (simp add: stale_ok_def store_char_def)

text \<open>The holder of the lock is alone in it, so a step of the holder disturbs nobody.\<close>

lemma others_ok:
  assumes "char_smp_inv s" "spinlock s = Some w" "v \<noteq> w"
  shows "\<not> in_lock (writers s v)" "writer_ok r (writers s v)"
proof -
  show out: "\<not> in_lock (writers s v)" using assms by (simp add: char_smp_inv_def)
  have "writer_ok (kring s) (writers s v)" using assms(1) by (simp add: char_smp_inv_def)
  then show "writer_ok r (writers s v)" using writer_ok_outside [OF out] by blast
qed

lemma holder:
  assumes "char_smp_inv s" "in_lock (writers s w)"
  shows "spinlock s = Some w"
  using assms by (simp add: char_smp_inv_def)

text \<open>A byte stored at the write index is invisible, and publishing it appends it.\<close>

lemma consumer_ok_store:
  assumes "char_inv r" "consumer_ok r q"
  shows "consumer_ok (store_char (char_wr r) b r) q"
  using assms(2) store_at_write_index(2) [OF assms(1), of b]
  by (cases q) (auto simp: store_char_def)

lemma consumer_ok_publish:
  assumes "char_inv r" "has_room r" "char_buffer r ! unat (char_wr r) = b" "consumer_ok r q"
  shows "consumer_ok (set_char_wr (char_next (char_wr r)) r) q"
  using assms(4) publish_stored(2) [OF assms(1-3)]
  by (cases q) (auto simp: set_char_wr_def)

lemma holder_store:
  fixes b :: u8
  assumes "char_smp_inv s" "in_lock (writers s w)" "has_room (kring s)"
  defines "r \<equiv> store_char (char_wr (kring s)) b (kring s)"
  shows "char_inv r" "char_content r = char_content (kring s)" "has_room r"
    "char_buffer r ! unat (char_wr r) = b" "consumer_ok r (consumer s)"
    "v \<noteq> w \<Longrightarrow> writer_ok r (writers s v)"
proof -
  have inv: "char_inv (kring s)" "consumer_ok (kring s) (consumer s)"
    using assms(1) by (simp_all add: char_smp_inv_def)
  show "char_inv r" "char_content r = char_content (kring s)"
    unfolding r_def by (rule store_at_write_index [OF inv(1)])+
  show "char_buffer r ! unat (char_wr r) = b" "has_room r"
    using store_at_write_index(3) [OF inv(1), of b] assms(3)
    by (simp_all add: r_def has_room_def store_char_def)
  show "consumer_ok r (consumer s)" unfolding r_def by (rule consumer_ok_store [OF inv])
  show "v \<noteq> w \<Longrightarrow> writer_ok r (writers s v)"
    by (rule others_ok(2) [OF assms(1) holder [OF assms(1,2)]])
qed

lemma holder_publish:
  assumes "char_smp_inv s" "in_lock (writers s w)" "has_room (kring s)"
    and "char_buffer (kring s) ! unat (char_wr (kring s)) = b"
  defines "r \<equiv> set_char_wr (char_next (char_wr (kring s))) (kring s)"
  shows "char_inv r" "char_content r = char_content (kring s) @ [b]" "consumer_ok r (consumer s)"
    "v \<noteq> w \<Longrightarrow> \<not> in_lock (writers s v) \<and> writer_ok r (writers s v)"
proof -
  have inv: "char_inv (kring s)" "consumer_ok (kring s) (consumer s)"
    using assms(1) by (simp_all add: char_smp_inv_def)
  show "char_inv r" "char_content r = char_content (kring s) @ [b]"
    unfolding r_def by (rule publish_stored [OF inv(1) assms(3,4)])+
  show "consumer_ok r (consumer s)"
    unfolding r_def by (rule consumer_ok_publish [OF inv(1) assms(3,4) inv(2)])
  show "v \<noteq> w \<Longrightarrow> \<not> in_lock (writers s v) \<and> writer_ok r (writers s v)"
    using others_ok [OF assms(1) holder [OF assms(1,2)]] by blast
qed

lemma writer_step_inv:
  assumes "writer_step s s'" "char_smp_inv s"
  shows "char_smp_inv s'"
  using assms
proof (induction rule: writer_step.induct)
  case (call s w bs)
  with char_smp_invD(2-4) [OF call(3), of w] show ?case by (auto simp: char_smp_inv_def)
next
  case (acquire s w bs)
  with char_smp_invD(2-4) [OF acquire(3), of w] stale_ok_now show ?case
    by (auto simp: char_smp_inv_def)
next
  case (full s w bs snap)
  then have "spinlock s = Some w" by (intro holder) simp_all
  with full char_smp_invD(2-4) [OF full(3), of w] show ?case by (auto simp: char_smp_inv_def)
next
  case (store s w b bs snap)
  then have lock: "in_lock (writers s w)" by simp
  have "has_room (kring s)"
    using stale_ok_room [of "kring s" snap] char_smp_invD(1) [OF store(3)]
      char_smp_invD(3) [OF store(3), of w] store(1,2) by simp
  note st = holder_store [OF store(3) lock this, where b = b]
  then show ?case
    using store(1,3) char_smp_invD(4) [OF store(3), of w] by (auto simp: char_smp_inv_def)
next
  case (publish s w b bs)
  then have lock: "in_lock (writers s w)" by simp
  have room: "has_room (kring s)" "char_buffer (kring s) ! unat (char_wr (kring s)) = b"
    using char_smp_invD(3) [OF publish(2), of w] publish(1) by simp_all
  note pub = holder_publish [OF publish(2) lock room]
  have "bytes_of w (committed s) @ b # bs = submitted s w"
    using char_smp_invD(4) [OF publish(2), of w] publish(1) by simp
  then show ?case using publish(1,2) pub by (auto simp: char_smp_inv_def)
next
  case (check_room s w bs)
  with char_smp_invD(2-4) [OF check_room(3), of w] show ?case by (auto simp: char_smp_inv_def)
next
  case (check_full s w bs)
  with char_smp_invD(2-4) [OF check_full(3), of w] show ?case by (auto simp: char_smp_inv_def)
next
  case (signal s w bs)
  with char_smp_invD(2-4) [OF signal(2), of w] show ?case by (auto simp: char_smp_inv_def)
next
  case (clear s w bs)
  with char_smp_invD(2-4) [OF clear(3), of w] show ?case by (auto simp: char_smp_inv_def)
next
  case (fault s w b bs snap)
  then have lock: "in_lock (writers s w)" by simp
  have room: "has_room (kring s)"
    using stale_ok_room [of "kring s" snap] char_smp_invD(1) [OF fault(3)]
      char_smp_invD(3) [OF fault(3), of w] fault(1,2) by simp
  show ?case
    using fault(3) holder_store [OF fault(3) lock room, where b = 0] others_ok(1) [OF fault(3) holder [OF fault(3) lock]]
    by (auto simp: char_smp_inv_def)
next
  case (empty_write s w)
  then show ?case by (simp add: char_smp_inv_def)
next
  case (push_call s w m)
  with char_smp_invD(2-4) [OF push_call(2), of w] show ?case by (auto simp: char_smp_inv_def)
next
  case (push_lock s w bs)
  with char_smp_invD(2-4) [OF push_lock(3), of w] show ?case by (auto simp: char_smp_inv_def)
next
  case (push_full s w b bs)
  then have lock: "in_lock (writers s w)" by simp
  show ?case
    using push_full(3) others_ok(1) [OF push_full(3) holder [OF push_full(3) lock]]
    by (auto simp: char_smp_inv_def)
next
  case (push_store s w b bs)
  then have lock: "in_lock (writers s w)" by simp
  show ?case
    using push_store(1,3) holder_store [OF push_store(3) lock push_store(2), where b = b]
      char_smp_invD(4) [OF push_store(3), of w]
    by (auto simp: char_smp_inv_def)
next
  case (push_publish s w b bs)
  then have lock: "in_lock (writers s w)" by simp
  have room: "has_room (kring s)" "char_buffer (kring s) ! unat (char_wr (kring s)) = b"
    using char_smp_invD(3) [OF push_publish(2), of w] push_publish(1) by simp_all
  have "bytes_of w (committed s) @ b # bs = submitted s w"
    using char_smp_invD(4) [OF push_publish(2), of w] push_publish(1) by simp
  then show ?case
    using push_publish(1,2) holder_publish [OF push_publish(2) lock room]
      holder [OF push_publish(2) lock]
    by (auto simp: char_smp_inv_def)
next
  case (push_end s w)
  then have lock: "in_lock (writers s w)" by simp
  show ?case
    using push_end others_ok(1) [OF push_end(2) holder [OF push_end(2) lock]]
      char_smp_invD(4) [OF push_end(2), of w]
    by (auto simp: char_smp_inv_def)
qed

lemma stale_ok_take:
  assumes "char_inv r" "char_rd r \<noteq> char_wr r" "stale_ok r snap"
  shows "stale_ok (set_char_rd (char_next (char_rd r)) r) snap"
  using assms(3) take_oldest(2) [OF assms(1,2)] by (simp add: stale_ok_def set_char_rd_def)

lemma writer_ok_take:
  assumes "char_inv r" "char_rd r \<noteq> char_wr r" "writer_ok r p"
  shows "writer_ok (set_char_rd (char_next (char_rd r)) r) p"
proof -
  have "has_room (set_char_rd (char_next (char_rd r)) r)" if "has_room r"
    using that take_oldest [OF assms(1,2)] has_room_iff [OF assms(1)]
      has_room_iff [OF take_oldest(1) [OF assms(1,2)]] by simp
  then show ?thesis
    using stale_ok_take [OF assms(1,2)] assms(3) by (cases p) (simp_all add: set_char_rd_def)
qed

lemma consumer_step_inv:
  assumes "consumer_step s s'" "char_smp_inv s"
  shows "char_smp_inv s'"
  using assms
proof (induction rule: consumer_step.induct)
  case (load_some s)
  then have "char_content (kring s) \<noteq> []"
    using char_content_nil_iff by (simp add: char_smp_inv_def)
  with load_some show ?case by (simp add: char_smp_inv_def)
next
  case (take_byte s rd)
  then have inv: "char_inv (kring s)" "rd = char_rd (kring s)" "char_content (kring s) \<noteq> []"
    by (simp_all add: char_smp_inv_def)
  then have some: "char_rd (kring s) \<noteq> char_wr (kring s)"
    using char_content_nil_iff by simp
  show ?case
    using take_byte take_oldest [OF inv(1) some] writer_ok_take [OF inv(1) some] inv(2)
    by (simp add: char_smp_inv_def)
qed (simp_all add: char_smp_inv_def)

lemma char_smp_reach_inv: "char_reach s \<Longrightarrow> char_smp_inv s"
  by (induction rule: char_reach.induct)
    (auto intro: char_smp_inv_start writer_step_inv consumer_step_inv)

section \<open>A lost wake-up\<close>

text \<open>
  The state that the consumer cannot leave: a writer sleeps, the flag is down, and the consumer
  is between two passes or inside one. No step of the consumer wakes anybody.
\<close>

definition forgotten :: "nat \<Rightarrow> u8 list \<Rightarrow> char_smp \<Rightarrow> bool" where
  "forgotten w bs s \<longleftrightarrow> writers s w = Sleeping bs \<and> \<not> writer_asleep (kring s)"

lemma forgotten_step: "consumer_step s s' \<Longrightarrow> forgotten w bs s \<Longrightarrow> forgotten w bs s'"
  by (erule consumer_stepE) (auto simp: forgotten_def)

lemma forgotten_run: "consumer_step\<^sup>*\<^sup>* s s' \<Longrightarrow> forgotten w bs s \<Longrightarrow> forgotten w bs s'"
  by (induction rule: rtranclp_induct) (auto intro: forgotten_step)

text \<open>The consumer drains the ring while it forgets the writer.\<close>

lemma consumer_drains:
  assumes "char_smp_inv s" "forgotten w bs s" "consumer s = C_top"
  shows "\<exists>s'. consumer_step\<^sup>*\<^sup>* s s' \<and> char_content (kring s') = []"
  using assms
proof (induction "length (char_content (kring s))" arbitrary: s)
  case 0
  then show ?case by auto
next
  case (Suc n)
  have inv: "char_inv (kring s)" using Suc.prems(1) by (simp add: char_smp_inv_def)
  have some: "char_rd (kring s) \<noteq> char_wr (kring s)"
    using Suc.hyps(2) char_content_nil_iff [OF inv] by auto
  define s1 where "s1 = s\<lparr>consumer := C_have (char_rd (kring s))\<rparr>"
  define s2 where "s2 = s1\<lparr>kring := set_char_rd (char_next (char_rd (kring s))) (kring s1),
    consumer := C_flag, received := received s1 @ [char_buffer (kring s1) ! unat (char_rd (kring s))]\<rparr>"
  define s3 where "s3 = s2\<lparr>consumer := C_top\<rparr>"
  have step1: "consumer_step s s1"
    unfolding s1_def by (rule consumer_step.load_some) (rule Suc.prems(3), rule some)
  have step2: "consumer_step s1 s2"
    unfolding s2_def by (rule consumer_step.take_byte) (simp add: s1_def)
  have flag: "forgotten w bs s2" using forgotten_step Suc.prems(2) step1 step2 by blast
  have step3: "consumer_step s2 s3"
    unfolding s3_def by (rule consumer_step.no_flag) (use flag in \<open>simp_all add: s2_def forgotten_def\<close>)
  have "consumer_step\<^sup>*\<^sup>* s s3"
    using rtranclp.rtrancl_into_rtrancl [OF rtranclp.rtrancl_into_rtrancl [OF r_into_rtranclp
          [of consumer_step, OF step1] step2] step3] .
  moreover have "\<exists>s'. consumer_step\<^sup>*\<^sup>* s3 s' \<and> char_content (kring s') = []"
  proof (rule Suc.hyps(1))
    have "char_content (kring s) = char_buffer (kring s) ! unat (char_rd (kring s)) # char_content (kring s3)"
      using take_oldest(2) [OF inv some] by (simp add: s3_def s2_def s1_def)
    then show "n = length (char_content (kring s3))" using Suc.hyps(2) by simp
    show "char_smp_inv s3" using consumer_step_inv Suc.prems(1) step1 step2 step3 by blast
    show "forgotten w bs s3" using forgotten_step flag step3 by blast
    show "consumer s3 = C_top" by (simp add: s3_def)
  qed
  ultimately obtain s' where "consumer_step\<^sup>*\<^sup>* s s'" "char_content (kring s') = []"
    using rtranclp_trans [of consumer_step s s3] by blast
  then show ?case by blast
qed

text \<open>Runs of one writer while the consumer and the other writers do nothing.\<close>

definition quiet :: "char_smp \<Rightarrow> bool" where
  "quiet s \<longleftrightarrow> spinlock s = None \<and> consumer s = C_top"

text \<open>
  The runs stay in any set of states that the writers do not leave. (The consumer, or the readers
  that are added later, may have their own steps in it.)
\<close>

locale writer_runs =
  fixes R :: "char_smp \<Rightarrow> bool"
  assumes start: "R char_smp_start"
    and closed: "R s \<Longrightarrow> writer_step s s' \<Longrightarrow> R s'"
    and inv: "R s \<Longrightarrow> char_smp_inv s"
begin

lemma one_byte:
  assumes "R s" "quiet s" "writers s w = Acquire (b # bs)" "has_room (kring s)"
  shows "\<exists>s'. R s' \<and> quiet s' \<and> char_content (kring s') = char_content (kring s) @ [b]
    \<and> writers s' = (writers s)(w := (if bs = [] then Outside else Acquire bs))
    \<and> writer_asleep (kring s') = writer_asleep (kring s) \<and> kicks s' = kicks s"
proof -
  let ?r = "kring s"
  have ring: "char_inv ?r" using inv [OF assms(1)] by (simp add: char_smp_inv_def)
  define s1 where "s1 = s\<lparr>spinlock := Some w, writers := (writers s)(w := Locked (b # bs) (char_rd ?r))\<rparr>"
  define s2 where "s2 = s1\<lparr>kring := store_char (char_wr ?r) b ?r,
    writers := (writers s1)(w := Stored (b # bs))\<rparr>"
  define s3 where "s3 = s2\<lparr>kring := set_char_wr (char_next (char_wr (kring s2))) (kring s2),
    spinlock := None, writers := (writers s2)(w := (if bs = [] then Outside else Acquire bs)),
    committed := committed s2 @ [(w, b)]\<rparr>"
  have "writer_step s s1"
    unfolding s1_def by (rule writer_step.acquire) (use assms in \<open>simp_all add: quiet_def\<close>)
  moreover have "writer_step s1 s2"
    unfolding s2_def using writer_step.store [of s1 w b bs "char_rd ?r"] assms(4)
    by (simp add: s1_def has_room_def)
  moreover have "writer_step s2 s3"
    unfolding s3_def by (rule writer_step.publish) (simp add: s2_def)
  ultimately have "R s3" using assms(1) closed by blast
  moreover have "char_content (kring s3) = char_content ?r @ [b]"
  proof -
    let ?q = "store_char (char_wr ?r) b ?r"
    have wr: "char_wr ?q = char_wr ?r" "has_room ?q" "kring s2 = ?q"
      using assms(4) by (simp_all add: store_char_def has_room_def s2_def)
    show ?thesis
      using publish_stored(2) [of ?q b] store_at_write_index [OF ring, of b] wr by (simp add: s3_def)
  qed
  moreover have "writer_asleep (kring s3) = writer_asleep ?r"
    by (simp add: s3_def s2_def writer_asleep_def set_char_wr_def store_char_def)
  moreover have "quiet s3" "writers s3 = (writers s)(w := (if bs = [] then Outside else Acquire bs))"
    "kicks s3 = kicks s"
    using assms(2) by (auto simp: s3_def s2_def s1_def quiet_def)
  ultimately show ?thesis by blast
qed

lemma fill_ring:
  assumes "R s" "quiet s" "writers s w = Acquire bs" "bs \<noteq> []"
    and "length (char_content (kring s)) + length bs \<le> TELEMETRY_RING_BUFFER_CAPACITY - 1"
  shows "\<exists>s'. R s' \<and> quiet s'
    \<and> length (char_content (kring s')) = length (char_content (kring s)) + length bs
    \<and> writers s' = (writers s)(w := Outside) \<and> writer_asleep (kring s') = writer_asleep (kring s)
    \<and> kicks s' = kicks s"
  using assms
proof (induction bs arbitrary: s)
  case Nil
  then show ?case by simp
next
  case (Cons b bs)
  have "char_inv (kring s)" using inv [OF Cons.prems(1)] by (simp add: char_smp_inv_def)
  then have room: "has_room (kring s)" using Cons.prems(5) by (simp add: has_room_iff)
  obtain t where t: "R t" "quiet t" "char_content (kring t) = char_content (kring s) @ [b]"
    "writers t = (writers s)(w := (if bs = [] then Outside else Acquire bs))"
    "writer_asleep (kring t) = writer_asleep (kring s)" "kicks t = kicks s"
    using one_byte [OF Cons.prems(1-3) room] by blast
  show ?case
  proof (cases "bs = []")
    case True
    then show ?thesis using t by (intro exI [of _ t]) simp
  next
    case False
    then have "writers t w = Acquire bs" using t(4) by simp
    then obtain u where u: "R u" "quiet u"
      "length (char_content (kring u)) = length (char_content (kring t)) + length bs"
      "writers u = (writers t)(w := Outside)" "writer_asleep (kring u) = writer_asleep (kring t)"
      "kicks u = kicks t"
      using Cons.IH [OF t(1,2) _ False] t(3) Cons.prems(5)
      by (simp del: fun_upd_apply) blast
    have "writers u = (writers s)(w := Outside)" unfolding u(4) t(4) by (rule fun_upd_upd)
    then show ?thesis using u(1-3,5,6) t(3,5,6) by (intro exI [of _ u]) simp
  qed
qed

text \<open>A writer that meets the full ring goes to sleep behind the flag.\<close>

lemma falls_asleep:
  assumes "R s" "quiet s" "writers s w = Acquire bs" "\<not> has_room (kring s)"
  shows "\<exists>s'. R s' \<and> quiet s' \<and> kring s' = raise_asleep (kring s)
    \<and> writers s' = (writers s)(w := Sleeping bs) \<and> kicks s' = kicks s"
proof -
  define s1 where "s1 = s\<lparr>spinlock := Some w, writers := (writers s)(w := Locked bs (char_rd (kring s)))\<rparr>"
  define s2 where "s2 = s1\<lparr>kring := raise_asleep (kring s1), spinlock := None,
    writers := (writers s1)(w := Waiting bs)\<rparr>"
  define s3 where "s3 = s2\<lparr>writers := (writers s2)(w := Sleeping bs)\<rparr>"
  have "writer_step s s1"
    unfolding s1_def by (rule writer_step.acquire) (use assms in \<open>simp_all add: quiet_def\<close>)
  moreover have "writer_step s1 s2"
    unfolding s2_def by (rule writer_step.full [of _ _ _ "char_rd (kring s)"])
      (use assms(4) in \<open>simp_all add: s1_def has_room_def\<close>)
  moreover have "writer_step s2 s3"
    unfolding s3_def by (rule writer_step.check_full) (use assms(4) in \<open>simp_all add: s2_def s1_def\<close>)
  ultimately have "R s3" using assms(1) closed by blast
  moreover have "quiet s3" "kring s3 = raise_asleep (kring s)"
    "writers s3 = (writers s)(w := Sleeping bs)" "kicks s3 = kicks s"
    using assms(2) by (auto simp: s3_def s2_def s1_def quiet_def)
  ultimately show ?thesis by blast
qed

lemma calls:
  assumes "R s" "quiet s" "writers s w = Outside" "bs \<noteq> []"
  shows "\<exists>s'. R s' \<and> quiet s' \<and> kring s' = kring s \<and> writers s' = (writers s)(w := Acquire bs)
    \<and> kicks s' = kicks s"
  using closed [OF assms(1) writer_step.call [OF assms(3,4)]] assms(2)
  by (force simp: quiet_def)

text \<open>
  Two writers asleep behind the full ring; the consumer takes one byte and wakes both; the
  first clears the flag and fills the ring again, the second goes back to sleep.
\<close>

lemma two_asleep:
  "\<exists>s. R s \<and> quiet s \<and> kicks s = 0 \<and> writer_asleep (kring s)
     \<and> length (char_content (kring s)) = TELEMETRY_RING_BUFFER_CAPACITY - 1
     \<and> writers s = (\<lambda>w. Outside)(1 := Sleeping [x], 2 := Sleeping [y])"
proof -
  let ?n = "TELEMETRY_RING_BUFFER_CAPACITY - 1"
  have init: "quiet char_smp_start" "writers char_smp_start = (\<lambda>w. Outside)" "kicks char_smp_start = 0"
    "char_content (kring char_smp_start) = []"
    by (simp_all add: quiet_def char_smp_start_def)
  have bytes: "replicate ?n 0 \<noteq> ([] :: u8 list)" by (simp add: layout_simps)
  obtain a where a: "R a" "quiet a" "kring a = kring char_smp_start"
    "writers a = (\<lambda>w. Outside)(0 := Acquire (replicate ?n 0))" "kicks a = 0"
    using calls [OF start init(1) _ bytes, of 0] init by auto
  obtain b where b: "R b" "quiet b" "length (char_content (kring b)) = ?n"
    "writers b = (writers a)(0 := Outside)" "kicks b = 0"
    using fill_ring [OF a(1,2) _ bytes, of 0] a init(4) by auto
  have wb: "writers b = (\<lambda>w. Outside)" unfolding b(4) a(4) by auto
  have full: "\<not> has_room (kring t)" if "R t" "length (char_content (kring t)) = ?n" for t
    using inv [OF that(1)] that(2) by (simp add: char_smp_inv_def has_room_iff)
  obtain c where c: "R c" "quiet c" "kring c = kring b"
    "writers c = (writers b)(1 := Acquire [x])" "kicks c = 0"
    using calls [OF b(1,2), of 1 "[x]"] wb b(5) by auto
  obtain d where d: "R d" "quiet d" "kring d = raise_asleep (kring c)"
    "writers d = (writers c)(1 := Sleeping [x])" "kicks d = 0"
    using falls_asleep [OF c(1,2), of 1 "[x]"] full [OF c(1)] b(3) c by auto
  have wd: "writers d = (\<lambda>w. Outside)(1 := Sleeping [x])" unfolding d(4) c(4) wb by (rule fun_upd_upd)
  obtain e where e: "R e" "quiet e" "kring e = kring d"
    "writers e = (writers d)(2 := Acquire [y])" "kicks e = 0"
    using calls [OF d(1,2), of 2 "[y]"] wd d(5) by auto
  obtain f where f: "R f" "quiet f" "kring f = raise_asleep (kring e)"
    "writers f = (writers e)(2 := Sleeping [y])" "kicks f = 0"
    using falls_asleep [OF e(1,2), of 2 "[y]"] full [OF e(1)] b(3) c(3) d(3) e by auto
  have "writers f = (\<lambda>w. Outside)(1 := Sleeping [x], 2 := Sleeping [y])"
    unfolding f(4) e(4) wd by (rule fun_upd_upd)
  moreover have "writer_asleep (kring f)" "length (char_content (kring f)) = ?n"
    using f(3) e(3) d(3) c(3) b(3) by simp_all
  ultimately show ?thesis using f(1,2,5) by blast
qed

end

interpretation device: writer_runs char_reach
  by unfold_locales (rule char_reach.start, erule (1) char_reach.writer, erule char_smp_reach_inv)

lemma forgotten_reachable:
  "\<exists>s. char_reach s \<and> forgotten 2 [y] s \<and> consumer s = C_top \<and> (\<forall>w. w \<noteq> 2 \<longrightarrow> writers s w = Outside)"
proof -
  obtain s where s: "char_reach s" "quiet s" "kicks s = 0" "writer_asleep (kring s)"
    "length (char_content (kring s)) = TELEMETRY_RING_BUFFER_CAPACITY - 1"
    "writers s = (\<lambda>w. Outside)(1 := Sleeping [7], 2 := Sleeping [y])"
    using device.two_asleep [of 7 y] by blast
  have inv: "char_inv (kring s)" using char_smp_reach_inv [OF s(1)] by (simp add: char_smp_inv_def)
  have some: "char_rd (kring s) \<noteq> char_wr (kring s)"
    using s(5) char_content_nil_iff [OF inv] by (auto simp: layout_simps)
  define s1 where "s1 = s\<lparr>consumer := C_have (char_rd (kring s))\<rparr>"
  define s2 where "s2 = s1\<lparr>kring := set_char_rd (char_next (char_rd (kring s))) (kring s1),
    consumer := C_flag, received := received s1 @ [char_buffer (kring s1) ! unat (char_rd (kring s))]\<rparr>"
  define s3 where "s3 = s2\<lparr>writers := wake_all (writers s2), kicks := 1, consumer := C_top\<rparr>"
  define s4 where "s4 = s3\<lparr>writers := (writers s3)(1 := Clearing [7])\<rparr>"
  define s5 where "s5 = s4\<lparr>kring := clear_asleep (kring s4), writers := (writers s4)(1 := Acquire [7])\<rparr>"
  have "consumer_step s s1"
    unfolding s1_def by (rule consumer_step.load_some) (use s(2) some in \<open>simp_all add: quiet_def\<close>)
  moreover have "consumer_step s1 s2"
    unfolding s2_def by (rule consumer_step.take_byte) (simp add: s1_def)
  moreover have "consumer_step s2 s3"
    unfolding s3_def by (rule consumer_step.kick) (use s(3,4) in \<open>simp_all add: s2_def s1_def\<close>)
  ultimately have reach3: "char_reach s3" using s(1) char_reach.consumer by blast
  have w3: "writers s3 = (\<lambda>w. Outside)(1 := Waiting [7], 2 := Waiting [y])"
    by (auto simp: s3_def s2_def s1_def s(6) wake_all_def)
  have inv3: "char_inv (kring s3)" using char_smp_reach_inv [OF reach3] by (simp add: char_smp_inv_def)
  have "char_content (kring s) = char_buffer (kring s) ! unat (char_rd (kring s)) # char_content (kring s3)"
    using take_oldest(2) [OF inv some] by (simp add: s3_def s2_def s1_def)
  then have len3: "length (char_content (kring s3)) + 1 = TELEMETRY_RING_BUFFER_CAPACITY - 1"
    using s(5) by simp
  then have room3: "has_room (kring s3)" by (simp add: has_room_iff [OF inv3])
  have "writer_step s3 s4"
    unfolding s4_def by (rule writer_step.check_room) (use w3 room3 in simp_all)
  moreover have "writer_step s4 s5"
    unfolding s5_def by (rule writer_step.clear)
      (use s(2) in \<open>simp_all add: s4_def s3_def s2_def s1_def quiet_def\<close>)
  ultimately have reach5: "char_reach s5" using reach3 char_reach.writer by blast
  have s5: "quiet s5" "writers s5 1 = Acquire [7]" "has_room (kring s5)" "\<not> writer_asleep (kring s5)"
    "kring s5 = clear_asleep (kring s3)"
    using s(2) room3 by (simp_all add: s5_def s4_def s3_def s2_def s1_def quiet_def)
  obtain t where t: "char_reach t" "quiet t" "char_content (kring t) = char_content (kring s5) @ [7]"
    "writers t = (writers s5)(1 := Outside)" "\<not> writer_asleep (kring t)"
    using device.one_byte [OF reach5 s5(1,2,3)] s5(4) by auto
  have wt: "writers t = (\<lambda>w. Outside)(2 := Waiting [y])"
    unfolding t(4) by (auto simp: s5_def s4_def w3)
  have "length (char_content (kring t)) = TELEMETRY_RING_BUFFER_CAPACITY - 1"
    using t(3) s5(5) len3 by simp
  then have full: "\<not> has_room (kring t)"
    using char_smp_reach_inv [OF t(1)] by (simp add: char_smp_inv_def has_room_iff)
  define u where "u = t\<lparr>writers := (writers t)(2 := Sleeping [y])\<rparr>"
  have "writer_step t u"
    unfolding u_def by (rule writer_step.check_full) (use wt full in simp_all)
  then have "char_reach u" using t(1) char_reach.writer by blast
  moreover have "forgotten 2 [y] u" "consumer u = C_top" "\<forall>w. w \<noteq> 2 \<longrightarrow> writers u w = Outside"
    using t(2,5) wt by (auto simp: forgotten_def u_def quiet_def)
  ultimately show ?thesis by blast
qed

section \<open>Properties of the device under concurrency\<close>

text \<open>
  C2. Under every interleaving of any number of writers and pushers (faults, signals and empty
  writes included) with the zero-copy consumer, the ring
  stays well-formed, at most one writer is inside the lock, and the bytes received followed by
  those buffered are the published ones, in order; of each writer exactly the submitted bytes
  are published or still pending, in its order, none lost, doubled or reordered.
\<close>

theorem char_smp_stream:
  assumes "char_reach s"
  shows "char_inv (kring s) \<and> received s @ char_content (kring s) = map snd (committed s)
    \<and> (\<forall>v w. in_lock (writers s v) \<longrightarrow> in_lock (writers s w) \<longrightarrow> v = w)
    \<and> (\<forall>w. bytes_of w (committed s) @ pending (writers s w) = submitted s w)"
proof -
  have inv: "char_smp_inv s" by (rule char_smp_reach_inv) (rule assms)
  have "v = w" if "in_lock (writers s v)" "in_lock (writers s w)" for v w
    using holder [OF inv that(1)] holder [OF inv that(2)] by simp
  then show ?thesis using inv unfolding char_smp_inv_def by blast
qed

theorem char_smp_stream_witness:
  "\<exists>s. char_reach s \<and> writers s 2 = Sleeping [9]
     \<and> received s @ char_content (kring s) = map snd (committed s)"
proof -
  obtain s where "char_reach s" "forgotten 2 [9] s" using forgotten_reachable [of 9] by blast
  then show ?thesis using char_smp_stream [of s] by (auto simp: forgotten_def)
qed

text \<open>
  C23. A wake-up can be lost. There is a reachable state with a single writer left, asleep with
  a byte to write and with the sleep flag down: whatever the consumer does from there, the writer
  sleeps on, and some run of it drains the ring completely.
\<close>

theorem char_smp_lost_wakeup:
  "\<exists>s. char_reach s \<and> writers s 2 = Sleeping [y] \<and> (\<forall>w. w \<noteq> 2 \<longrightarrow> writers s w = Outside)
     \<and> \<not> writer_asleep (kring s)
     \<and> (\<forall>s'. consumer_step\<^sup>*\<^sup>* s s' \<longrightarrow> writers s' 2 = Sleeping [y])
     \<and> (\<exists>s'. consumer_step\<^sup>*\<^sup>* s s' \<and> char_content (kring s') = [])"
proof -
  obtain s where s: "char_reach s" "forgotten 2 [y] s" "consumer s = C_top"
    "\<forall>w. w \<noteq> 2 \<longrightarrow> writers s w = Outside"
    using forgotten_reachable [of y] by blast
  have "\<exists>s'. consumer_step\<^sup>*\<^sup>* s s' \<and> char_content (kring s') = []"
    by (rule consumer_drains [OF char_smp_reach_inv [OF s(1)] s(2,3)])
  moreover have "writers s' 2 = Sleeping [y]" if "consumer_step\<^sup>*\<^sup>* s s'" for s'
    using forgotten_run [OF that s(2)] by (simp add: forgotten_def)
  ultimately show ?thesis using s by (auto simp: forgotten_def)
qed

theorem char_smp_lost_wakeup_witness:
  "\<exists>s s'. char_reach s \<and> consumer_step\<^sup>*\<^sup>* s s' \<and> char_content (kring s') = []
     \<and> writers s' 2 = Sleeping [9] \<and> writers s 1 = Outside"
proof -
  obtain s where s: "char_reach s" "\<forall>w. w \<noteq> 2 \<longrightarrow> writers s w = Outside"
    "\<forall>s'. consumer_step\<^sup>*\<^sup>* s s' \<longrightarrow> writers s' 2 = Sleeping [9]"
    "\<exists>s'. consumer_step\<^sup>*\<^sup>* s s' \<and> char_content (kring s') = []"
    using char_smp_lost_wakeup [of 9] by blast
  moreover have "(1 :: nat) \<noteq> 2" by simp
  ultimately show ?thesis by blast
qed

end
