(* ===== verification/ReadSMP.thy ===== *)
theory ReadSMP
  imports CharSMP
begin

text \<open>
  \<open>dev_read\<close> of \<open>kernel/telemetry_core.c\<close> at the same time as the writers and as other
  reads. The read takes no lock: every load and store of an index and every
  \<open>put_user\<close> is a step of its own, and the three uses of the volatile read index are three
  loads. With a single read at a time the stream stays first-in first-out under every
  interleaving with writers and pushes; with two reads the read index can run past the write
  index.
\<close>

section \<open>The steps\<close>

text \<open>
  Where a read is, with the \<open>len\<close> that remains after the current byte and
  \<open>bytes_read\<close>: at the head of the loop, with the snapshot of the write index, past the test
  for an empty ring, past \<open>put_user\<close>, and with the index it is about to increment.
\<close>

datatype reader_pc = R_idle | R_top nat nat | R_snap nat nat u32 | R_more nat nat
  | R_put nat nat | R_advance nat nat u32

text \<open>\<open>got\<close> is what \<open>put_user\<close> has put into the user buffers of each reader.\<close>

record char_sys =
  smp :: char_smp
  readers :: "nat \<Rightarrow> reader_pc"
  got :: "nat \<Rightarrow> u8 list"

definition char_sys_start :: char_sys where
  "char_sys_start = \<lparr>smp = char_smp_start, readers = (\<lambda>i. R_idle), got = (\<lambda>i. [])\<rparr>"

text \<open>The end of a read that returns a count: writers are woken if it read anything.\<close>

definition read_return :: "nat \<Rightarrow> char_smp \<Rightarrow> char_smp" where
  "read_return bytes_read t =
     (if 0 < bytes_read then t\<lparr>writers := wake_all (writers t)\<rparr> else t)"

definition advance_rd :: "u32 \<Rightarrow> char_smp \<Rightarrow> char_smp" where
  "advance_rd rd t = t\<lparr>kring := set_char_rd (char_next rd) (kring t),
     received := received t @ [char_buffer (kring t) ! unat rd]\<rparr>"

inductive reader_step :: "nat \<Rightarrow> char_sys \<Rightarrow> char_sys \<Rightarrow> bool" where
  r_call: "readers s i = R_idle \<Longrightarrow>
    reader_step i s (s\<lparr>readers := (readers s)(i := R_top len 0)\<rparr>)"
| r_done: "readers s i = R_top 0 n \<Longrightarrow>
    reader_step i s (s\<lparr>smp := read_return n (smp s), readers := (readers s)(i := R_idle)\<rparr>)"
| r_load: "readers s i = R_top (Suc len) n \<Longrightarrow>
    reader_step i s (s\<lparr>readers := (readers s)(i := R_snap len n (char_wr (kring (smp s))))\<rparr>)"
| r_empty: "readers s i = R_snap len n snap \<Longrightarrow> char_rd (kring (smp s)) = snap \<Longrightarrow>
    reader_step i s (s\<lparr>smp := read_return n (smp s), readers := (readers s)(i := R_idle)\<rparr>)"
| r_some: "readers s i = R_snap len n snap \<Longrightarrow> char_rd (kring (smp s)) \<noteq> snap \<Longrightarrow>
    reader_step i s (s\<lparr>readers := (readers s)(i := R_more len n)\<rparr>)"
| r_put: "readers s i = R_more len n \<Longrightarrow>
    unat (char_rd (kring (smp s))) < length (char_buffer (kring (smp s))) \<Longrightarrow>
    reader_step i s (s\<lparr>readers := (readers s)(i := R_put len n),
      got := (got s)(i := got s i @ [char_buffer (kring (smp s)) ! unat (char_rd (kring (smp s)))])\<rparr>)"
| r_fault: "readers s i = R_more len n \<Longrightarrow>
    reader_step i s (s\<lparr>readers := (readers s)(i := R_idle)\<rparr>)"
| r_index: "readers s i = R_put len n \<Longrightarrow>
    reader_step i s (s\<lparr>readers := (readers s)(i := R_advance len n (char_rd (kring (smp s))))\<rparr>)"
| r_store: "readers s i = R_advance len n rd \<Longrightarrow>
    reader_step i s (s\<lparr>smp := advance_rd rd (smp s), readers := (readers s)(i := R_top len (n + 1))\<rparr>)"

text \<open>Everybody at once, and the discipline of a single reading party.\<close>

inductive sys_reach :: "char_sys \<Rightarrow> bool" where
  start: "sys_reach char_sys_start"
| writer: "sys_reach s \<Longrightarrow> writer_step (smp s) t \<Longrightarrow> sys_reach (s\<lparr>smp := t\<rparr>)"
| consumer: "sys_reach s \<Longrightarrow> consumer_step (smp s) t \<Longrightarrow> sys_reach (s\<lparr>smp := t\<rparr>)"
| reader: "sys_reach s \<Longrightarrow> reader_step i s s' \<Longrightarrow> sys_reach s'"

inductive one_reader_reach :: "char_sys \<Rightarrow> bool" where
  start: "one_reader_reach char_sys_start"
| writer: "one_reader_reach s \<Longrightarrow> writer_step (smp s) t \<Longrightarrow> one_reader_reach (s\<lparr>smp := t\<rparr>)"
| reader: "one_reader_reach s \<Longrightarrow> reader_step 0 s s' \<Longrightarrow> one_reader_reach s'"

section \<open>A single reader\<close>

text \<open>
  What the reader may rely on: \<open>g\<close> is what it has been given, \<open>rec\<close> what has left the ring.
  Between \<open>put_user\<close> and the store of the index it has been given the oldest byte, which is
  still in the ring.
\<close>

fun reader_ok :: "shared_ring \<Rightarrow> u8 list \<Rightarrow> u8 list \<Rightarrow> reader_pc \<Rightarrow> bool" where
  "reader_ok r rec g R_idle = (g = rec)"
| "reader_ok r rec g (R_top len n) = (g = rec)"
| "reader_ok r rec g (R_snap len n snap) =
     (g = rec \<and> (char_rd r \<noteq> snap \<longrightarrow> char_content r \<noteq> []))"
| "reader_ok r rec g (R_more len n) = (g = rec \<and> char_content r \<noteq> [])"
| "reader_ok r rec g (R_put len n) = (char_content r \<noteq> [] \<and> g = rec @ [hd (char_content r)])"
| "reader_ok r rec g (R_advance len n rd) =
     (char_content r \<noteq> [] \<and> g = rec @ [hd (char_content r)] \<and> rd = char_rd r)"

definition reader_inv :: "char_sys \<Rightarrow> bool" where
  "reader_inv s \<longleftrightarrow> char_smp_inv (smp s) \<and> consumer (smp s) = C_top
     \<and> reader_ok (kring (smp s)) (received (smp s)) (got s 0) (readers s 0)"

text \<open>A step of a writer leaves the read side alone and at most appends to the ring.\<close>

lemma writer_step_frame:
  assumes "writer_step t t'" "char_smp_inv t"
  shows "char_rd (kring t') = char_rd (kring t) \<and> received t' = received t
    \<and> consumer t' = consumer t \<and> (\<exists>bs. char_content (kring t') = char_content (kring t) @ bs)"
  using assms
proof (cases rule: writer_step.cases)
  case (store w b bs snap)
  then have "char_content (store_char (char_wr (kring t)) b (kring t)) = char_content (kring t)"
    using store_at_write_index(2) char_smp_invD(1) [OF assms(2)] by blast
  then show ?thesis using store by (simp add: store_char_def)
next
  case (publish w b bs)
  then have "char_content (set_char_wr (char_next (char_wr (kring t))) (kring t))
      = char_content (kring t) @ [b]"
    using publish_stored(2) char_smp_invD(1) [OF assms(2)] char_smp_invD(3) [OF assms(2), of w] by simp
  then show ?thesis using publish by (simp add: set_char_wr_def)
next
  case (fault w b bs snap)
  have "char_content (store_char (char_wr (kring t)) 0 (kring t)) = char_content (kring t)"
    using store_at_write_index(2) char_smp_invD(1) [OF assms(2)] by blast
  then show ?thesis using fault by (simp add: store_char_def)
next
  case (push_store w b bs)
  have "char_content (store_char (char_wr (kring t)) b (kring t)) = char_content (kring t)"
    using store_at_write_index(2) char_smp_invD(1) [OF assms(2)] by blast
  then show ?thesis using push_store by (simp add: store_char_def)
next
  case (push_publish w b bs)
  then have "char_content (set_char_wr (char_next (char_wr (kring t))) (kring t))
      = char_content (kring t) @ [b]"
    using publish_stored(2) char_smp_invD(1) [OF assms(2)] char_smp_invD(3) [OF assms(2), of w] by simp
  then show ?thesis using push_publish by (simp add: set_char_wr_def)
qed (simp_all add: raise_asleep_def clear_asleep_def set_char_flags_def char_content_def)

lemma reader_ok_append:
  assumes "reader_ok r rec g p" "char_rd r' = char_rd r" "char_content r' = char_content r @ bs"
  shows "reader_ok r' rec g p"
  using assms by (cases p) auto

lemma reader_inv_writer:
  assumes "reader_inv s" "writer_step (smp s) t"
  shows "reader_inv (s\<lparr>smp := t\<rparr>)"
proof -
  have inv: "char_smp_inv (smp s)" using assms(1) by (simp add: reader_inv_def)
  note frame = writer_step_frame [OF assms(2) inv]
  then obtain bs where "char_content (kring t) = char_content (kring (smp s)) @ bs" by blast
  then have "reader_ok (kring t) (received (smp s)) (got s 0) (readers s 0)"
    using reader_ok_append frame assms(1) unfolding reader_inv_def by blast
  then show ?thesis
    using frame writer_step_inv [OF assms(2) inv] assms(1) by (simp add: reader_inv_def)
qed

text \<open>Taking the oldest byte out keeps the invariant of the writers.\<close>

lemma advance_inv:
  assumes "char_smp_inv t" "consumer t = C_top" "char_content (kring t) \<noteq> []"
  defines "t' \<equiv> advance_rd (char_rd (kring t)) t"
  shows "char_smp_inv t'" "consumer t' = C_top"
    "received t' = received t @ [hd (char_content (kring t))]"
proof -
  have inv: "char_inv (kring t)" using assms(1) by (simp add: char_smp_inv_def)
  have some: "char_rd (kring t) \<noteq> char_wr (kring t)"
    using assms(3) char_content_nil_iff [OF inv] by simp
  note take = take_oldest [OF inv some]
  show "consumer t' = C_top" using assms(2) by (simp add: t'_def advance_rd_def)
  show "received t' = received t @ [hd (char_content (kring t))]"
    using take(2) by (simp add: t'_def advance_rd_def)
  show "char_smp_inv t'"
    using assms(1,2) take writer_ok_take [OF inv some]
    by (simp add: char_smp_inv_def t'_def advance_rd_def)
qed

lemma read_return_inv:
  assumes "char_smp_inv t"
  shows "char_smp_inv (read_return n t)"
  using assms by (simp add: char_smp_inv_def read_return_def)

lemma read_return_fields [simp]:
  "kring (read_return n t) = kring t" "received (read_return n t) = received t"
  "consumer (read_return n t) = consumer t" "committed (read_return n t) = committed t"
  by (simp_all add: read_return_def)

lemma reader_inv_reader:
  assumes "reader_step 0 s s'" "reader_inv s"
  shows "reader_inv s'"
  using assms
proof (induction "0 :: nat" s s' rule: reader_step.induct)
  case (r_load s len n)
  then have "char_inv (kring (smp s))" by (simp add: reader_inv_def char_smp_inv_def)
  then show ?case
    using r_load char_content_nil_iff by (simp add: reader_inv_def)
next
  case (r_put s len n)
  then have "char_inv (kring (smp s))" "char_content (kring (smp s)) \<noteq> []"
    by (simp_all add: reader_inv_def char_smp_inv_def)
  then have "hd (char_content (kring (smp s)))
      = char_buffer (kring (smp s)) ! unat (char_rd (kring (smp s)))"
    using take_oldest(2) char_content_nil_iff by (metis list.sel(1))
  then show ?case using r_put by (simp add: reader_inv_def)
next
  case (r_store s len n rd)
  then have t: "char_smp_inv (smp s)" "consumer (smp s) = C_top"
    "char_content (kring (smp s)) \<noteq> []" "rd = char_rd (kring (smp s))"
    "got s 0 = received (smp s) @ [hd (char_content (kring (smp s)))]"
    by (simp_all add: reader_inv_def)
  show ?case
    using advance_inv [OF t(1-3)] t(4,5) by (simp add: reader_inv_def)
qed (auto simp: reader_inv_def read_return_inv)

lemma reader_inv_reach: "one_reader_reach s \<Longrightarrow> reader_inv s"
proof (induction rule: one_reader_reach.induct)
  case start
  show ?case
    using char_smp_inv_start
    by (simp add: reader_inv_def char_sys_start_def char_smp_start_def [THEN arg_cong [where f = consumer]]
        char_smp_start_def [THEN arg_cong [where f = received]])
next
  case (writer s t)
  then show ?case using reader_inv_writer by blast
next
  case (reader s s')
  then show ?case using reader_inv_reader by blast
qed

section \<open>Runs with several readers\<close>

text \<open>A read of one byte that others overtake: up to \<open>put_user\<close>, and from there to its end.\<close>

lemma read_to_put:
  assumes "readers s i = R_idle" "char_rd (kring (smp s)) \<noteq> char_wr (kring (smp s))"
    and "unat (char_rd (kring (smp s))) < length (char_buffer (kring (smp s)))"
  shows "(reader_step i)\<^sup>*\<^sup>* s (s\<lparr>readers := (readers s)(i := R_put 0 0),
    got := (got s)(i := got s i @ [char_buffer (kring (smp s)) ! unat (char_rd (kring (smp s)))])\<rparr>)"
proof -
  have "reader_step i s (s\<lparr>readers := (readers s)(i := R_top 1 0)\<rparr>)"
    by (rule reader_step.r_call [OF assms(1)])
  moreover have "reader_step i (s\<lparr>readers := (readers s)(i := R_top 1 0)\<rparr>)
      (s\<lparr>readers := (readers s)(i := R_snap 0 0 (char_wr (kring (smp s))))\<rparr>)"
    using reader_step.r_load [of "s\<lparr>readers := (readers s)(i := R_top 1 0)\<rparr>" i 0 0] by simp
  moreover have "reader_step i (s\<lparr>readers := (readers s)(i := R_snap 0 0 (char_wr (kring (smp s))))\<rparr>)
      (s\<lparr>readers := (readers s)(i := R_more 0 0)\<rparr>)"
    using reader_step.r_some [of "s\<lparr>readers := (readers s)(i := R_snap 0 0 (char_wr (kring (smp s))))\<rparr>" i]
      assms(2) by simp
  moreover have "reader_step i (s\<lparr>readers := (readers s)(i := R_more 0 0)\<rparr>)
      (s\<lparr>readers := (readers s)(i := R_put 0 0),
        got := (got s)(i := got s i @ [char_buffer (kring (smp s)) ! unat (char_rd (kring (smp s)))])\<rparr>)"
    using reader_step.r_put [of "s\<lparr>readers := (readers s)(i := R_more 0 0)\<rparr>" i] assms(3) by simp
  ultimately show ?thesis by (meson converse_rtranclp_into_rtranclp rtranclp.rtrancl_refl)
qed

lemma read_from_put:
  assumes "readers s i = R_put 0 0"
  shows "(reader_step i)\<^sup>*\<^sup>* s
    (s\<lparr>smp := read_return 1 (advance_rd (char_rd (kring (smp s))) (smp s)),
      readers := (readers s)(i := R_idle)\<rparr>)"
proof -
  let ?rd = "char_rd (kring (smp s))"
  let ?a = "s\<lparr>readers := (readers s)(i := R_advance 0 0 ?rd)\<rparr>"
  let ?b = "s\<lparr>smp := advance_rd ?rd (smp s), readers := (readers s)(i := R_top 0 1)\<rparr>"
  have "reader_step i s ?a" by (rule reader_step.r_index [OF assms])
  moreover have "reader_step i ?a ?b" using reader_step.r_store [of ?a i 0 0 ?rd] by simp
  moreover have "reader_step i ?b (s\<lparr>smp := read_return 1 (advance_rd ?rd (smp s)),
      readers := (readers s)(i := R_idle)\<rparr>)"
    using reader_step.r_done [of ?b i 1] by simp
  ultimately show ?thesis by (meson converse_rtranclp_into_rtranclp rtranclp.rtrancl_refl)
qed

lemma sys_reach_reads: "(reader_step i)\<^sup>*\<^sup>* s t \<Longrightarrow> sys_reach s \<Longrightarrow> sys_reach t"
  by (induction rule: rtranclp_induct) (auto intro: sys_reach.reader)

lemma sys_reach_of_char: "char_reach t \<Longrightarrow> sys_reach (char_sys_start\<lparr>smp := t\<rparr>)"
proof (induction rule: char_reach.induct)
  case start
  have "char_sys_start\<lparr>smp := char_smp_start\<rparr> = char_sys_start" by (simp add: char_sys_start_def)
  then show ?case using sys_reach.start by simp
next
  case (writer s s')
  from sys_reach.writer [OF writer.IH, of s'] writer.hyps(2) show ?case by simp
next
  case (consumer s s')
  from sys_reach.consumer [OF consumer.IH, of s'] consumer.hyps(2) show ?case by simp
qed

lemma one_reader_of_writers:
  "writer_step\<^sup>*\<^sup>* char_smp_start t \<Longrightarrow> one_reader_reach (char_sys_start\<lparr>smp := t\<rparr>)"
proof (induction rule: rtranclp_induct)
  case base
  have "char_sys_start\<lparr>smp := char_smp_start\<rparr> = char_sys_start" by (simp add: char_sys_start_def)
  then show ?case using one_reader_reach.start by simp
next
  case (step t u)
  from one_reader_reach.writer [OF step.IH, of u] step.hyps(2) show ?case by simp
qed

text \<open>The device after one write of one byte.\<close>

lemma one_byte_written:
  "\<exists>t. char_reach t \<and> writer_step\<^sup>*\<^sup>* char_smp_start t \<and> char_content (kring t) = [x] \<and> committed t = [(0, x)]
     \<and> writers t = (\<lambda>w. Outside) \<and> char_wr (kring t) = 1"
proof -
  let ?a = char_smp_start
  define b where "b = ?a\<lparr>writers := (writers ?a)(0 := Acquire [x]), submitted := (submitted ?a)(0 := [x])\<rparr>"
  define c where "c = b\<lparr>spinlock := Some 0, writers := (writers b)(0 := Locked [x] (char_rd (kring b)))\<rparr>"
  define d where "d = c\<lparr>kring := store_char (char_wr (kring c)) x (kring c),
    writers := (writers c)(0 := Stored [x])\<rparr>"
  define e where "e = d\<lparr>kring := set_char_wr (char_next (char_wr (kring d))) (kring d), spinlock := None,
    writers := (writers d)(0 := Outside), committed := committed d @ [(0, x)]\<rparr>"
  have room: "has_room (kring c)"
    by (simp add: has_room_iff c_def b_def char_smp_start_def layout_simps)
  have "writer_step ?a b"
    unfolding b_def using writer_step.call [of ?a 0 "[x]"] by (simp add: char_smp_start_def)
  moreover have "writer_step b c"
    unfolding c_def by (rule writer_step.acquire) (simp_all add: b_def char_smp_start_def)
  moreover have "writer_step c d"
    unfolding d_def by (rule writer_step.store [where snap = "char_rd (kring b)"])
      (use room in \<open>simp_all add: c_def has_room_def\<close>)
  moreover have "writer_step d e"
    unfolding e_def using writer_step.publish [of d 0 x "[]"] by (simp add: d_def)
  ultimately have steps: "char_reach e" "writer_step\<^sup>*\<^sup>* char_smp_start e"
    using char_reach.start char_reach.writer rtranclp.intros [of writer_step] by metis+
  have "received e @ char_content (kring e) = map snd (committed e)"
    using char_smp_reach_inv [OF steps(1)] by (simp add: char_smp_inv_def)
  moreover have "received e = []" "committed e = [(0, x)]" "writers e = (\<lambda>w. Outside)"
    by (auto simp: e_def d_def c_def b_def char_smp_start_def)
  moreover have "char_wr (kring e) = 1"
    by (simp add: e_def d_def c_def b_def char_smp_start_def set_char_wr_def store_char_def
        char_next_def ring_next_def zeroed_page_def zero_lane_def layout_simps)
  ultimately show ?thesis using steps by auto
qed

text \<open>Two reads of the same byte: both get it, and both advance the index.\<close>

lemma both_reads_advance:
  assumes "char_reach t" "char_rd (kring t) \<noteq> char_wr (kring t)"
    and "unat (char_rd (kring t)) < length (char_buffer (kring t))"
  defines "x \<equiv> char_buffer (kring t) ! unat (char_rd (kring t))"
  shows "sys_reach (char_sys_start\<lparr>smp := read_return 1 (advance_rd (char_next (char_rd (kring t)))
      (read_return 1 (advance_rd (char_rd (kring t)) t))), got := (\<lambda>i. [])(0 := [x], 1 := [x])\<rparr>)"
proof -
  let ?r = "kring t"
  define s where "s = char_sys_start\<lparr>smp := t, readers := (\<lambda>i. R_idle)(0 := R_put 0 0, 1 := R_put 0 0),
    got := (\<lambda>i. [])(0 := [x], 1 := [x])\<rparr>"
  define s0 where "s0 = char_sys_start\<lparr>smp := t\<rparr>"
  have "sys_reach s0" unfolding s0_def by (rule sys_reach_of_char [OF assms(1)])
  from sys_reach_reads [OF read_to_put [of s0 0] this]
  have "sys_reach (s0\<lparr>readers := (\<lambda>i. R_idle)(0 := R_put 0 0), got := (\<lambda>i. [])(0 := [x])\<rparr>)"
    using assms(2-4) by (simp add: s0_def char_sys_start_def)
  from sys_reach_reads [OF read_to_put [of _ 1] this]
  have "sys_reach s" using assms(2-4) by (simp add: s0_def s_def char_sys_start_def)
  from sys_reach_reads [OF read_from_put [of s 0] this]
  have "sys_reach (s\<lparr>smp := read_return 1 (advance_rd (char_rd ?r) t), readers := (\<lambda>i. R_idle)(1 := R_put 0 0)\<rparr>)"
    by (simp add: s_def fun_upd_twist fun_upd_idem)
  from sys_reach_reads [OF read_from_put [of _ 1] this]
  show ?thesis
    by (simp add: s_def advance_rd_def set_char_rd_def fun_upd_idem char_sys_start_def)
qed

section \<open>Properties of concurrent reads\<close>

text \<open>
  C11. Any number of writers and pushers and one reader at a time make a first-in first-out
  stream under every interleaving of their loads and stores: what the reader was given,
  followed by what is still buffered (without the byte just given), is what was published, and
  of each writer exactly the submitted bytes are published or pending.
\<close>

theorem one_reader_stream:
  assumes "one_reader_reach s"
  shows "char_inv (kring (smp s))
    \<and> got s 0 @ (case readers s 0 of R_put len n \<Rightarrow> tl (char_content (kring (smp s)))
        | R_advance len n rd \<Rightarrow> tl (char_content (kring (smp s)))
        | _ \<Rightarrow> char_content (kring (smp s))) = map snd (committed (smp s))
    \<and> (\<forall>w. bytes_of w (committed (smp s)) @ pending (writers (smp s) w) = submitted (smp s) w)"
proof -
  have inv: "char_smp_inv (smp s)"
    "reader_ok (kring (smp s)) (received (smp s)) (got s 0) (readers s 0)"
    using reader_inv_reach [OF assms] by (simp_all add: reader_inv_def)
  have stream: "received (smp s) @ char_content (kring (smp s)) = map snd (committed (smp s))"
    "char_inv (kring (smp s))"
    "\<forall>w. bytes_of w (committed (smp s)) @ pending (writers (smp s) w) = submitted (smp s) w"
    using inv(1) unfolding char_smp_inv_def by blast+
  show ?thesis
    using stream inv(2) by (cases "readers s 0") (auto simp: hd_Cons_tl)
qed

theorem one_reader_stream_witness:
  "\<exists>s. one_reader_reach s \<and> readers s 0 = R_snap 30 0 1 \<and> committed (smp s) = [(0, 65)]
     \<and> got s 0 @ char_content (kring (smp s)) = [65]"
proof -
  obtain t where t: "writer_step\<^sup>*\<^sup>* char_smp_start t" "committed t = [(0, 65)]"
    "char_wr (kring t) = 1" using one_byte_written [of 65] by blast
  let ?s = "char_sys_start\<lparr>smp := t\<rparr>"
  have "one_reader_reach ?s" by (rule one_reader_of_writers [OF t(1)])
  from one_reader_reach.reader [OF this reader_step.r_call [of ?s 0 31]]
  have "one_reader_reach (?s\<lparr>readers := (readers ?s)(0 := R_top 31 0)\<rparr>)"
    by (simp add: char_sys_start_def)
  from one_reader_reach.reader [OF this reader_step.r_load [of _ 0 30 0]]
  have reach: "one_reader_reach (?s\<lparr>readers := (readers ?s)(0 := R_snap 30 0 1)\<rparr>)"
    using t(3) by (simp add: numeral_eq_Suc)
  show ?thesis using one_reader_stream [OF reach] reach t(2) by (auto simp: numeral_eq_Suc)
qed

text \<open>
  C28. Two reads at once corrupt the stream. After a single byte was written there is a run in
  which two reads of the device both return that byte and both advance the read index: it
  passes the write index, and the ring holds 1023 bytes that nobody wrote.
\<close>

theorem two_readers_phantom:
  "\<exists>s. sys_reach s \<and> committed (smp s) = [(0, x)] \<and> writers (smp s) = (\<lambda>w. Outside)
     \<and> readers s 0 = R_idle \<and> readers s 1 = R_idle \<and> got s 0 = [x] \<and> got s 1 = [x]
     \<and> length (char_content (kring (smp s))) = TELEMETRY_RING_BUFFER_CAPACITY - 1"
proof -
  obtain t where t: "char_reach t" "char_content (kring t) = [x]" "committed t = [(0, x)]"
    "writers t = (\<lambda>w. Outside)" using one_byte_written [of x] by blast
  let ?r = "kring t"
  have inv: "char_inv ?r" using char_smp_reach_inv [OF t(1)] by (simp add: char_smp_inv_def)
  have some: "char_rd ?r \<noteq> char_wr ?r" using t(2) char_content_nil_iff [OF inv] by auto
  note take = take_oldest [OF inv some]
  have x: "char_buffer ?r ! unat (char_rd ?r) = x"
    and nil: "char_content (set_char_rd (char_next (char_rd ?r)) ?r) = []"
    using take(2) t(2) by simp_all
  have wr: "char_next (char_rd ?r) = char_wr ?r"
    using char_content_nil_iff [OF take(1)] nil by (simp add: set_char_rd_def)
  let ?u = "char_sys_start\<lparr>smp := read_return 1 (advance_rd (char_wr ?r)
      (read_return 1 (advance_rd (char_rd ?r) t))), got := (\<lambda>i. [])(0 := [x], 1 := [x])\<rparr>"
  have reach: "sys_reach ?u"
    using both_reads_advance [OF t(1) some] x wr char_inv_bounds [OF inv] by simp
  let ?q = "set_char_rd (char_next (char_wr ?r)) ?r"
  have q: "kring (smp ?u) = ?q"
    by (simp add: advance_rd_def set_char_rd_def)
  have "char_inv ?q"
    using char_inv_get [OF take(1)] by (simp add: wr [symmetric] set_char_rd_def)
  moreover have "\<not> has_room ?q" by (simp add: has_room_def set_char_rd_def)
  ultimately have "length (char_content ?q) = TELEMETRY_RING_BUFFER_CAPACITY - 1"
    using char_fifo.content_le [of ?q] by (simp add: has_room_iff)
  moreover have "writers (smp ?u) = (\<lambda>w. Outside)"
    using t(4) by (auto simp: read_return_def advance_rd_def wake_all_def)
  moreover have "committed (smp ?u) = [(0, x)]" using t(3) by (simp add: advance_rd_def)
  moreover have "readers ?u i = R_idle" for i by (simp add: char_sys_start_def)
  ultimately show ?thesis using reach q by (intro exI [of _ ?u]) simp
qed

end
