(* ===== verification/PacketSMP.thy ===== *)
theory PacketSMP
  imports NetFilter
begin

text \<open>
  The packet hook on several CPUs at once. Each call is cut into the accesses that other CPUs
  can observe: the fetch-and-add, the five field stores, the stamp, the load of the hint and
  each compare-and-swap. Any number of CPUs interleave these steps. The invariants say which
  packet a slot holds in every reachable state, what a reader may rely on in the middle of
  all this, and where it may not.
\<close>

section \<open>The steps\<close>

text \<open>The fields of the metric in the order of the source.\<close>

fun store_field :: "nat \<Rightarrow> nat \<Rightarrow> net_packet_metric \<Rightarrow> u8 list \<Rightarrow> u8 list" where
  "store_field k i m pool =
     (if k = 0 then store32 (net_metric_at i ''src_ip'') (src_ip m) pool
      else if k = 1 then store32 (net_metric_at i ''dest_ip'') (dest_ip m) pool
      else if k = 2 then store16 (net_metric_at i ''src_port'') (src_port m) pool
      else if k = 3 then store16 (net_metric_at i ''dest_port'') (dest_port m) pool
      else store32 (net_metric_at i ''pkt_len'') (pkt_len m) pool)"

text \<open>
  Where a CPU is: outside the hook, storing (with the fields stored so far), or at the hint. The
  stores to the fields come in any order: only \<open>smp_wmb\<close> before the stamp orders them.
\<close>

datatype hook_pc = Idle | Storing net_packet_metric u32 "nat set" | Load_hint u32 | Swap_hint u32 u32

text \<open>
  Two history variables: \<open>arrived\<close> has the metrics in the order of their tickets, \<open>late\<close> the
  tickets that were drawn while another CPU was still storing into the same slot: one that has
  been lapped. The code does not notice this.
\<close>

record smp =
  spage :: shared_ring
  cpus :: "nat \<Rightarrow> hook_pc"
  arrived :: "net_packet_metric list"
  late :: "nat set"

definition smp_start :: smp where
  "smp_start = \<lparr>spage = zeroed_page, cpus = (\<lambda>c. Idle), arrived = [], late = {}\<rparr>"

definition slot_busy :: "smp \<Rightarrow> u32 \<Rightarrow> bool" where
  "slot_busy s t \<longleftrightarrow> (\<exists>d n v k. cpus s d = Storing n v k \<and> slot_index v = slot_index t)"

definition late_claim :: "smp \<Rightarrow> u32 \<Rightarrow> nat set" where
  "late_claim s t = (if slot_busy s t then insert (unat t) (late s) else late s)"

inductive smp_step :: "smp \<Rightarrow> smp \<Rightarrow> bool" where
  claim: "cpus s c = Idle \<Longrightarrow> claim_ticket (spage s) = (t, r) \<Longrightarrow>
    smp_step s (s\<lparr>spage := r, cpus := (cpus s)(c := Storing m t {}), arrived := arrived s @ [m],
      late := late_claim s t\<rparr>)"
| field: "cpus s c = Storing m t D \<Longrightarrow> k < 5 \<Longrightarrow> k \<notin> D \<Longrightarrow>
    smp_step s (s\<lparr>spage := (spage s)\<lparr>net_buffer :=
        store_field k (unat (slot_index t)) m (net_buffer (spage s))\<rparr>,
      cpus := (cpus s)(c := Storing m t (insert k D))\<rparr>)"
| stamp: "cpus s c = Storing m t {0..<5} \<Longrightarrow>
    smp_step s (s\<lparr>spage := stamp_slot (slot_index t) t (spage s),
      cpus := (cpus s)(c := Load_hint t)\<rparr>)"
| load: "cpus s c = Load_hint t \<Longrightarrow>
    smp_step s (s\<lparr>cpus := (cpus s)(c := Swap_hint t (wr_idx (net_ctl (spage s))))\<rparr>)"
| swap: "cpus s c = Swap_hint t current_wr \<Longrightarrow> wr_advance_cond (slot_index t) current_wr \<Longrightarrow>
    wr_idx (net_ctl (spage s)) = current_wr \<Longrightarrow>
    smp_step s (s\<lparr>spage := (spage s)\<lparr>net_ctl := (net_ctl (spage s))\<lparr>wr_idx := slot_index t + 1\<rparr>\<rparr>,
      cpus := (cpus s)(c := Idle)\<rparr>)"
| retry: "cpus s c = Swap_hint t current_wr \<Longrightarrow> wr_advance_cond (slot_index t) current_wr \<Longrightarrow>
    wr_idx (net_ctl (spage s)) \<noteq> current_wr \<Longrightarrow>
    smp_step s (s\<lparr>cpus := (cpus s)(c := Swap_hint t (wr_idx (net_ctl (spage s))))\<rparr>)"
| leave: "cpus s c = Swap_hint t current_wr \<Longrightarrow> \<not> wr_advance_cond (slot_index t) current_wr \<Longrightarrow>
    smp_step s (s\<lparr>cpus := (cpus s)(c := Idle)\<rparr>)"

inductive_cases smp_stepE: "smp_step s s'"

inductive smp_reach :: "smp \<Rightarrow> bool" where
  start: "smp_reach smp_start"
| step: "smp_reach s \<Longrightarrow> smp_step s s' \<Longrightarrow> smp_reach s'"

section \<open>What the field stores do\<close>

fun put_field :: "nat \<Rightarrow> net_packet_metric \<Rightarrow> net_packet_metric \<Rightarrow> net_packet_metric" where
  "put_field k m old =
     (if k = 0 then old\<lparr>src_ip := src_ip m\<rparr> else if k = 1 then old\<lparr>dest_ip := dest_ip m\<rparr>
      else if k = 2 then old\<lparr>src_port := src_port m\<rparr> else if k = 3 then old\<lparr>dest_port := dest_port m\<rparr>
      else old\<lparr>pkt_len := pkt_len m\<rparr>)"

definition fields :: "net_packet_metric \<Rightarrow> nat list" where
  "fields m = [unat (src_ip m), unat (dest_ip m), unat (src_port m), unat (dest_port m), unat (pkt_len m)]"

definition same_fields :: "nat set \<Rightarrow> net_packet_metric \<Rightarrow> net_packet_metric \<Rightarrow> bool" where
  "same_fields D a b \<longleftrightarrow> (\<forall>k\<in>D. fields a ! k = fields b ! k)"

lemma same_fields_empty [simp]: "same_fields {} a b"
  by (simp add: same_fields_def)

lemma same_fields_all: "same_fields {0..<5} a b \<Longrightarrow> a = b"
  by (cases a; cases b)
    (simp add: same_fields_def fields_def unat_eq_iff [symmetric] numeral_eq_Suc atLeast0_lessThan_Suc)

lemma less_5_cases: "k < 5 \<Longrightarrow> k = 0 \<or> k = 1 \<or> k = 2 \<or> k = 3 \<or> k = (4 :: nat)"
  by linarith

lemma fields_put: "k < 5 \<Longrightarrow> j < 5 \<Longrightarrow> fields (put_field k m a) ! j = fields (if j = k then m else a) ! j"
  by (drule less_5_cases, drule less_5_cases) (auto simp: fields_def)

lemma same_fields_put:
  assumes "k < 5" "D \<subseteq> {0..<5}" "same_fields D a m"
  shows "same_fields (insert k D) (put_field k m a) m"
  unfolding same_fields_def
proof
  fix j assume j: "j \<in> insert k D"
  then have "fields (put_field k m a) ! j = fields (if j = k then m else a) ! j"
    using assms(1,2) by (intro fields_put) auto
  then show "fields (put_field k m a) ! j = fields m ! j"
    using j assms(3) by (simp add: same_fields_def split: if_splits)
qed

lemma store_field_same:
  assumes "length pool = 768" "i < 24" "k < 5"
  shows "length (store_field k i m pool) = 768"
    "net_slot_metric (store_field k i m pool) i = put_field k m (net_slot_metric pool i)"
    "net_slot_ticket (store_field k i m pool) i = net_slot_ticket pool i"
  using assms less_5_cases [OF assms(3)]
  by (auto simp: net_slot_defs layout_simps byte_simps)

lemma store_field_other:
  assumes "length pool = 768" "i < 24" "j < 24" "i \<noteq> j" "k < 5"
  shows "net_slot_metric (store_field k i m pool) j = net_slot_metric pool j"
    "net_slot_ticket (store_field k i m pool) j = net_slot_ticket pool j"
proof -
  have "(net_slot_metric (store_field k i m pool) j = net_slot_metric pool j)
    \<and> (net_slot_ticket (store_field k i m pool) j = net_slot_ticket pool j)"
    using slots_apart [OF assms(4), of 32] less_5_cases [OF assms(5)] assms(1-3)
    by (elim disjE; simp add: net_slot_defs layout_simps byte_simps)
  then show "net_slot_metric (store_field k i m pool) j = net_slot_metric pool j"
    "net_slot_ticket (store_field k i m pool) j = net_slot_ticket pool j" by blast+
qed

text \<open>The five stores are the metric store of the sequential hook.\<close>

lemma store_fields: "fold (\<lambda>k. store_field k i m) [0..<5] pool = store_net_metric i m pool"
  by (simp add: upt_rec store_net_metric_def)

declare store_field.simps [simp del] put_field.simps [simp del]

section \<open>Tickets\<close>

definition tickets_inv :: "smp \<Rightarrow> bool" where
  "tickets_inv s \<longleftrightarrow> page_ok (spage s)
     \<and> ticket_dispenser (net_ctl (spage s)) = of_nat (length (arrived s))
     \<and> (\<forall>c m t k. cpus s c = Storing m t k \<longrightarrow>
          unat t < length (arrived s) \<and> arrived s ! unat t = m \<and> k \<subseteq> {0..<5})
     \<and> (\<forall>c d m n t k l. cpus s c = Storing m t k \<longrightarrow> cpus s d = Storing n t l \<longrightarrow> c = d)"

lemma smp_step_arrived: "smp_step s s' \<Longrightarrow> length (arrived s) \<le> length (arrived s')"
  by (erule smp_stepE) simp_all

lemma slot_index_less: "unat (slot_index t) < 24"
  by (simp add: slot_index_unat net_slot_capacity)

lemma page_ok_updates:
  "page_ok (r\<lparr>net_ctl := l\<rparr>) = page_ok r"
  "page_ok r \<Longrightarrow> length p = 768 \<Longrightarrow> page_ok (r\<lparr>net_buffer := p\<rparr>)"
  by (simp_all add: page_ok_def layout_simps)

lemma tickets_inv_start: "tickets_inv smp_start"
  by (simp add: tickets_inv_def smp_start_def zeroed_page_def [THEN arg_cong [where f = net_ctl]])

lemma tickets_inv_step:
  assumes "smp_step s s'" "tickets_inv s" "length (arrived s') < 2 ^ 32"
  shows "tickets_inv s'"
  using assms
proof (induction rule: smp_step.induct)
  case (claim s c t r m)
  let ?l = "length (arrived s)"
  have t: "unat t = ?l" "r = (spage s)\<lparr>net_ctl := (net_ctl (spage s))\<lparr>ticket_dispenser := of_nat ?l + 1\<rparr>\<rparr>"
    using claim unat_of_nat_small [where 'a = 32, of ?l] by (auto simp: claim_ticket_def tickets_inv_def)
  have less: "unat u < ?l" if "cpus s d = Storing n u k" for d n u k
    using claim(3) that by (auto simp: tickets_inv_def)
  show ?case
    using claim(1,3) t less
    by (fastforce simp: tickets_inv_def page_ok_updates nth_append)
next
  case (field s c m t D k)
  have "length (net_buffer (spage s)) = 768" using field by (simp add: tickets_inv_def)
  moreover have "D \<subseteq> {0..<5}" using field(1,4) unfolding tickets_inv_def by blast
  ultimately show ?case
    using field store_field_same(1) [OF _ slot_index_less field(2)]
    by (auto simp: tickets_inv_def page_ok_updates)
next
  case (stamp s c m t)
  have "length (net_buffer (spage s)) = 768" using stamp by (simp add: tickets_inv_def)
  then show ?case
    using stamp length_store_net(2) [OF _ slot_index_less]
    by (auto simp: tickets_inv_def page_ok_updates stamp_slot_def)
next
  case (load s c t)
  then show ?case by (auto simp: tickets_inv_def)
next
  case (swap s c t current_wr)
  then show ?case by (auto simp: tickets_inv_def page_ok_updates)
next
  case (retry s c t current_wr)
  then show ?case by (auto simp: tickets_inv_def)
next
  case (leave s c t current_wr)
  then show ?case by simp
qed

lemma tickets_inv_reach:
  "smp_reach s \<Longrightarrow> length (arrived s) < 2 ^ 32 \<Longrightarrow> tickets_inv s"
proof (induction rule: smp_reach.induct)
  case start
  show ?case by (rule tickets_inv_start)
next
  case (step s s')
  then show ?case
    using tickets_inv_step [OF step.hyps(2)] smp_step_arrived [OF step.hyps(2)] by simp
qed

section \<open>Slots\<close>

text \<open>
  What the slot of a ticket \<open>u\<close> of the last 24 holds, unless \<open>u\<close> was late: no CPU stores into it
  but its own; while that one does, there are the fields stored so far, and afterwards its stamp
  and its packet. And whatever happens, a stamp other than 0 is that of a packet of this slot
  whose CPU is done with it.
\<close>

definition storing :: "smp \<Rightarrow> nat \<Rightarrow> nat set \<Rightarrow> net_packet_metric \<Rightarrow> bool" where
  "storing s u k m \<longleftrightarrow> (\<exists>c t. cpus s c = Storing m t k \<and> unat t = u)"

definition alone :: "smp \<Rightarrow> nat \<Rightarrow> bool" where
  "alone s u \<longleftrightarrow> (\<forall>c m t k. cpus s c = Storing m t k \<longrightarrow> unat t mod 24 = u mod 24 \<longrightarrow> unat t = u)"

definition slot_inv :: "smp \<Rightarrow> nat \<Rightarrow> bool" where
  "slot_inv s u \<longleftrightarrow> alone s u
     \<and> (\<forall>k m. storing s u k m \<longrightarrow> same_fields k (net_pay (spage s) (u mod 24)) m)
     \<and> ((\<forall>k m. \<not> storing s u k m) \<longrightarrow>
        net_tick (spage s) (u mod 24) = of_nat u \<and> net_pay (spage s) (u mod 24) = arrived s ! u)"

definition stamp_ok :: "smp \<Rightarrow> nat \<Rightarrow> bool" where
  "stamp_ok s i \<longleftrightarrow> (let e = net_tick (spage s) i in e \<noteq> 0 \<longrightarrow>
     unat e < length (arrived s) \<and> unat e mod 24 = i \<and> (\<forall>k m. \<not> storing s (unat e) k m))"

definition slots_inv :: "smp \<Rightarrow> bool" where
  "slots_inv s \<longleftrightarrow>
     (\<forall>u < length (arrived s). length (arrived s) \<le> u + 24 \<longrightarrow> u \<notin> late s \<longrightarrow> slot_inv s u)
     \<and> (\<forall>i < 24. stamp_ok s i)"

lemma slots_inv_start: "slots_inv smp_start"
  using zeroed_net_tick by (simp add: slots_inv_def stamp_ok_def smp_start_def)

lemma slot_index_mod: "slot_index t = slot_index v \<longleftrightarrow> unat t mod 24 = unat v mod 24"
  by (simp add: word_unat_eq_iff slot_index_unat net_slot_capacity)

text \<open>A CPU that moves changes who is storing only for its own ticket.\<close>

lemma storing_update:
  assumes "cpus s c = p" "cpus s' = (cpus s)(c := p')"
    and "\<And>n t l. p = Storing n t l \<Longrightarrow> unat t \<noteq> u" "\<And>n t l. p' = Storing n t l \<Longrightarrow> unat t \<noteq> u"
  shows "storing s' u k m = storing s u k m"
  unfolding storing_def assms(2) using assms(1,3,4) by (metis fun_upd_apply)

lemma storing_stays:
  assumes "cpus s' = (cpus s)(c := p)" "storing s' u l n"
    and "\<And>m t k. p = Storing m t k \<Longrightarrow> \<exists>m' k'. cpus s c = Storing m' t k'"
  shows "\<exists>l n. storing s u l n"
proof -
  obtain d t where d: "cpus s' d = Storing n t l" "unat t = u" using assms(2) by (auto simp: storing_def)
  then show ?thesis using assms(1,3) by (cases "d = c") (auto simp: storing_def)
qed

lemma alone_update:
  assumes "alone s u" "cpus s' = (cpus s)(c := p)"
    and "\<And>m t k. p = Storing m t k \<Longrightarrow> unat t mod 24 = u mod 24 \<Longrightarrow> unat t = u"
  shows "alone s' u"
  using assms by (auto simp: alone_def)

text \<open>A move that is not in the slot of \<open>u\<close>.\<close>

lemma slot_inv_frame:
  assumes "slot_inv s u" "cpus s' = (cpus s)(c := p)"
    and "\<And>m t k. cpus s c = Storing m t k \<Longrightarrow> unat t \<noteq> u"
    and "\<And>m t k. p = Storing m t k \<Longrightarrow> unat t mod 24 \<noteq> u mod 24"
    and "net_tick (spage s') (u mod 24) = net_tick (spage s) (u mod 24)"
    and "net_pay (spage s') (u mod 24) = net_pay (spage s) (u mod 24)"
    and "arrived s' ! u = arrived s ! u"
  shows "slot_inv s' u"
proof -
  have "storing s' u k m = storing s u k m" for k m
    by (rule storing_update [OF refl assms(2)]) (use assms(3,4) in auto)
  moreover have "alone s' u"
    by (rule alone_update [OF _ assms(2)]) (use assms(1,4) in \<open>auto simp: slot_inv_def\<close>)
  ultimately show ?thesis using assms(1,5-7) by (simp add: slot_inv_def)
qed

lemma stamp_ok_frame:
  assumes "stamp_ok s i" "cpus s' = (cpus s)(c := p)"
    and "net_tick (spage s') i = net_tick (spage s) i" "length (arrived s) \<le> length (arrived s')"
    and "\<And>m t k. p = Storing m t k \<Longrightarrow> length (arrived s) \<le> unat t \<or> (\<exists>m' k'. cpus s c = Storing m' t k')"
  shows "stamp_ok s' i"
proof -
  let ?e = "net_tick (spage s) i"
  have "\<not> storing s' (unat ?e) k m" if "?e \<noteq> 0" for k m
  proof
    assume st: "storing s' (unat ?e) k m"
    have e: "unat ?e < length (arrived s)" "\<And>l n. \<not> storing s (unat ?e) l n"
      using assms(1) that by (auto simp: stamp_ok_def Let_def)
    obtain d t where d: "cpus s' d = Storing m t k" "unat t = unat ?e"
      using st by (auto simp: storing_def)
    then show False
      using assms(2) assms(5) [of m t k] e by (cases "d = c") (auto simp: storing_def)
  qed
  then show ?thesis using assms(1,3,4) by (auto simp: stamp_ok_def Let_def)
qed

text \<open>Steps that touch no slot and no storing CPU.\<close>

lemma slots_inv_quiet:
  assumes "slots_inv s" "net_buffer (spage s') = net_buffer (spage s)" "arrived s' = arrived s"
    and "late s' = late s"
    and "cpus s' = (cpus s)(c := p)" "\<And>n t l. cpus s c \<noteq> Storing n t l" "\<And>n t l. p \<noteq> Storing n t l"
  shows "slots_inv s'"
proof -
  have "slot_inv s u \<Longrightarrow> slot_inv s' u" for u
    by (rule slot_inv_frame [OF _ assms(5)]) (use assms(2-7) in simp_all)
  moreover have "stamp_ok s i \<Longrightarrow> stamp_ok s' i" for i
    by (rule stamp_ok_frame [OF _ assms(5)]) (use assms(2-7) in simp_all)
  ultimately show ?thesis using assms(1,3,4) by (simp add: slots_inv_def)
qed

text \<open>No other CPU has the ticket of a storing one.\<close>

lemma storing_alone:
  assumes "tickets_inv s" "cpus s c = Storing m t k" "cpus s d = Storing n v l" "unat v = unat t"
  shows "d = c \<and> n = m \<and> l = k"
proof -
  have "v = t" using assms(4) by (simp add: unat_eq_iff)
  moreover have "\<forall>c d m n t k l. cpus s c = Storing m t k \<longrightarrow> cpus s d = Storing n t l \<longrightarrow> c = d"
    using assms(1) unfolding tickets_inv_def by (elim conjE)
  ultimately have "d = c" using assms(2,3) by metis
  then show ?thesis using assms(2,3) by simp
qed

lemma storing_own:
  assumes "tickets_inv s" "cpus s c = Storing m t k"
  shows "unat t < length (arrived s)" "arrived s ! unat t = m"
    "storing s (unat t) l n \<longleftrightarrow> l = k \<and> n = m"
proof -
  show "unat t < length (arrived s)" "arrived s ! unat t = m"
    using assms unfolding tickets_inv_def by blast+
  show "storing s (unat t) l n \<longleftrightarrow> l = k \<and> n = m"
    using storing_alone [OF assms] assms(2) unfolding storing_def by blast
qed

lemma storing_after:
  assumes "tickets_inv s" "cpus s c = Storing m t k" "cpus s' = (cpus s)(c := p)"
  shows "storing s' (unat t) l n \<longleftrightarrow> (\<exists>v. p = Storing n v l \<and> unat v = unat t)"
proof
  assume "storing s' (unat t) l n"
  then obtain d v where d: "cpus s' d = Storing n v l" "unat v = unat t" by (auto simp: storing_def)
  show "\<exists>v. p = Storing n v l \<and> unat v = unat t"
  proof (cases "d = c")
    case True
    then show ?thesis using d assms(3) by auto
  next
    case False
    then show ?thesis using storing_alone [OF assms(1,2)] d assms(3) by auto
  qed
next
  assume "\<exists>v. p = Storing n v l \<and> unat v = unat t"
  then show "storing s' (unat t) l n" unfolding storing_def assms(3) by (metis fun_upd_same)
qed

lemma slots_inv_claim:
  assumes inv: "tickets_inv s" "slots_inv s" and c: "cpus s c = Idle"
    and claim: "claim_ticket (spage s) = (t, r)" and len: "length (arrived s) + 1 < 2 ^ 32"
    and s': "s' = s\<lparr>spage := r, cpus := (cpus s)(c := Storing m t {}), arrived := arrived s @ [m],
      late := late_claim s t\<rparr>"
  shows "slots_inv s'"
proof -
  let ?l = "length (arrived s)"
  have t: "unat t = ?l" "net_buffer r = net_buffer (spage s)"
    using inv(1) claim unat_of_nat_small [where 'a = 32, of ?l] len
    by (auto simp: claim_ticket_def tickets_inv_def)
  have cpus: "cpus s' = (cpus s)(c := Storing m t {})" using s' by simp
  have old: "slot_inv s' u" if "u < ?l" "?l + 1 \<le> u + 24" "u \<notin> late s'" for u
  proof -
    have "u mod 24 \<noteq> ?l mod 24" using that net_ring.window_slot [of u ?l] by auto
    moreover have "u \<notin> late s" using that(3) s' by (auto simp: late_claim_def split: if_splits)
    ultimately show ?thesis
      using that inv(2) c s' t
      by (intro slot_inv_frame [OF _ cpus]) (auto simp: slots_inv_def nth_append)
  qed
  have less: "unat v < ?l" if "cpus s d = Storing n v k" for d n v k
    using inv(1) that by (auto simp: tickets_inv_def)
  have other: "unat v \<noteq> ?l" if "cpus s d = Storing n v k" for d n v k
    using less [OF that] by simp
  have new: "storing s' ?l k n \<longleftrightarrow> k = {} \<and> n = m" for k n
    using t(1) s' other by (auto simp: storing_def)
  have "slot_inv s' ?l" if "?l \<notin> late s'"
  proof -
    have free: "\<not> slot_busy s t" using that s' t(1) by (auto simp: late_claim_def)
    have "unat v mod 24 \<noteq> ?l mod 24" if "cpus s d = Storing n v k" for d n v k
      using free that t(1) by (auto simp: slot_busy_def slot_index_mod)
    then have "alone s' ?l" using s' t(1) by (auto simp: alone_def)
    then show ?thesis using new by (auto simp: slot_inv_def)
  qed
  moreover have "stamp_ok s' i" if "i < 24" for i
    by (rule stamp_ok_frame [OF _ cpus]) (use that inv(2) s' t in \<open>auto simp: slots_inv_def\<close>)
  ultimately show ?thesis using old s' by (auto simp: slots_inv_def less_Suc_eq)
qed

text \<open>
  A store into the slot of a storing CPU: what it leaves alone, and what is left to show of the
  ticket of that CPU.
\<close>

lemma slots_inv_store:
  assumes inv: "tickets_inv s" "slots_inv s" and c: "cpus s c = Storing m t k"
    and s': "cpus s' = (cpus s)(c := p)" "arrived s' = arrived s" "late s' = late s"
    and p: "\<And>n v l. p = Storing n v l \<Longrightarrow> v = t"
    and other: "\<And>i. i < 24 \<Longrightarrow> i \<noteq> unat t mod 24 \<Longrightarrow>
      net_tick (spage s') i = net_tick (spage s) i \<and> net_pay (spage s') i = net_pay (spage s) i"
    and own: "alone s' (unat t) \<Longrightarrow> slot_inv s (unat t) \<Longrightarrow> slot_inv s' (unat t)"
    and stamp: "stamp_ok s (unat t mod 24) \<Longrightarrow> stamp_ok s' (unat t mod 24)"
  shows "slots_inv s'"
proof -
  have "slot_inv s' u" if u: "u < length (arrived s)" "length (arrived s) \<le> u + 24" "u \<notin> late s" for u
  proof -
    have old: "slot_inv s u" using inv(2) u by (simp add: slots_inv_def)
    show ?thesis
    proof (cases "unat t mod 24 = u mod 24")
      case True
      then have t: "unat t = u" using old c by (auto simp: slot_inv_def alone_def)
      have "alone s' u"
        by (rule alone_update [OF _ s'(1)]) (use old p t in \<open>auto simp: slot_inv_def\<close>)
      then show ?thesis using own old t by simp
    next
      case False
      then show ?thesis
        using c p s'(2) other [of "u mod 24"]
        by (intro slot_inv_frame [OF old s'(1)]) auto
    qed
  qed
  moreover have "stamp_ok s' i" if i: "i < 24" for i
  proof (cases "i = unat t mod 24")
    case True
    then show ?thesis using stamp inv(2) i by (simp add: slots_inv_def)
  next
    case False
    then show ?thesis
      using inv(2) i c p s'(2) other
      by (intro stamp_ok_frame [OF _ s'(1)]) (auto simp: slots_inv_def)
  qed
  ultimately show ?thesis using s'(2,3) by (simp add: slots_inv_def)
qed

lemma slots_inv_field:
  assumes inv: "tickets_inv s" "slots_inv s" and c: "cpus s c = Storing m t D" "k < 5"
    and s': "s' = s\<lparr>spage := (spage s)\<lparr>net_buffer :=
        store_field k (unat (slot_index t)) m (net_buffer (spage s))\<rparr>,
      cpus := (cpus s)(c := Storing m t (insert k D))\<rparr>"
  shows "slots_inv s'"
proof (rule slots_inv_store [OF inv c(1)])
  let ?u = "unat t" and ?pool = "net_buffer (spage s)"
  have len: "length ?pool = 768" using inv(1) by (simp add: tickets_inv_def)
  have slot: "unat (slot_index t) = ?u mod 24" by (simp add: slot_index_unat net_slot_capacity)
  have lt: "?u mod 24 < 24" by simp
  note same = store_field_same [OF len lt c(2)]
  show cpus: "cpus s' = (cpus s)(c := Storing m t (insert k D))" using s' by simp
  show "net_tick (spage s') i = net_tick (spage s) i \<and> net_pay (spage s') i = net_pay (spage s) i"
    if "i < 24" "i \<noteq> ?u mod 24" for i
    using store_field_other [OF len lt that(1) _ c(2)] that(2) s' slot by auto
  have pool: "net_tick (spage s') (?u mod 24) = net_tick (spage s) (?u mod 24)"
    "net_pay (spage s') (?u mod 24) = put_field k m (net_pay (spage s) (?u mod 24))"
    using same s' slot by simp_all
  have mine: "storing s' ?u l n \<longleftrightarrow> l = insert k D \<and> n = m" for l n
    using storing_after [OF inv(1) c(1) cpus] by auto
  have "D \<subseteq> {0..<5}" using c(1) inv(1) unfolding tickets_inv_def by blast
  then show "slot_inv s' ?u" if "alone s' ?u" "slot_inv s ?u"
    using that mine pool same_fields_put [OF c(2)] storing_own(3) [OF inv(1) c(1)]
    by (auto simp: slot_inv_def)
  show "stamp_ok s' (?u mod 24)" if "stamp_ok s (?u mod 24)"
    by (rule stamp_ok_frame [OF that cpus pool(1)]) (use s' c in auto)
qed (use s' in auto)

lemma slots_inv_stamp:
  assumes inv: "tickets_inv s" "slots_inv s" and c: "cpus s c = Storing m t {0..<5}"
    and s': "s' = s\<lparr>spage := stamp_slot (slot_index t) t (spage s), cpus := (cpus s)(c := Load_hint t)\<rparr>"
  shows "slots_inv s'"
proof (rule slots_inv_store [OF inv c])
  let ?u = "unat t" and ?pool = "net_buffer (spage s)"
  have len: "length ?pool = 768" using inv(1) by (simp add: tickets_inv_def)
  have slot: "unat (slot_index t) = ?u mod 24" by (simp add: slot_index_unat net_slot_capacity)
  have lt: "?u mod 24 < 24" by simp
  note own = storing_own [OF inv(1) c]
  show cpus: "cpus s' = (cpus s)(c := Load_hint t)" using s' by simp
  show "net_tick (spage s') i = net_tick (spage s) i \<and> net_pay (spage s') i = net_pay (spage s) i"
    if "i < 24" "i \<noteq> ?u mod 24" for i
    using net_store_other(3,4) [OF len lt that(1)] that(2) s' slot by (auto simp: stamp_slot_def)
  have pool: "net_tick (spage s') (?u mod 24) = t"
    "net_pay (spage s') (?u mod 24) = net_pay (spage s) (?u mod 24)"
    using net_store_same(3,4) [OF len lt] s' slot by (simp_all add: stamp_slot_def)
  have mine: "\<not> storing s' ?u l n" for l n
    using storing_after [OF inv(1) c cpus] by simp
  show "slot_inv s' ?u" if "alone s' ?u" "slot_inv s ?u"
  proof -
    have "same_fields {0..<5} (net_pay (spage s) (?u mod 24)) m"
      using that(2) own(3) unfolding slot_inv_def by blast
    then show ?thesis
      using that(1) mine pool own(2) same_fields_all s' by (auto simp: slot_inv_def)
  qed
  show "stamp_ok s' (?u mod 24)"
    using pool(1) mine own(1) s' by (simp add: stamp_ok_def)
qed (use s' in auto)

lemma slots_inv_step:
  assumes "smp_step s s'" "tickets_inv s" "slots_inv s" "length (arrived s') < 2 ^ 32"
  shows "slots_inv s'"
  using assms(1)
proof cases
  case (claim c t r m)
  then show ?thesis using slots_inv_claim [OF assms(2,3)] assms(4) by simp
next
  case (field c m t D k)
  then show ?thesis using slots_inv_field [OF assms(2,3)] by blast
next
  case (stamp c m t)
  then show ?thesis using slots_inv_stamp [OF assms(2,3)] by blast
next
  case (load c t)
  show ?thesis by (rule slots_inv_quiet [OF assms(3)]) (use load in auto)
next
  case (swap c t current_wr)
  show ?thesis by (rule slots_inv_quiet [OF assms(3)]) (use swap in auto)
next
  case (retry c t current_wr)
  show ?thesis by (rule slots_inv_quiet [OF assms(3)]) (use retry in auto)
qed simp

lemma slots_inv_reach:
  "smp_reach s \<Longrightarrow> length (arrived s) < 2 ^ 32 \<Longrightarrow> tickets_inv s \<and> slots_inv s"
proof (induction rule: smp_reach.induct)
  case start
  show ?case using tickets_inv_start slots_inv_start by blast
next
  case (step s s')
  then show ?case
    using slots_inv_step [OF step.hyps(2)] tickets_inv_step [OF step.hyps(2)]
      smp_step_arrived [OF step.hyps(2)] by simp
qed

text \<open>A slot of the last 24 tickets that was not late, once its CPU is done.\<close>

lemma slot_recorded:
  assumes "slots_inv s" "u < length (arrived s)" "length (arrived s) \<le> u + 24" "u \<notin> late s"
    and "\<And>k m. \<not> storing s u k m"
  shows "net_tick (spage s) (u mod 24) = of_nat u" "net_pay (spage s) (u mod 24) = arrived s ! u"
  using assms by (auto simp: slots_inv_def slot_inv_def)

lemma stamp_finished:
  assumes "slots_inv s" "net_tick (spage s) (unat e mod 24) = e" "e \<noteq> 0"
  shows "unat e < length (arrived s)" "\<not> storing s (unat e) k m"
  using assms(1) assms(2,3) unfolding slots_inv_def stamp_ok_def Let_def
  by (metis mod_less_divisor zero_less_numeral)+

section \<open>A whole call\<close>

text \<open>
  A call of the sequential hook is a run of one CPU while the others stand still: the model
  with interleaving contains the sequential one.
\<close>

lemma storing_run:
  assumes "cpus s c = Storing m t {}" "k \<le> 5"
  shows "smp_step\<^sup>*\<^sup>* s (s\<lparr>spage := (spage s)\<lparr>net_buffer :=
        fold (\<lambda>k. store_field k (unat (slot_index t)) m) [0..<k] (net_buffer (spage s))\<rparr>,
      cpus := (cpus s)(c := Storing m t {0..<k})\<rparr>)"
  using assms(2)
proof (induction k)
  case 0
  then show ?case by (simp add: fun_upd_idem assms(1))
next
  case (Suc k)
  let ?s = "s\<lparr>spage := (spage s)\<lparr>net_buffer :=
        fold (\<lambda>k. store_field k (unat (slot_index t)) m) [0..<k] (net_buffer (spage s))\<rparr>,
      cpus := (cpus s)(c := Storing m t {0..<k})\<rparr>"
  have "smp_step ?s (?s\<lparr>spage := (spage ?s)\<lparr>net_buffer :=
        store_field k (unat (slot_index t)) m (net_buffer (spage ?s))\<rparr>,
      cpus := (cpus ?s)(c := Storing m t (insert k {0..<k}))\<rparr>)"
    by (rule smp_step.field) (use Suc.prems in simp_all)
  then show ?case using rtranclp.rtrancl_into_rtrancl [OF Suc.IH] Suc.prems
    by (simp del: fun_upd_apply add: atLeast0_lessThan_Suc)
qed

lemma whole_call:
  assumes "cpus s c = Idle"
  shows "smp_step\<^sup>*\<^sup>* s (s\<lparr>spage := record_packet [] m (spage s), arrived := arrived s @ [m],
    late := late_claim s (ticket_dispenser (net_ctl (spage s)))\<rparr>)"
proof -
  let ?t = "ticket_dispenser (net_ctl (spage s))"
  define r where "r = snd (claim_ticket (spage s))"
  define s1 where "s1 = s\<lparr>spage := r, cpus := (cpus s)(c := Storing m ?t {}), arrived := arrived s @ [m],
    late := late_claim s ?t\<rparr>"
  have "smp_step s s1"
    unfolding s1_def by (rule smp_step.claim) (use assms in \<open>simp_all add: claim_ticket_def r_def\<close>)
  moreover define s2 where "s2 = s1\<lparr>spage := (spage s1)\<lparr>net_buffer :=
      store_net_metric (unat (slot_index ?t)) m (net_buffer (spage s1))\<rparr>,
    cpus := (cpus s1)(c := Storing m ?t {0..<5})\<rparr>"
  have "smp_step\<^sup>*\<^sup>* s1 s2"
    using storing_run [of s1 c m ?t 5] by (simp add: s2_def store_fields) (simp add: s1_def)
  moreover define s3 where "s3 = s2\<lparr>spage := stamp_slot (slot_index ?t) ?t (spage s2),
      cpus := (cpus s2)(c := Load_hint ?t)\<rparr>"
  have "smp_step s2 s3"
    unfolding s3_def by (rule smp_step.stamp) (simp add: s2_def)
  moreover define s4 where "s4 = s3\<lparr>cpus := (cpus s3)(c := Swap_hint ?t (wr_idx (net_ctl (spage s3))))\<rparr>"
  have "smp_step s3 s4"
    unfolding s4_def by (rule smp_step.load) (simp add: s3_def)
  moreover define s5 where "s5 = s4\<lparr>spage := (spage s4)\<lparr>net_ctl := (net_ctl (spage s4))
      \<lparr>wr_idx := slot_index ?t + 1\<rparr>\<rparr>, cpus := (cpus s4)(c := Idle)\<rparr>"
  have "smp_step s4 s5"
    unfolding s5_def by (rule smp_step.swap) (simp_all add: s4_def)
  ultimately have "smp_step\<^sup>*\<^sup>* s s5"
    by (meson converse_rtranclp_into_rtranclp rtranclp.rtrancl_into_rtrancl rtranclp_trans)
  moreover have "cpus s5 = cpus s"
    using assms by (auto simp: s5_def s4_def s3_def s2_def s1_def)
  then have "s5 = s\<lparr>spage := record_packet [] m (spage s), arrived := arrived s @ [m],
      late := late_claim s ?t\<rparr>"
    by (simp add: s5_def s4_def s3_def s2_def s1_def record_packet_effect Let_def r_def
        claim_ticket_def stamp_slot_def slot_index_unat)
  ultimately show ?thesis by simp
qed

lemma whole_calls:
  assumes "cpus s c = Idle"
  shows "\<exists>s'. smp_step\<^sup>*\<^sup>* s s' \<and> spage s' = fold (record_packet []) ms (spage s) \<and> cpus s' = cpus s
    \<and> arrived s' = arrived s @ ms \<and> ((\<forall>d. cpus s d = Idle) \<longrightarrow> late s' = late s)"
  using assms
proof (induction ms arbitrary: s)
  case Nil
  then show ?case by (intro exI [of _ s]) simp
next
  case (Cons m ms)
  let ?s = "s\<lparr>spage := record_packet [] m (spage s), arrived := arrived s @ [m],
    late := late_claim s (ticket_dispenser (net_ctl (spage s)))\<rparr>"
  obtain s' where s': "smp_step\<^sup>*\<^sup>* ?s s'" "spage s' = fold (record_packet []) ms (spage ?s)"
    "cpus s' = cpus ?s" "arrived s' = arrived ?s @ ms" "(\<forall>d. cpus ?s d = Idle) \<longrightarrow> late s' = late ?s"
    using Cons.IH [of ?s] Cons.prems by auto
  have "(\<forall>d. cpus s d = Idle) \<longrightarrow> late ?s = late s" by (simp add: late_claim_def slot_busy_def)
  then show ?case
    using s' rtranclp_trans [OF whole_call [OF Cons.prems] s'(1)] by (intro exI [of _ s']) simp
qed

lemma smp_reach_run: "smp_step\<^sup>*\<^sup>* s s' \<Longrightarrow> smp_reach s \<Longrightarrow> smp_reach s'"
  by (induction rule: rtranclp_induct) (auto intro: smp_reach.step)

text \<open>Example states: after some whole calls.\<close>

definition plain_packet :: "u32 \<Rightarrow> net_packet_metric" where
  "plain_packet a = \<lparr>src_ip = a, dest_ip = a, src_port = 0, dest_port = 0, pkt_len = 40\<rparr>"

definition after_calls :: "net_packet_metric list \<Rightarrow> smp" where
  "after_calls ms = smp_start\<lparr>spage := fold (record_packet []) ms zeroed_page, arrived := ms\<rparr>"

lemma after_calls_simps [simp]:
  "cpus (after_calls ms) c = Idle" "arrived (after_calls ms) = ms" "late (after_calls ms) = {}"
  by (simp_all add: after_calls_def smp_start_def)

lemma after_calls_reach: "smp_reach (after_calls ms)"
proof -
  obtain s where s: "smp_step\<^sup>*\<^sup>* smp_start s" "spage s = fold (record_packet []) ms zeroed_page"
    "cpus s = (\<lambda>c. Idle)" "arrived s = ms" "late s = {}"
    using whole_calls [of smp_start 0 ms] by (auto simp: smp_start_def)
  then have "s = after_calls ms" by (cases s) (simp add: after_calls_def smp_start_def)
  then show ?thesis using smp_reach_run [OF s(1) smp_reach.start] by simp
qed

lemma after_calls_ring:
  "length ms < 2 ^ 32 \<Longrightarrow> page_ok (spage (after_calls ms)) \<and> net_ring.holds ms (spage (after_calls ms))"
  using net_ring.holds_push_all [OF page_ok_zeroed zeroed_net_holds, of ms]
  by (simp add: after_calls_def)

section \<open>Properties of the hook on several CPUs\<close>

text \<open>
  Under every interleaving the tickets of the CPUs inside the hook are distinct and are
  those of their packets, and the dispenser counts the packets.
\<close>

theorem smp_tickets_unique:
  assumes "smp_reach s" "length (arrived s) < 2 ^ 32"
  shows "ticket_dispenser (net_ctl (spage s)) = of_nat (length (arrived s))
    \<and> (\<forall>c m t k. cpus s c = Storing m t k \<longrightarrow> unat t < length (arrived s) \<and> arrived s ! unat t = m)
    \<and> (\<forall>c d m n t k l. cpus s c = Storing m t k \<longrightarrow> cpus s d = Storing n t l \<longrightarrow> c = d)"
  using tickets_inv_reach [OF assms] by (simp add: tickets_inv_def)

theorem smp_tickets_unique_witness:
  "ticket_dispenser (net_ctl (spage (after_calls [plain_packet 7, plain_packet 8]))) = 2"
  using smp_tickets_unique [OF after_calls_reach [of "[plain_packet 7, plain_packet 8]"]] by simp

text \<open>
  C7. Every interleaving ends like a sequential run, slot by slot, as long as there are fewer than
  \<open>2 ^ 32\<close> packets: whenever no CPU is storing, the slot of each of the last 24 tickets holds its
  packet and its stamp, unless the ticket was late, that is, drawn while a lapped CPU was still
  storing into the slot. Without a late ticket the ring is the one that a sequential run in the
  order of the tickets leaves.
\<close>

theorem smp_quiescent_history:
  assumes "smp_reach s" "length (arrived s) < 2 ^ 32"
    and "\<forall>c m t k. cpus s c \<noteq> Storing m t k"
  shows "(\<forall>u < length (arrived s). length (arrived s) \<le> u + NETFILTER_SLOT_CAPACITY \<longrightarrow> u \<notin> late s \<longrightarrow>
      net_slot_ticket (net_buffer (spage s)) (u mod NETFILTER_SLOT_CAPACITY) = of_nat u
      \<and> net_slot_metric (net_buffer (spage s)) (u mod NETFILTER_SLOT_CAPACITY) = arrived s ! u)
    \<and> (late s = {} \<longrightarrow> ring_holds NETFILTER_SLOT_CAPACITY (ticket_dispenser (net_ctl (spage s)))
        (net_slot_ticket (net_buffer (spage s))) (net_slot_metric (net_buffer (spage s))) (arrived s))"
proof -
  note inv = slots_inv_reach [OF assms(1,2)]
  have free: "\<not> storing s u k m" for u k m using assms(3) by (auto simp: storing_def)
  note slot = slot_recorded [OF conjunct2 [OF inv] _ _ _ free]
  have "net_tick (spage s) i = 0" if "i < 24" "length (arrived s) \<le> i" for i
  proof (rule ccontr)
    assume e: "net_tick (spage s) i \<noteq> 0"
    then have "unat (net_tick (spage s) i) mod 24 = i" "unat (net_tick (spage s) i) < length (arrived s)"
      using inv that(1) by (simp_all add: slots_inv_def stamp_ok_def Let_def)
    then have "i < length (arrived s)" by (metis mod_less_eq_dividend order_le_less_trans)
    then show False using that(2) by simp
  qed
  then show ?thesis
    using slot inv by (simp add: ring_holds_def tickets_inv_def net_slot_capacity)
qed

theorem smp_quiescent_history_witness:
  "net_slot_metric (net_buffer (spage (after_calls [plain_packet 7, plain_packet 8]))) 1 = plain_packet 8"
  using smp_quiescent_history [OF after_calls_reach, of "[plain_packet 7, plain_packet 8]", THEN conjunct1,
      rule_format, of 1]
  by (simp add: net_slot_capacity)

text \<open>
  A reader that is at most 24 tickets behind is safe at any moment of any interleaving: if it
  finds the stamp of a ticket that is neither 0 nor late, the slot holds that packet whole, even
  while CPUs are storing.
\<close>

theorem smp_snapshot_safe:
  assumes "smp_reach s" "length (arrived s) < 2 ^ 32" "u \<notin> late s"
    and "0 < u" "u < length (arrived s)" "length (arrived s) \<le> u + NETFILTER_SLOT_CAPACITY"
    and "net_slot_ticket (net_buffer (spage s)) (u mod NETFILTER_SLOT_CAPACITY) = of_nat u"
  shows "net_slot_metric (net_buffer (spage s)) (u mod NETFILTER_SLOT_CAPACITY) = arrived s ! u"
proof -
  have inv: "slots_inv s" using slots_inv_reach [OF assms(1,2)] by simp
  have u: "unat (of_nat u :: u32) = u" using assms(2,5) by (intro unat_of_nat_small) simp
  then have "(of_nat u :: u32) \<noteq> 0" using assms(4) by auto
  from stamp_finished(2) [OF inv _ this] assms(7) u
  have "\<not> storing s u k m" for k m by (simp add: net_slot_capacity)
  then show ?thesis
    using slot_recorded(2) [OF inv assms(5) _ assms(3)] assms(6) by (simp add: net_slot_capacity)
qed

theorem smp_snapshot_safe_witness:
  "net_slot_metric (net_buffer (spage (after_calls [plain_packet 7, plain_packet 8]))) 1 = plain_packet 8"
proof -
  let ?ms = "[plain_packet 7, plain_packet 8]"
  have "net_slot_ticket (net_buffer (spage (after_calls ?ms))) 1 = of_nat 1"
    using after_calls_ring [of ?ms] by (auto simp: ring_holds_def dest: spec [of _ 1])
  then show ?thesis
    using smp_snapshot_safe [OF after_calls_reach, of ?ms 1] by (simp add: net_slot_capacity)
qed

text \<open>The first two steps of a call after some whole ones: a ticket and one address.\<close>

lemma begun_call:
  assumes "smp_reach s" "length (arrived s) < 2 ^ 32 - 1" "cpus s c = Idle"
    and t: "t = ticket_dispenser (net_ctl (spage s))"
  shows "smp_step\<^sup>*\<^sup>* s (s\<lparr>spage := (snd (claim_ticket (spage s)))\<lparr>net_buffer :=
        store_field 0 (unat t mod 24) m (net_buffer (spage s))\<rparr>,
      cpus := (cpus s)(c := Storing m t {0}), arrived := arrived s @ [m], late := late_claim s t\<rparr>)"
proof -
  let ?r = "snd (claim_ticket (spage s))"
  have claim: "claim_ticket (spage s) = (t, ?r)" "net_buffer ?r = net_buffer (spage s)"
    using t by (simp_all add: claim_ticket_def)
  let ?s = "s\<lparr>spage := ?r, cpus := (cpus s)(c := Storing m t {}), arrived := arrived s @ [m],
    late := late_claim s t\<rparr>"
  have "smp_step s ?s" by (rule smp_step.claim [OF assms(3) claim(1)])
  moreover have "smp_step ?s (s\<lparr>spage := ?r\<lparr>net_buffer := store_field 0 (unat t mod 24) m (net_buffer (spage s))\<rparr>,
      cpus := (cpus s)(c := Storing m t {0}), arrived := arrived s @ [m], late := late_claim s t\<rparr>)"
    using smp_step.field [of ?s c m t "{}" 0] claim(2)
    by (cases s) (simp add: slot_index_unat net_slot_capacity)
  ultimately show ?thesis by simp
qed

text \<open>
  The stamp does not protect a reader that is 25 tickets behind: although no ticket is late,
  there is a reachable state in which a slot bears the stamp of ticket 1 and a metric
  that belongs to no packet at all, half of it from ticket 1 and half from ticket 25.
\<close>

theorem smp_torn_read:
  "\<exists>s. smp_reach s \<and> late s = {} \<and> length (arrived s) = 26
     \<and> net_slot_ticket (net_buffer (spage s)) 1 = 1
     \<and> net_slot_metric (net_buffer (spage s)) 1 \<notin> set (arrived s)"
proof -
  let ?ms = "replicate 25 (plain_packet 7)"
  let ?s = "after_calls ?ms" and ?m = "plain_packet 8"
  let ?t = "ticket_dispenser (net_ctl (spage ?s))"
  have ring: "page_ok (spage ?s)" "net_ring.holds ?ms (spage ?s)"
    using after_calls_ring [of ?ms] by simp_all
  then have t: "unat ?t mod 24 = 1" by (simp add: ring_holds_def)
  have slot: "net_tick (spage ?s) 1 = 1" "net_pay (spage ?s) 1 = plain_packet 7"
    using ring(2) by (auto simp: ring_holds_def dest: spec [of _ 1])
  define s where "s = ?s\<lparr>spage := (snd (claim_ticket (spage ?s)))\<lparr>net_buffer :=
        store_field 0 1 ?m (net_buffer (spage ?s))\<rparr>,
      cpus := (cpus ?s)(0 := Storing ?m ?t {0}), arrived := ?ms @ [?m], late := late_claim ?s ?t\<rparr>"
  have "smp_reach s"
    using smp_reach_run [OF begun_call [OF after_calls_reach [of ?ms] _ _ refl, of 0 ?m] after_calls_reach] t
    by (simp add: s_def)
  moreover have "late s = {}" by (simp add: s_def late_claim_def slot_busy_def)
  moreover have "net_tick (spage s) 1 = 1" "net_pay (spage s) 1 = (plain_packet 7)\<lparr>src_ip := 8\<rparr>"
    using store_field_same(2,3) [of "net_buffer (spage ?s)" 1 0 ?m] ring(1) slot
    by (simp_all add: s_def put_field.simps plain_packet_def)
  ultimately show ?thesis by (intro exI [of _ s]) (auto simp: s_def plain_packet_def)
qed

text \<open>What is left of a call, up to the stamp.\<close>

lemma finish_call:
  assumes "cpus s c = Storing m t D" "D \<subseteq> {0..<5}" "length (net_buffer (spage s)) = 768"
    and "same_fields D (net_pay (spage s) (unat t mod 24)) m"
  shows "\<exists>s'. smp_step\<^sup>*\<^sup>* s s' \<and> arrived s' = arrived s \<and> cpus s' = (cpus s)(c := Load_hint t)
    \<and> net_tick (spage s') (unat t mod 24) = t \<and> net_pay (spage s') (unat t mod 24) = m"
  using assms
proof (induction "card ({0..<5} - D)" arbitrary: s D)
  case 0
  then have D: "D = {0..<5}" by auto
  let ?s = "s\<lparr>spage := stamp_slot (slot_index t) t (spage s), cpus := (cpus s)(c := Load_hint t)\<rparr>"
  have "smp_step s ?s" by (rule smp_step.stamp) (use 0 D in simp)
  then show ?case
    using 0 D net_store_same(3,4) [of "net_buffer (spage s)" "unat t mod 24" t] same_fields_all
    by (intro exI [of _ ?s]) (simp add: stamp_slot_def slot_index_unat net_slot_capacity)
next
  case (Suc x)
  then obtain k where k: "k < 5" "k \<notin> D" by (metis Diff_iff atLeastLessThan_iff card.empty ex_in_conv nat.distinct(1))
  have x: "x = card ({0..<5} - insert k D)" using Suc.hyps(2) k by (simp add: Diff_insert2 [symmetric])
  let ?s = "s\<lparr>spage := (spage s)\<lparr>net_buffer := store_field k (unat (slot_index t)) m (net_buffer (spage s))\<rparr>,
      cpus := (cpus s)(c := Storing m t (insert k D))\<rparr>"
  have step: "smp_step s ?s" by (rule smp_step.field [OF Suc.prems(1) k])
  note same = store_field_same [OF Suc.prems(3) _ k(1), of "unat t mod 24"]
  have "same_fields (insert k D) (net_pay (spage ?s) (unat t mod 24)) m" "length (net_buffer (spage ?s)) = 768"
    using same same_fields_put [OF k(1) Suc.prems(2,4)] by (simp_all add: slot_index_unat net_slot_capacity)
  then obtain s' where s': "smp_step\<^sup>*\<^sup>* ?s s'" "arrived s' = arrived ?s" "cpus s' = (cpus ?s)(c := Load_hint t)"
    "net_tick (spage s') (unat t mod 24) = t" "net_pay (spage s') (unat t mod 24) = m"
    using Suc.hyps(1) [OF x, of ?s] Suc.prems(2) k(1) by (auto simp del: fun_upd_apply simp add: fun_upd_same)
  then show ?case
    using converse_rtranclp_into_rtranclp [of smp_step, OF step s'(1)] by (intro exI [of _ s']) simp
qed

text \<open>CPU 1 draws ticket 1 and stands still while CPU 0 records tickets 2 to 25.\<close>

lemma lapped_run:
  obtains s where "smp_reach s" "cpus s = (\<lambda>c. Idle)(1 := Storing (plain_packet 9) 1 {})"
    "arrived s = [plain_packet 7, plain_packet 9] @ replicate 23 (plain_packet 7) @ [plain_packet 8]"
    "net_tick (spage s) 1 = 25" "net_pay (spage s) 1 = plain_packet 8"
    "length (net_buffer (spage s)) = 768"
proof -
  let ?a = "after_calls [plain_packet 7]"
  have t: "ticket_dispenser (net_ctl (spage ?a)) = 1"
    using after_calls_ring [of "[plain_packet 7]"] by (simp add: ring_holds_def)
  define b where "b = ?a\<lparr>spage := snd (claim_ticket (spage ?a)), cpus := (cpus ?a)(1 := Storing (plain_packet 9) 1 {}),
    arrived := arrived ?a @ [plain_packet 9], late := late_claim ?a 1\<rparr>"
  have "smp_step ?a b"
    unfolding b_def by (rule smp_step.claim) (simp_all add: claim_ticket_def t)
  then have b: "smp_reach b" "cpus b = (\<lambda>c. Idle)(1 := Storing (plain_packet 9) 1 {})"
    "arrived b = [plain_packet 7, plain_packet 9]"
    using smp_reach.step [OF after_calls_reach] by (auto simp: b_def fun_eq_iff)
  then have "cpus b 0 = Idle" by simp
  from whole_calls [OF this, of "replicate 23 (plain_packet 7)"] obtain c where
    c: "smp_step\<^sup>*\<^sup>* b c" "cpus c = cpus b" "arrived c = arrived b @ replicate 23 (plain_packet 7)" by blast
  then have c0: "cpus c 0 = Idle" using b(2) by simp
  have reach: "smp_reach c" by (rule smp_reach_run [OF c(1) b(1)])
  then have "tickets_inv c" by (rule tickets_inv_reach) (simp add: c(3) b(3))
  then have page: "page_ok (spage c)" "ticket_dispenser (net_ctl (spage c)) = 25"
    by (simp_all add: tickets_inv_def c(3) b(3))
  from whole_calls [OF c0, of "[plain_packet 8]"] obtain d where
    d: "smp_step\<^sup>*\<^sup>* c d" "cpus d = cpus c" "arrived d = arrived c @ [plain_packet 8]"
    "spage d = record_packet [] (plain_packet 8) (spage c)" by auto
  have "page_ok (spage d)" using net_ring.push_ok [OF page(1)] d(4) by simp
  then show thesis
    using that [of d] smp_reach_run [OF d(1) reach] b c(2,3) d page
      net_ring.push_tick [OF page(1), of 1 "plain_packet 8"] net_ring.push_pay [OF page(1), of 1 "plain_packet 8"]
    by simp
qed

text \<open>
  C27. A CPU that is lapped while it stores undoes a record that is complete. There is a reachable
  state after 26 packets in which the CPU of ticket 25 is done and slot 1 bears its stamp, yet
  the metric in it belongs to no packet; a reader that waits for ticket 25, one that is not behind
  at all, takes it for the packet. If the lapped CPU goes on, the slot becomes that of
  ticket 1 again and ticket 25 is lost.
\<close>

theorem lapped_hook_undoes:
  "\<exists>s s'. smp_reach s \<and> length (arrived s) = 26 \<and> (\<forall>c m k. cpus s c \<noteq> Storing m 25 k)
     \<and> net_slot_ticket (net_buffer (spage s)) 1 = 25
     \<and> net_slot_metric (net_buffer (spage s)) 1 \<notin> set (arrived s)
     \<and> smp_step\<^sup>*\<^sup>* s s' \<and> arrived s' = arrived s \<and> (\<forall>c m t k. cpus s' c \<noteq> Storing m t k)
     \<and> net_slot_ticket (net_buffer (spage s')) 1 = 1
     \<and> net_slot_metric (net_buffer (spage s')) 1 = arrived s ! 1"
proof -
  let ?m = "plain_packet 9"
  obtain a where a: "smp_reach a" "cpus a = (\<lambda>c. Idle)(1 := Storing ?m 1 {})"
    "arrived a = [plain_packet 7, ?m] @ replicate 23 (plain_packet 7) @ [plain_packet 8]"
    "net_tick (spage a) 1 = 25" "net_pay (spage a) 1 = plain_packet 8" "length (net_buffer (spage a)) = 768"
    by (rule lapped_run)
  define s where "s = a\<lparr>spage := (spage a)\<lparr>net_buffer := store_field 0 1 ?m (net_buffer (spage a))\<rparr>,
    cpus := (cpus a)(1 := Storing ?m 1 {0})\<rparr>"
  have "smp_step a s"
    using smp_step.field [of a 1 ?m 1 "{}" 0] a(2) by (simp add: s_def slot_index_unat net_slot_capacity)
  then have reach: "smp_reach s" by (rule smp_reach.step [OF a(1)])
  note same = store_field_same [OF a(6), of 1 0 ?m]
  have slot: "net_tick (spage s) 1 = 25" "net_pay (spage s) 1 = (plain_packet 8)\<lparr>src_ip := 9\<rparr>"
    "length (net_buffer (spage s)) = 768"
    using same a(4,5) by (simp_all add: s_def put_field.simps plain_packet_def)
  have "same_fields {0} (net_pay (spage s) 1) ?m"
    unfolding slot(2) by (simp add: same_fields_def fields_def plain_packet_def)
  then obtain s' where s': "smp_step\<^sup>*\<^sup>* s s'" "arrived s' = arrived s" "cpus s' = (cpus s)(1 := Load_hint 1)"
    "net_tick (spage s') 1 = 1" "net_pay (spage s') 1 = ?m"
    using finish_call [of s 1 ?m 1 "{0}"] slot(3) by (auto simp: s_def)
  have "arrived s = arrived a" "cpus s = (\<lambda>c. Idle)(1 := Storing ?m 1 {0})" by (simp_all add: s_def a(2))
  then show ?thesis
    using reach slot s' a(3) by (intro exI [of _ s] exI [of _ s']) (auto simp: plain_packet_def)
qed

end
