(* ===== verification/LiveSlots.thy ===== *)
theory LiveSlots
  imports TicketRing
begin

text \<open>
  The consumer threads against a ring that is being filled. \<open>user/net_filter_client.c\<close> and
  \<open>user/block_filter_client.cpp\<close> run the same two engines; here every access of theirs to
  the shared page is a step of its own, and between two steps anything may happen to the ring.
  The locale \<open>live_slots\<close> is what a ring promises to a reader that walks it at the same time;
  the lemmas say what the log of the thread is worth under that promise. The accesses to the
  words of one slot, or of one copy of the buffer, come in any order, as C leaves it open.
\<close>

section \<open>What the thread sees of the ring\<close>

text \<open>
  A slot is a row of words: those of its metric, and then its stamp. \<open>recorded_count\<close> and
  \<open>finished\<close> (the writer of a ticket has stamped its slot) are history of the ring that the
  thread does not act upon. \<open>prints_first\<close> says whether the thread prints a slot before it
  looks whether it is the right one.
\<close>

record 'r slots_view =
  slot_word :: "'r \<Rightarrow> nat \<Rightarrow> nat \<Rightarrow> u32"
  write_hint :: "'r \<Rightarrow> u32"
  read_index :: "'r \<Rightarrow> u32"
  store_read_index :: "u32 \<Rightarrow> 'r \<Rightarrow> 'r"
  recorded_count :: "'r \<Rightarrow> nat"
  finished :: "'r \<Rightarrow> nat \<Rightarrow> bool"
  slot_count :: nat
  metric_width :: nat
  prints_first :: bool

section \<open>The steps of the thread\<close>

datatype engine = Scatter_Gather | Skip_Ahead

text \<open>
  Where the thread is, with \<open>expected_ticket\<close>: between two batches; copying the buffer, with
  the words copied so far; walking its copy; at the head of the Skip-Ahead loop with
  \<open>highest_hint\<close>; past the load of \<open>found_ticket\<close>; printing the slot it accepted; in the
  search for the next anchor with \<open>scan_ticket\<close>; before the store of the read index. The
  predicate of a copy (the tickets that were finished when it began) and the number in
  \<open>Gather\<close> (the tickets handed out when it ended) are history.
\<close>

datatype walk_pc =
    Batch u32
  | Copy u32 "nat \<times> nat \<Rightarrow> u32 option" "nat \<Rightarrow> bool"
  | Gather u32 "nat \<times> nat \<Rightarrow> u32 option" "nat \<Rightarrow> bool" nat
  | Skip u32 u32
  | Found u32 u32 u32 "nat \<Rightarrow> u32 option"
  | Print u32 u32 "nat \<Rightarrow> u32 option"
  | Scan u32 u32 u32 "nat \<Rightarrow> u32 option"
  | Store u32

fun expected :: "walk_pc \<Rightarrow> u32" where
  "expected (Batch e) = e"
| "expected (Copy e local S) = e"
| "expected (Gather e local S c) = e"
| "expected (Skip e hint) = e"
| "expected (Found e hint f got) = e"
| "expected (Print e hint got) = e"
| "expected (Scan e hint sc got) = e"
| "expected (Store e) = e"

text \<open>
  The printed lines: those of a slot that is only looked at, and those of an accepted ticket.
  The history in an accepted line: how many tickets had been handed out when its words had been
  read, and whether its ticket was finished before the engine began to read them.
\<close>

datatype line = Raw "u32 list" | Accepted u32 "u32 list" nat bool

record 'r live =
  live_page :: 'r
  live_pc :: walk_pc
  live_log :: "line list"

definition line_of :: "'r slots_view \<Rightarrow> (nat \<Rightarrow> u32 option) \<Rightarrow> u32 list" where
  "line_of v got = map (\<lambda>k. the (got k)) [0..<Suc (metric_width v)]"

definition raw_lines :: "'r slots_view \<Rightarrow> (nat \<Rightarrow> u32 option) \<Rightarrow> line list" where
  "raw_lines v got = (if prints_first v then [Raw (line_of v got)] else [])"

text \<open>The words that are read before a slot is judged: all of them if it is printed first.\<close>

definition first_words :: "'r slots_view \<Rightarrow> nat set" where
  "first_words v = (if prints_first v then {..metric_width v} else {})"

text \<open>The tickets that are finished at this moment.\<close>

definition finished_now :: "'r slots_view \<Rightarrow> 'r \<Rightarrow> nat \<Rightarrow> bool" where
  "finished_now v r u \<longleftrightarrow> u < recorded_count v r \<and> finished v r u"

inductive walk_step :: "'r slots_view \<Rightarrow> engine \<Rightarrow> 'r live \<Rightarrow> 'r live \<Rightarrow> bool" for v mode where
  snapshot: "live_pc s = Batch e \<Longrightarrow> mode = Scatter_Gather \<Longrightarrow>
    walk_step v mode s (s\<lparr>live_pc := Copy e Map.empty (finished_now v (live_page s))\<rparr>)"
| copy: "live_pc s = Copy e local S \<Longrightarrow> i < slot_count v \<Longrightarrow> k \<le> metric_width v \<Longrightarrow>
    local (i, k) = None \<Longrightarrow>
    walk_step v mode s (s\<lparr>live_pc := Copy e (local((i, k) \<mapsto> slot_word v (live_page s) i k)) S\<rparr>)"
| copied: "live_pc s = Copy e local S \<Longrightarrow> dom local = {..<slot_count v} \<times> {..metric_width v} \<Longrightarrow>
    walk_step v mode s (s\<lparr>live_pc := Gather e local S (recorded_count v (live_page s))\<rparr>)"
| gather_hit: "live_pc s = Gather e local S c \<Longrightarrow> i = slot_of (slot_count v) e \<Longrightarrow>
    local (i, metric_width v) = Some e \<Longrightarrow>
    walk_step v mode s (s\<lparr>live_pc := Gather (e + 1) local S c,
      live_log := live_log s @ raw_lines v (\<lambda>k. local (i, k))
        @ [Accepted e (line_of v (\<lambda>k. local (i, k))) c (S (unat e))]\<rparr>)"
| gather_miss: "live_pc s = Gather e local S c \<Longrightarrow> i = slot_of (slot_count v) e \<Longrightarrow>
    local (i, metric_width v) \<noteq> Some e \<Longrightarrow>
    walk_step v mode s (s\<lparr>live_pc := Store e,
      live_log := live_log s @ raw_lines v (\<lambda>k. local (i, k))\<rparr>)"
| hint: "live_pc s = Batch e \<Longrightarrow> mode = Skip_Ahead \<Longrightarrow>
    walk_step v mode s (s\<lparr>live_pc := Skip e (write_hint v (live_page s))\<rparr>)"
| found: "live_pc s = Skip e hint \<Longrightarrow> within hint e \<Longrightarrow>
    walk_step v mode s (s\<lparr>live_pc := Found e hint
      (slot_word v (live_page s) (slot_of (slot_count v) e) (metric_width v)) Map.empty\<rparr>)"
| beyond: "live_pc s = Skip e hint \<Longrightarrow> \<not> within hint e \<Longrightarrow>
    walk_step v mode s (s\<lparr>live_pc := Store e\<rparr>)"
| peek: "live_pc s = Found e hint f got \<Longrightarrow> k \<in> first_words v \<Longrightarrow> got k = None \<Longrightarrow>
    walk_step v mode s (s\<lparr>live_pc := Found e hint f
      (got(k \<mapsto> slot_word v (live_page s) (slot_of (slot_count v) e) k))\<rparr>)"
| hit: "live_pc s = Found e hint f got \<Longrightarrow> dom got = first_words v \<Longrightarrow> f = e \<Longrightarrow>
    walk_step v mode s (s\<lparr>live_pc := Print e hint Map.empty, live_log := live_log s @ raw_lines v got\<rparr>)"
| miss: "live_pc s = Found e hint f got \<Longrightarrow> dom got = first_words v \<Longrightarrow> f \<noteq> e \<Longrightarrow>
    walk_step v mode s (s\<lparr>live_pc := Scan e hint (e + 1) Map.empty,
      live_log := live_log s @ raw_lines v got\<rparr>)"
| print: "live_pc s = Print e hint got \<Longrightarrow> k \<le> metric_width v \<Longrightarrow> got k = None \<Longrightarrow>
    walk_step v mode s (s\<lparr>live_pc := Print e hint
      (got(k \<mapsto> slot_word v (live_page s) (slot_of (slot_count v) e) k))\<rparr>)"
| printed: "live_pc s = Print e hint got \<Longrightarrow> dom got = {..metric_width v} \<Longrightarrow>
    walk_step v mode s (s\<lparr>live_pc := Skip (e + 1) hint,
      live_log := live_log s @ [Accepted e (line_of v got) (recorded_count v (live_page s)) True]\<rparr>)"
| scan_peek: "live_pc s = Scan e hint sc got \<Longrightarrow> within hint sc \<Longrightarrow> k \<in> first_words v \<Longrightarrow>
    got k = None \<Longrightarrow>
    walk_step v mode s (s\<lparr>live_pc := Scan e hint sc
      (got(k \<mapsto> slot_word v (live_page s) (slot_of (slot_count v) sc) k))\<rparr>)"
| healed: "live_pc s = Scan e hint sc got \<Longrightarrow> within hint sc \<Longrightarrow> dom got = first_words v \<Longrightarrow>
    slot_word v (live_page s) (slot_of (slot_count v) sc) (metric_width v) = sc \<Longrightarrow>
    walk_step v mode s (s\<lparr>live_pc := Skip sc hint, live_log := live_log s @ raw_lines v got\<rparr>)"
| scan_on: "live_pc s = Scan e hint sc got \<Longrightarrow> within hint sc \<Longrightarrow> dom got = first_words v \<Longrightarrow>
    slot_word v (live_page s) (slot_of (slot_count v) sc) (metric_width v) \<noteq> sc \<Longrightarrow>
    walk_step v mode s (s\<lparr>live_pc := Scan e hint (sc + 1) Map.empty,
      live_log := live_log s @ raw_lines v got\<rparr>)"
| edge: "live_pc s = Scan e hint sc got \<Longrightarrow> \<not> within hint sc \<Longrightarrow>
    walk_step v mode s (s\<lparr>live_pc := Store e\<rparr>)"
| store: "live_pc s = Store e \<Longrightarrow>
    walk_step v mode s (s\<lparr>live_page := store_read_index v e (live_page s), live_pc := Batch e\<rparr>)"

text \<open>
  The thread starts at any moment of the life of the ring, with the stored read index; from then
  on its steps and those of the ring interleave in any way.
\<close>

inductive live_reach ::
  "'r slots_view \<Rightarrow> engine \<Rightarrow> ('r \<Rightarrow> bool) \<Rightarrow> ('r \<Rightarrow> 'r \<Rightarrow> bool) \<Rightarrow> 'r live \<Rightarrow> bool"
  for v mode init step where
  start: "init r \<Longrightarrow>
    live_reach v mode init step \<lparr>live_page = r, live_pc = Batch (read_index v r), live_log = []\<rparr>"
| ring: "live_reach v mode init step s \<Longrightarrow> step (live_page s) r \<Longrightarrow>
    live_reach v mode init step (s\<lparr>live_page := r\<rparr>)"
| walk: "live_reach v mode init step s \<Longrightarrow> walk_step v mode s s' \<Longrightarrow>
    live_reach v mode init step s'"

text \<open>
  What the thread does depends on nothing of the ring but its view, and all it changes there is
  the read index.
\<close>

lemma walk_step_page:
  "walk_step v mode s s' \<Longrightarrow>
    live_page s' = live_page s \<or> (\<exists>e. live_page s' = store_read_index v e (live_page s))"
  by (erule walk_step.cases) auto

definition live_map :: "('r \<Rightarrow> 'r) \<Rightarrow> 'r live \<Rightarrow> 'r live" where
  "live_map f s = s\<lparr>live_page := f (live_page s)\<rparr>"

lemma live_map_simps [simp]:
  "live_page (live_map f s) = f (live_page s)" "live_pc (live_map f s) = live_pc s"
  "live_log (live_map f s) = live_log s"
  "(live_map f s)\<lparr>live_pc := p\<rparr> = live_map f (s\<lparr>live_pc := p\<rparr>)"
  "(live_map f s)\<lparr>live_log := l\<rparr> = live_map f (s\<lparr>live_log := l\<rparr>)"
  "(live_map f s)\<lparr>live_page := f r\<rparr> = live_map f (s\<lparr>live_page := r\<rparr>)"
  by (simp_all add: live_map_def)

lemma walk_step_map:
  assumes "\<And>r. slot_word v (f r) = slot_word v r" "\<And>r. write_hint v (f r) = write_hint v r"
    and "\<And>e r. store_read_index v e (f r) = f (store_read_index v e r)"
    and "\<And>r. recorded_count v (f r) = recorded_count v r" "\<And>r. finished v (f r) = finished v r"
    and "walk_step v mode s s'"
  shows "walk_step v mode (live_map f s) (live_map f s')"
proof -
  have "finished_now v (f r) = finished_now v r" for r
    by (simp add: finished_now_def fun_eq_iff assms(4,5))
  note view = assms(1-5) this
  note steps = walk_step.intros [where s = "live_map f s" and v = v and mode = mode for s, simplified view live_map_simps]
  show ?thesis using assms(6) by (cases rule: walk_step.cases) (auto intro: steps)
qed

section \<open>The steps of a dump\<close>

text \<open>
  A reader that prints every slot once, from the first to the last, whatever it holds, in the
  loop of \<open>telemetry_net_read\<close> of \<open>kernel/telemetry_net.c\<close>: the words of a slot are the
  arguments of one call and are read in any order. \<open>dump_begun\<close> (the tickets finished when the
  current slot was begun) and what the lines carry of it are history.
\<close>

record 'r dump =
  dump_page :: 'r
  dump_index :: nat
  dump_got :: "nat \<Rightarrow> u32 option"
  dump_begun :: "nat \<Rightarrow> bool"
  dump_lines :: "(u32 list \<times> (nat \<Rightarrow> bool) \<times> nat) list"

inductive dump_step :: "'r slots_view \<Rightarrow> 'r dump \<Rightarrow> 'r dump \<Rightarrow> bool" for v where
  load: "dump_index d < slot_count v \<Longrightarrow> k \<le> metric_width v \<Longrightarrow> dump_got d k = None \<Longrightarrow>
    dump_step v d (d\<lparr>dump_got := (dump_got d)(k \<mapsto> slot_word v (dump_page d) (dump_index d) k)\<rparr>)"
| emit: "dump_index d < slot_count v \<Longrightarrow> dom (dump_got d) = {..metric_width v} \<Longrightarrow>
    dump_step v d (d\<lparr>dump_index := dump_index d + 1, dump_got := Map.empty,
      dump_begun := finished_now v (dump_page d),
      dump_lines := dump_lines d @
        [(line_of v (dump_got d), dump_begun d, recorded_count v (dump_page d))]\<rparr>)"

definition dump_begin :: "'r slots_view \<Rightarrow> 'r \<Rightarrow> 'r dump" where
  "dump_begin v r = \<lparr>dump_page = r, dump_index = 0, dump_got = Map.empty,
     dump_begun = finished_now v r, dump_lines = []\<rparr>"

lemma dump_begin_simps [simp]:
  "dump_page (dump_begin v r) = r" "dump_index (dump_begin v r) = 0" "dump_got (dump_begin v r) = Map.empty"
  "dump_begun (dump_begin v r) = finished_now v r" "dump_lines (dump_begin v r) = []"
  by (simp_all add: dump_begin_def)

inductive dump_reach ::
  "'r slots_view \<Rightarrow> ('r \<Rightarrow> bool) \<Rightarrow> ('r \<Rightarrow> 'r \<Rightarrow> bool) \<Rightarrow> 'r dump \<Rightarrow> bool"
  for v init step where
  start: "init r \<Longrightarrow> dump_reach v init step (dump_begin v r)"
| ring: "dump_reach v init step d \<Longrightarrow> step (dump_page d) r \<Longrightarrow>
    dump_reach v init step (d\<lparr>dump_page := r\<rparr>)"
| dump: "dump_reach v init step d \<Longrightarrow> dump_step v d d' \<Longrightarrow> dump_reach v init step d'"

text \<open>A dump, too, depends on nothing of the ring but its view.\<close>

lemma dump_step_view:
  assumes "dump_step v d d'"
    and "slot_word v r = slot_word v (dump_page d)" "finished_now v r = finished_now v (dump_page d)"
    and "recorded_count v r = recorded_count v (dump_page d)"
  shows "dump_page d' = dump_page d" "dump_step v (d\<lparr>dump_page := r\<rparr>) (d'\<lparr>dump_page := r\<rparr>)"
proof -
  show "dump_page d' = dump_page d" using assms(1) by (cases rule: dump_step.cases) simp_all
  show "dump_step v (d\<lparr>dump_page := r\<rparr>) (d'\<lparr>dump_page := r\<rparr>)"
    using assms(1)
  proof (cases rule: dump_step.cases)
    case (load k)
    then show ?thesis
      using dump_step.load [of "d\<lparr>dump_page := r\<rparr>" v k] assms(2) by (cases d) simp
  next
    case emit
    then show ?thesis
      using dump_step.emit [of "d\<lparr>dump_page := r\<rparr>" v] assms(3,4) by (cases d) simp
  qed
qed

section \<open>The log\<close>

text \<open>The tickets of the accepted lines.\<close>

fun tickets :: "line list \<Rightarrow> u32 list" where
  "tickets [] = []"
| "tickets (Raw ws # ls) = tickets ls"
| "tickets (Accepted t ws c b # ls) = t # tickets ls"

lemma tickets_append [simp]: "tickets (ls @ ls') = tickets ls @ tickets ls'"
  by (induction ls rule: tickets.induct) simp_all

lemma tickets_raw [simp]: "tickets (raw_lines v got) = []"
  by (simp add: raw_lines_def)

lemma accepted_ticket: "Accepted t ws c b \<in> set ls \<Longrightarrow> t \<in> set (tickets ls)"
  by (induction ls rule: tickets.induct) auto

section \<open>Undisturbed runs\<close>

text \<open>The words of a slot; what a run does between two steps of the ring.\<close>

definition row :: "'r slots_view \<Rightarrow> 'r \<Rightarrow> u32 \<Rightarrow> u32 list" where
  "row v r e = map (slot_word v r (slot_of (slot_count v) e)) [0..<Suc (metric_width v)]"

definition full_row :: "'r slots_view \<Rightarrow> 'r \<Rightarrow> u32 \<Rightarrow> nat set \<Rightarrow> nat \<Rightarrow> u32 option" where
  "full_row v r e K k = (if k \<in> K then Some (slot_word v r (slot_of (slot_count v) e) k) else None)"

lemma full_row_empty [simp]: "full_row v r e {} = Map.empty"
  by (simp add: full_row_def fun_eq_iff)

lemma full_row_dom [simp]: "dom (full_row v r e K) = K"
  by (auto simp: full_row_def dom_def)

lemma full_row_insert:
  "(full_row v r e K)(k \<mapsto> slot_word v r (slot_of (slot_count v) e) k) = full_row v r e (insert k K)"
  by (auto simp: full_row_def fun_eq_iff)

lemma line_of_full_row: "line_of v (full_row v r e {..metric_width v}) = row v r e"
  by (simp add: line_of_def row_def full_row_def)

lemma pc_then_log: "s\<lparr>live_pc := p, live_log := l\<rparr> = s\<lparr>live_log := l, live_pc := p\<rparr>"
  by (cases s) simp

definition raw_row :: "'r slots_view \<Rightarrow> 'r \<Rightarrow> u32 \<Rightarrow> line list" where
  "raw_row v r e = (if prints_first v then [Raw (row v r e)] else [])"

lemma raw_lines_full_row: "raw_lines v (full_row v r e (first_words v)) = raw_row v r e"
  by (simp add: raw_lines_def raw_row_def first_words_def line_of_full_row)

lemma peek_words:
  assumes "finite K" "K \<subseteq> first_words v" "live_reach v mode init step (s\<lparr>live_pc := Found e hint f Map.empty\<rparr>)"
  shows "live_reach v mode init step (s\<lparr>live_pc := Found e hint f (full_row v (live_page s) e K)\<rparr>)"
  using assms(1,2)
proof (induction K rule: finite_induct)
  case empty
  then show ?case using assms(3) by simp
next
  case (insert k K)
  let ?s = "s\<lparr>live_pc := Found e hint f (full_row v (live_page s) e K)\<rparr>"
  have "live_reach v mode init step ?s" using insert by simp
  from live_reach.walk [OF this walk_step.peek [of ?s e hint f _ k]] insert.hyps(2) insert.prems
  show ?case by (simp add: full_row_insert full_row_def [of _ _ _ K k])
qed

lemma print_words:
  assumes "finite K" "K \<subseteq> {..metric_width v}"
    "live_reach v mode init step (s\<lparr>live_pc := Print e hint Map.empty\<rparr>)"
  shows "live_reach v mode init step (s\<lparr>live_pc := Print e hint (full_row v (live_page s) e K)\<rparr>)"
  using assms(1,2)
proof (induction K rule: finite_induct)
  case empty
  then show ?case using assms(3) by simp
next
  case (insert k K)
  let ?s = "s\<lparr>live_pc := Print e hint (full_row v (live_page s) e K)\<rparr>"
  have "live_reach v mode init step ?s" using insert by simp
  from live_reach.walk [OF this walk_step.print [of ?s e hint _ k]] insert.hyps(2) insert.prems
  show ?case by (simp add: full_row_insert full_row_def [of _ _ _ K k])
qed

text \<open>The Skip-Ahead engine accepts a slot that holds the expected ticket.\<close>

lemma skip_accepts:
  assumes "live_reach v mode init step s" "live_pc s = Skip e hint" "within hint e"
    and stamp: "slot_word v (live_page s) (slot_of (slot_count v) e) (metric_width v) = e"
  shows "live_reach v mode init step (s\<lparr>live_pc := Skip (e + 1) hint, live_log := live_log s @
    raw_row v (live_page s) e @ [Accepted e (row v (live_page s) e) (recorded_count v (live_page s)) True]\<rparr>)"
proof -
  let ?r = "live_page s"
  let ?f = "s\<lparr>live_pc := Found e hint e (full_row v ?r e (first_words v))\<rparr>"
  have "live_reach v mode init step (s\<lparr>live_pc := Found e hint e Map.empty\<rparr>)"
    using live_reach.walk [OF assms(1) walk_step.found [OF assms(2,3)]] stamp by simp
  then have f: "live_reach v mode init step ?f"
    by (rule peek_words [rotated 2]) (simp_all add: first_words_def)
  let ?t = "s\<lparr>live_log := live_log s @ raw_row v ?r e\<rparr>"
  have "live_reach v mode init step (?t\<lparr>live_pc := Print e hint Map.empty\<rparr>)"
    using live_reach.walk [OF f walk_step.hit [of ?f e hint e]]
    by (simp add: raw_lines_full_row pc_then_log)
  then have p: "live_reach v mode init step
      (?t\<lparr>live_pc := Print e hint (full_row v ?r e {..metric_width v})\<rparr>)"
    using print_words [where s = ?t and K = "{..metric_width v}" and v = v] by simp
  show ?thesis
    using live_reach.walk [OF p walk_step.printed [of _ e hint]]
    by (simp add: line_of_full_row pc_then_log)
qed

text \<open>A copy that nothing disturbs, and the walk over it.\<close>

definition part_copy :: "'r slots_view \<Rightarrow> 'r \<Rightarrow> (nat \<times> nat) set \<Rightarrow> nat \<times> nat \<Rightarrow> u32 option" where
  "part_copy v r D p = (if p \<in> D then Some (slot_word v r (fst p) (snd p)) else None)"

lemma part_copy_simps [simp]:
  "part_copy v r {} = Map.empty" "dom (part_copy v r D) = D"
  by (auto simp: part_copy_def dom_def fun_eq_iff)

lemma copy_all:
  assumes "finite D" "D \<subseteq> {..<slot_count v} \<times> {..metric_width v}"
    "live_reach v mode init step (s\<lparr>live_pc := Copy e Map.empty S\<rparr>)"
  shows "live_reach v mode init step (s\<lparr>live_pc := Copy e (part_copy v (live_page s) D) S\<rparr>)"
  using assms(1,2)
proof (induction D rule: finite_induct)
  case empty
  then show ?case using assms(3) by simp
next
  case (insert p D)
  let ?local = "part_copy v (live_page s) D"
  let ?s = "s\<lparr>live_pc := Copy e ?local S\<rparr>"
  obtain i k where p: "p = (i, k)" by (cases p)
  have new: "?local((i, k) \<mapsto> slot_word v (live_page s) i k) = part_copy v (live_page s) (insert p D)"
    by (auto simp: part_copy_def p fun_eq_iff)
  have "live_reach v mode init step ?s" using insert by simp
  from live_reach.walk [OF this walk_step.copy [of ?s e ?local S i v k]] insert.hyps(2) insert.prems p
  show ?case by (simp add: new part_copy_def [of _ _ D])
qed

lemma gathers:
  assumes "live_reach v mode init step s" "live_pc s = Gather e local S c"
    and copy: "local = part_copy v r ({..<slot_count v} \<times> {..metric_width v})"
    and i: "slot_of (slot_count v) e < slot_count v"
    and stamp: "slot_word v r (slot_of (slot_count v) e) (metric_width v) = e"
  shows "live_reach v mode init step (s\<lparr>live_pc := Gather (e + 1) local S c, live_log := live_log s @
    raw_row v r e @ [Accepted e (row v r e) c (S (unat e))]\<rparr>)"
proof -
  let ?i = "slot_of (slot_count v) e"
  have "line_of v (\<lambda>k. local (?i, k)) = row v r e"
    using i by (simp add: line_of_def row_def copy part_copy_def)
  then show ?thesis
    using live_reach.walk [OF assms(1) walk_step.gather_hit [OF assms(2) refl]] i stamp
    by (simp add: raw_lines_def raw_row_def copy part_copy_def del: upt_Suc split: if_splits)
qed

lemma snapshot_run:
  assumes "live_reach v Scatter_Gather init step s" "live_pc s = Batch e"
  shows "live_reach v Scatter_Gather init step (s\<lparr>live_pc := Gather e
    (part_copy v (live_page s) ({..<slot_count v} \<times> {..metric_width v})) (finished_now v (live_page s))
    (recorded_count v (live_page s))\<rparr>)"
proof -
  let ?D = "{..<slot_count v} \<times> {..metric_width v}"
  have "live_reach v Scatter_Gather init step
      (s\<lparr>live_pc := Copy e Map.empty (finished_now v (live_page s))\<rparr>)"
    by (rule live_reach.walk [OF assms(1) walk_step.snapshot [OF assms(2) refl]])
  from copy_all [OF _ _ this, of ?D]
  have c: "live_reach v Scatter_Gather init step
      (s\<lparr>live_pc := Copy e (part_copy v (live_page s) ?D) (finished_now v (live_page s))\<rparr>)" by simp
  show ?thesis
    using live_reach.walk [OF c walk_step.copied [of _ e "part_copy v (live_page s) ?D"]] by simp
qed

text \<open>A dump of one slot.\<close>

lemma dump_words:
  assumes "finite K" "K \<subseteq> {..metric_width v}" "dump_index d < slot_count v"
    "dump_reach v init step (d\<lparr>dump_got := Map.empty\<rparr>)"
  shows "dump_reach v init step (d\<lparr>dump_got :=
    (\<lambda>k. if k \<in> K then Some (slot_word v (dump_page d) (dump_index d) k) else None)\<rparr>)"
  using assms(1,2)
proof (induction K rule: finite_induct)
  case empty
  then show ?case using assms(4) by simp
next
  case (insert k K)
  let ?got = "\<lambda>K k. if k \<in> K then Some (slot_word v (dump_page d) (dump_index d) k) else None"
  let ?d = "d\<lparr>dump_got := ?got K\<rparr>"
  have new: "(?got K)(k \<mapsto> slot_word v (dump_page d) (dump_index d) k) = ?got (insert k K)"
    by (auto simp: fun_eq_iff)
  have "dump_reach v init step ?d" using insert by simp
  from dump_reach.dump [OF this dump_step.load [of ?d v k]] assms(3) insert.hyps(2) insert.prems
  show ?case by (simp add: new)
qed

lemma dump_slot:
  assumes "dump_reach v init step d" "dump_index d < slot_count v" "dump_got d = Map.empty"
  shows "dump_reach v init step (d\<lparr>dump_index := dump_index d + 1, dump_begun := finished_now v (dump_page d),
    dump_lines := dump_lines d @ [(map (slot_word v (dump_page d) (dump_index d)) [0..<Suc (metric_width v)],
      dump_begun d, recorded_count v (dump_page d))]\<rparr>)"
proof -
  let ?got = "\<lambda>k. if k \<in> {..metric_width v} then Some (slot_word v (dump_page d) (dump_index d) k) else None"
  have "d\<lparr>dump_got := Map.empty\<rparr> = d" using assms(3) by (cases d) simp
  then have d: "dump_reach v init step (d\<lparr>dump_got := ?got\<rparr>)"
    using dump_words [of "{..metric_width v}" v d init step] assms(1,2) by simp
  have "dom ?got = {..metric_width v}" by (auto simp: dom_def)
  moreover have "line_of v ?got = map (slot_word v (dump_page d) (dump_index d)) [0..<Suc (metric_width v)]"
    by (simp add: line_of_def)
  ultimately show ?thesis
    using dump_reach.dump [OF d dump_step.emit [of "d\<lparr>dump_got := ?got\<rparr>" v]] assms(2,3)
    by (cases d) simp
qed

section \<open>The promise of the ring and the worth of the log\<close>

locale live_slots =
  fixes v :: "'r slots_view"
    and init :: "'r \<Rightarrow> bool"
    and step :: "'r \<Rightarrow> 'r \<Rightarrow> bool"
    and good :: "'r \<Rightarrow> bool"
    and history :: "'r \<Rightarrow> 'm list"
    and words :: "'m \<Rightarrow> u32 list"
    and undisturbed :: "'r \<Rightarrow> nat \<Rightarrow> bool"
  assumes init_good: "init r \<Longrightarrow> good r \<and> unat (read_index v r) \<le> length (history r)"
    and step_good: "good r \<Longrightarrow> step r r' \<Longrightarrow> good r' \<and> (\<exists>ms. history r' = history r @ ms)"
    and step_finished: "good r \<Longrightarrow> step r r' \<Longrightarrow> u < length (history r) \<Longrightarrow> finished v r u \<Longrightarrow> finished v r' u"
    and step_undisturbed: "good r \<Longrightarrow> step r r' \<Longrightarrow> u < length (history r) \<Longrightarrow>
      undisturbed r' u = undisturbed r u"
    and store_good: "good r \<Longrightarrow> good (store_read_index v e r)"
    and store_neutral: "slot_word v (store_read_index v e r) = slot_word v r"
      "history (store_read_index v e r) = history r" "finished v (store_read_index v e r) = finished v r"
      "undisturbed (store_read_index v e r) = undisturbed r"
    and count: "recorded_count v r = length (history r)"
    and width: "length (words m) = metric_width v"
    and bound: "good r \<Longrightarrow> length (history r) + 1 < 2 ^ 31"
    and hint_le: "good r \<Longrightarrow> unat (write_hint v r) \<le> length (history r)"
    and stamp: "good r \<Longrightarrow> e \<noteq> 0 \<Longrightarrow> slot_word v r (slot_of (slot_count v) e) (metric_width v) = e \<Longrightarrow>
      unat e < length (history r) \<and> finished v r (unat e)"
    and slot_content: "good r \<Longrightarrow> finished v r u \<Longrightarrow> undisturbed r u \<Longrightarrow> u < length (history r) \<Longrightarrow>
      length (history r) \<le> u + slot_count v \<Longrightarrow> k \<le> metric_width v \<Longrightarrow>
      slot_word v r (u mod slot_count v) k = (words (history r ! u) @ [of_nat u]) ! k"
begin

text \<open>The line of a ticket: the words that were recorded for it, and the ticket.\<close>

definition content :: "'r \<Rightarrow> nat \<Rightarrow> u32 list" where
  "content r u = words (history r ! u) @ [of_nat u]"

definition claimed :: "'r \<Rightarrow> u32 \<Rightarrow> bool" where
  "claimed r e \<longleftrightarrow> (e \<noteq> 0 \<longrightarrow> unat e < length (history r) \<and> finished v r (unat e))"

definition loads_ok :: "'r \<Rightarrow> u32 \<Rightarrow> (nat \<Rightarrow> u32 option) \<Rightarrow> bool" where
  "loads_ok r e got \<longleftrightarrow> (e \<noteq> 0 \<longrightarrow> undisturbed r (unat e) \<longrightarrow>
     length (history r) \<le> unat e + slot_count v \<longrightarrow> (\<forall>k x. got k = Some x \<longrightarrow> x = content r (unat e) ! k))"

definition copy_ok :: "'r \<Rightarrow> (nat \<times> nat \<Rightarrow> u32 option) \<Rightarrow> (nat \<Rightarrow> bool) \<Rightarrow> nat \<Rightarrow> bool" where
  "copy_ok r local S c \<longleftrightarrow>
     (\<forall>u k x. S u \<longrightarrow> undisturbed r u \<longrightarrow> c \<le> u + slot_count v \<longrightarrow> local (u mod slot_count v, k) = Some x \<longrightarrow> x = content r u ! k)
     \<and> (\<forall>e. e \<noteq> 0 \<longrightarrow> local (slot_of (slot_count v) e, metric_width v) = Some e \<longrightarrow> unat e < c)"

definition before :: "'r \<Rightarrow> (nat \<Rightarrow> bool) \<Rightarrow> bool" where
  "before r S \<longleftrightarrow> (\<forall>u. S u \<longrightarrow> u < length (history r) \<and> finished v r u)"

fun pc_ok :: "'r \<Rightarrow> walk_pc \<Rightarrow> bool" where
  "pc_ok r (Batch e) = True"
| "pc_ok r (Copy e local S) = (before r S \<and> copy_ok r local S (length (history r)))"
| "pc_ok r (Gather e local S c) = (before r S \<and> copy_ok r local S c \<and> c \<le> length (history r)
     \<and> dom local = {..<slot_count v} \<times> {..metric_width v})"
| "pc_ok r (Skip e hint) = (unat hint \<le> length (history r))"
| "pc_ok r (Found e hint f got) = (unat hint \<le> length (history r) \<and> unat e \<le> unat hint
     \<and> (f = e \<longrightarrow> claimed r e))"
| "pc_ok r (Print e hint got) = (unat hint \<le> length (history r) \<and> claimed r e \<and> loads_ok r e got)"
| "pc_ok r (Scan e hint sc got) = (unat hint \<le> length (history r) \<and> unat e < unat sc
     \<and> unat sc \<le> unat hint + 1)"
| "pc_ok r (Store e) = True"

fun line_ok :: "'r \<Rightarrow> line \<Rightarrow> bool" where
  "line_ok r (Raw ws) = True"
| "line_ok r (Accepted t ws c b) = (c \<le> length (history r) \<and> (t \<noteq> 0 \<longrightarrow> unat t < c
     \<and> (b \<and> undisturbed r (unat t) \<and> c \<le> unat t + slot_count v \<longrightarrow> ws = content r (unat t))))"

definition log_ok :: "engine \<Rightarrow> 'r \<Rightarrow> nat \<Rightarrow> line list \<Rightarrow> bool" where
  "log_ok mode r e ls \<longleftrightarrow> sorted_wrt (<) (map unat (tickets ls))
     \<and> (\<forall>t \<in> set (tickets ls). unat t < e) \<and> (\<forall>l \<in> set ls. line_ok r l)
     \<and> (mode = Scatter_Gather \<longrightarrow> (\<exists>a \<le> e. map unat (tickets ls) = [a..<e]))
     \<and> (mode = Skip_Ahead \<longrightarrow> (\<forall>t ws c b. Accepted t ws c b \<in> set ls \<longrightarrow> b))"

text \<open>Each engine has its own part of the loop.\<close>

fun runs :: "engine \<Rightarrow> walk_pc \<Rightarrow> bool" where
  "runs mode (Batch e) = True"
| "runs mode (Store e) = True"
| "runs mode (Copy e local S) = (mode = Scatter_Gather)"
| "runs mode (Gather e local S c) = (mode = Scatter_Gather)"
| "runs mode p = (mode = Skip_Ahead)"

definition live_inv :: "engine \<Rightarrow> 'r live \<Rightarrow> bool" where
  "live_inv mode s \<longleftrightarrow> good (live_page s)
     \<and> unat (expected (live_pc s)) \<le> length (history (live_page s)) + 1
     \<and> pc_ok (live_page s) (live_pc s) \<and> runs mode (live_pc s)
     \<and> log_ok mode (live_page s) (unat (expected (live_pc s))) (live_log s)"

text \<open>What the steps of the ring keep.\<close>

lemma content_grows:
  "good r \<Longrightarrow> step r r' \<Longrightarrow> u < length (history r) \<Longrightarrow> content r' u = content r u"
  using step_good [of r r'] by (auto simp: content_def nth_append)

lemma history_grows: "good r \<Longrightarrow> step r r' \<Longrightarrow> length (history r) \<le> length (history r')"
  using step_good [of r r'] by auto

lemma claimed_step: "good r \<Longrightarrow> step r r' \<Longrightarrow> claimed r e \<Longrightarrow> claimed r' e"
  using history_grows [of r r'] step_finished [of r r' "unat e"] by (auto simp: claimed_def)

lemma before_step: "good r \<Longrightarrow> step r r' \<Longrightarrow> before r S \<Longrightarrow> before r' S"
  using history_grows [of r r'] step_finished [of r r'] by (fastforce simp: before_def)

lemma loads_ok_step:
  "good r \<Longrightarrow> step r r' \<Longrightarrow> claimed r e \<Longrightarrow> loads_ok r e got \<Longrightarrow> loads_ok r' e got"
  using history_grows [of r r'] content_grows [of r r' "unat e"] step_undisturbed [of r r' "unat e"]
  by (auto simp: loads_ok_def claimed_def)

lemma copy_ok_step:
  assumes "good r" "step r r'" "before r S" "copy_ok r local S c" "c \<le> d"
  shows "copy_ok r' local S d"
  unfolding copy_ok_def
proof (intro conjI allI impI)
  fix u k x
  assume u: "S u" "undisturbed r' u" "d \<le> u + slot_count v" "local (u mod slot_count v, k) = Some x"
  moreover have "undisturbed r u"
    using step_undisturbed [OF assms(1,2)] assms(3) u(1,2) by (simp add: before_def)
  ultimately have "x = content r u ! k" using assms(4,5) unfolding copy_ok_def by (meson order_trans)
  then show "x = content r' u ! k"
    using content_grows [OF assms(1,2)] assms(3) u(1) by (simp add: before_def)
next
  fix e assume "e \<noteq> 0" "local (slot_of (slot_count v) e, metric_width v) = Some e"
  then have "unat e < c" using assms(4) unfolding copy_ok_def by blast
  then show "unat e < d" using assms(5) by simp
qed

lemma pc_ok_step:
  assumes "good r" "step r r'" "pc_ok r p"
  shows "pc_ok r' p"
proof (cases p)
  case (Copy e local S)
  then show ?thesis
    using assms(3) before_step [OF assms(1,2)] history_grows [OF assms(1,2)]
      copy_ok_step [OF assms(1,2), of S local "length (history r)" "length (history r')"] by simp
next
  case (Gather e local S c)
  then show ?thesis
    using assms(3) before_step [OF assms(1,2)] history_grows [OF assms(1,2)]
      copy_ok_step [OF assms(1,2), of S local c c] by simp
next
  case (Found e h f got)
  then show ?thesis
    using assms(3) history_grows [OF assms(1,2)] claimed_step [OF assms(1,2)] by auto
next
  case (Print e h got)
  then show ?thesis
    using assms(3) history_grows [OF assms(1,2)] claimed_step [OF assms(1,2)]
      loads_ok_step [OF assms(1,2)] by auto
qed (use assms(3) history_grows [OF assms(1,2)] in auto)

lemma line_ok_step: "good r \<Longrightarrow> step r r' \<Longrightarrow> line_ok r l \<Longrightarrow> line_ok r' l"
  using history_grows [of r r'] content_grows [of r r'] step_undisturbed [of r r'] by (cases l) auto

lemma log_ok_step:
  "good r \<Longrightarrow> step r r' \<Longrightarrow> log_ok mode r e ls \<Longrightarrow> log_ok mode r' e ls"
  using line_ok_step [of r r'] unfolding log_ok_def by blast

lemma live_inv_ring:
  assumes "live_inv mode s" "step (live_page s) r"
  shows "live_inv mode (s\<lparr>live_page := r\<rparr>)"
proof -
  have good: "good (live_page s)" using assms(1) by (simp add: live_inv_def)
  note keep = step_good [OF good assms(2)] history_grows [OF good assms(2)]
    pc_ok_step [OF good assms(2)] log_ok_step [OF good assms(2)]
  show ?thesis using assms(1) keep unfolding live_inv_def by simp
qed

text \<open>Adding a line to the log.\<close>

lemma log_ok_raw: "log_ok mode r e ls \<Longrightarrow> log_ok mode r e (ls @ raw_lines v got)"
  by (auto simp: log_ok_def raw_lines_def)

lemma log_ok_accept:
  assumes "log_ok mode r (unat e) ls" "line_ok r (Accepted e ws c b)" "unat e + 1 < 2 ^ 32"
    and "mode = Skip_Ahead \<Longrightarrow> b"
  shows "log_ok mode r (unat (e + 1)) (ls @ [Accepted e ws c b])"
proof -
  have e: "unat (e + 1) = unat e + 1" by (rule unat_succ_small) (use assms(3) in simp)
  have "\<forall>t \<in> set (tickets ls). unat t < unat (e + 1)"
    using assms(1) e unfolding log_ok_def by fastforce
  moreover have "\<exists>a \<le> unat (e + 1). map unat (tickets (ls @ [Accepted e ws c b])) = [a..<unat (e + 1)]"
    if sg: "mode = Scatter_Gather"
  proof -
    obtain a where "a \<le> unat e" "map unat (tickets ls) = [a..<unat e]"
      using assms(1) sg unfolding log_ok_def by blast
    then show ?thesis unfolding e by (intro exI [of _ a]) simp
  qed
  ultimately show ?thesis
    using assms(1,2,4) e unfolding log_ok_def by (auto simp: sorted_wrt_append)
qed

lemma log_ok_later:
  "log_ok Skip_Ahead r e ls \<Longrightarrow> e \<le> e' \<Longrightarrow> log_ok Skip_Ahead r e' ls"
  unfolding log_ok_def by fastforce

lemma within_small:
  assumes "unat hint < 2 ^ 31" "unat e < 2 ^ 31"
  shows "within hint e \<longleftrightarrow> unat e \<le> unat hint"
  using within_of_nat [OF assms] by simp

text \<open>Loading a word of the slot of an accepted ticket, and of a copy.\<close>

lemma loads_ok_load:
  assumes "good r" "claimed r e" "loads_ok r e got" "k \<le> metric_width v"
  shows "loads_ok r e (got(k \<mapsto> slot_word v r (slot_of (slot_count v) e) k))"
  using assms slot_content [OF assms(1), of "unat e" k]
  by (auto simp: loads_ok_def claimed_def content_def slot_of_def)

lemma copy_ok_load:
  assumes "good r" "before r S" "copy_ok r local S (length (history r))" "i < slot_count v"
    "k \<le> metric_width v"
  shows "copy_ok r (local((i, k) \<mapsto> slot_word v r i k)) S (length (history r))"
proof -
  have "slot_word v r i k = content r u ! k"
    if "S u" "undisturbed r u" "length (history r) \<le> u + slot_count v" "i = u mod slot_count v" for u
    using slot_content [OF assms(1), of u k] that assms(2,5) by (simp add: before_def content_def)
  moreover have "unat e < length (history r)"
    if "e \<noteq> 0" "i = slot_of (slot_count v) e" "k = metric_width v" "slot_word v r i k = e" for e
    using stamp [OF assms(1), of e] that by simp
  ultimately show ?thesis using assms(3) unfolding copy_ok_def by auto
qed

lemma full_line:
  assumes "loads_ok r e got" "dom got = {..metric_width v}" "e \<noteq> 0" "undisturbed r (unat e)"
    "length (history r) \<le> unat e + slot_count v"
  shows "line_of v got = content r (unat e)"
proof (rule nth_equalityI)
  show "length (line_of v got) = length (content r (unat e))"
    by (simp add: line_of_def content_def width)
  fix k assume "k < length (line_of v got)"
  then have k: "k \<le> metric_width v" by (simp add: line_of_def)
  then obtain x where x: "got k = Some x" using assms(2) by blast
  then have "x = content r (unat e) ! k" using assms(1,3-5) by (simp add: loads_ok_def)
  then show "line_of v got ! k = content r (unat e) ! k"
    using x k by (simp add: line_of_def del: upt_Suc)
qed

lemma copied_line:
  assumes "copy_ok r local S c" "dom local = {..<slot_count v} \<times> {..metric_width v}" "S (unat e)"
    "undisturbed r (unat e)" "c \<le> unat e + slot_count v" "local (slot_of (slot_count v) e, metric_width v) = Some e"
  shows "line_of v (\<lambda>k. local (slot_of (slot_count v) e, k)) = content r (unat e)"
proof (rule nth_equalityI)
  let ?i = "slot_of (slot_count v) e"
  show "length (line_of v (\<lambda>k. local (?i, k))) = length (content r (unat e))"
    by (simp add: line_of_def content_def width)
  have i: "?i < slot_count v" using assms(2,6) by blast
  fix k assume "k < length (line_of v (\<lambda>k. local (?i, k)))"
  then have k: "k \<le> metric_width v" by (simp add: line_of_def)
  then have "(?i, k) \<in> dom local" using assms(2) i by simp
  then obtain x where x: "local (?i, k) = Some x" by blast
  then have "x = content r (unat e) ! k"
    using assms(1,3-5) unfolding copy_ok_def slot_of_def by blast
  then show "line_of v (\<lambda>k. local (?i, k)) ! k = content r (unat e) ! k"
    using x k by (simp add: line_of_def del: upt_Suc)
qed

lemma live_inv_walk:
  assumes "walk_step v mode s s'" "live_inv mode s"
  shows "live_inv mode s'"
proof -
  let ?r = "live_page s" and ?e = "expected (live_pc s)"
  let ?L = "length (history ?r)"
  have good: "good ?r" and near: "unat ?e \<le> ?L + 1" and pc: "pc_ok ?r (live_pc s)"
    and sg: "runs mode (live_pc s)"
    and log: "log_ok mode ?r (unat ?e) (live_log s)"
    using assms(2) by (auto simp: live_inv_def)
  have small: "?L + 1 < 2 ^ 31" by (rule bound [OF good])
  have succ: "unat (?e + 1) = unat ?e + 1" by (rule unat_succ_small) (use near small in simp)
  show ?thesis
    using assms(1)
  proof (cases rule: walk_step.cases)
    case (snapshot e)
    then show ?thesis using good near log by (simp add: live_inv_def before_def copy_ok_def finished_now_def count)
  next
    case (copy e local S i k)
    then show ?thesis
      using good near log pc sg copy_ok_load [OF good, of S local i k] by (simp add: live_inv_def)
  next
    case (copied e local S)
    then show ?thesis using good near log pc sg by (simp add: live_inv_def count)
  next
    case (gather_hit e local S c i)
    let ?line = "Accepted e (line_of v (\<lambda>k. local (i, k))) c (S (unat e))"
    have ok: "copy_ok ?r local S c" "c \<le> ?L" "dom local = {..<slot_count v} \<times> {..metric_width v}"
      using pc gather_hit(2) by auto
    have "e \<noteq> 0 \<Longrightarrow> unat e < c" using ok(1) gather_hit(3,4) unfolding copy_ok_def by blast
    then have "line_ok ?r ?line"
      using ok copied_line [OF ok(1,3), of e] gather_hit(3,4) by simp
    then have "log_ok mode ?r (unat (e + 1))
        ((live_log s @ raw_lines v (\<lambda>k. local (i, k))) @ [?line])"
      using log_ok_accept [OF log_ok_raw, of mode ?r e] log near small gather_hit(2) sg by simp
    moreover have "unat (e + 1) \<le> ?L + 1"
      using succ near \<open>e \<noteq> 0 \<Longrightarrow> unat e < c\<close> ok(2) gather_hit(2) by (cases "e = 0") auto
    ultimately show ?thesis using good pc sg gather_hit(1,2) by (simp add: live_inv_def)
  next
    case (gather_miss e local S c i)
    then show ?thesis using good near log_ok_raw [OF log] by (simp add: live_inv_def)
  next
    case (hint e)
    then show ?thesis using good near log hint_le [OF good] by (simp add: live_inv_def)
  next
    case (found e hint)
    have "unat e \<le> unat hint"
      using within_small [of hint e] found(2,3) pc near small by simp
    then show ?thesis
      using found good near log pc sg stamp [OF good, of e] by (simp add: live_inv_def claimed_def)
  next
    case (beyond e hint)
    then show ?thesis using good near log by (simp add: live_inv_def)
  next
    case (peek e hint f k got)
    then show ?thesis using good near log pc sg by (simp add: live_inv_def)
  next
    case (hit e hint f got)
    then show ?thesis
      using good near pc sg log_ok_raw [OF log] by (simp add: live_inv_def loads_ok_def)
  next
    case (miss e hint f got)
    then show ?thesis
      using good near pc sg log_ok_raw [OF log] succ by (simp add: live_inv_def)
  next
    case (print e hint got k)
    then show ?thesis
      using good near log pc sg loads_ok_load [OF good, of e got k] by (simp add: live_inv_def)
  next
    case (printed e hint got)
    let ?line = "Accepted e (line_of v got) (recorded_count v ?r) True"
    have ok: "claimed ?r e" "loads_ok ?r e got" using pc printed(2) by auto
    then have "line_ok ?r ?line"
      using full_line [OF ok(2) printed(3)] by (auto simp: claimed_def count)
    then have "log_ok mode ?r (unat (e + 1)) (live_log s @ [?line])"
      using log_ok_accept [of mode ?r e] log near small printed(2) by simp
    moreover have "unat (e + 1) \<le> ?L + 1"
      using succ ok(1) printed(2) by (cases "e = 0") (auto simp: claimed_def)
    ultimately show ?thesis using good pc sg printed(1,2) by (simp add: live_inv_def)
  next
    case (scan_peek e hint sc k got)
    then show ?thesis using good near log pc sg by (simp add: live_inv_def)
  next
    case (healed e hint sc got)
    then have mode: "mode = Skip_Ahead" using sg by simp
    have "unat sc \<le> unat hint + 1" "unat e < unat sc" using pc healed(2) by auto
    then have "log_ok mode ?r (unat sc) (live_log s @ raw_lines v got)"
      using log_ok_later [of ?r "unat e" "live_log s @ raw_lines v got" "unat sc"]
        log_ok_raw [OF log, of got] healed(2) by (simp add: mode)
    then show ?thesis
      using good pc healed(1,2) mode by (simp add: live_inv_def)
  next
    case (scan_on e hint sc got)
    have "unat sc \<le> unat hint"
      using within_small [of hint sc] scan_on(2,3) pc small by simp
    moreover have "unat (sc + 1) = unat sc + 1"
      by (rule unat_succ_small) (use scan_on(2) pc small in simp)
    ultimately show ?thesis
      using scan_on good near pc sg log_ok_raw [OF log] by (simp add: live_inv_def)
  next
    case (edge e hint sc got)
    then show ?thesis using good near log by (simp add: live_inv_def)
  next
    case (store e)
    have lines: "line_ok (store_read_index v e ?r) l = line_ok ?r l" for l
      by (cases l) (simp_all add: store_neutral content_def)
    have e: "?e = e" using store(2) by simp
    have "log_ok mode (store_read_index v e ?r) (unat e) (live_log s)"
      using log unfolding log_ok_def lines e .
    then show ?thesis
      using store good near store_good by (simp add: live_inv_def store_neutral)
  qed
qed

lemma live_reach_inv: "live_reach v mode init step s \<Longrightarrow> live_inv mode s"
proof (induction rule: live_reach.induct)
  case (start r)
  have "log_ok mode r (unat (read_index v r)) []"
    unfolding log_ok_def by (auto intro: exI [of _ "unat (read_index v r)"])
  then show ?case using init_good [OF start] by (simp add: live_inv_def)
next
  case (ring s r)
  then show ?case using live_inv_ring by simp
next
  case (walk s s')
  then show ?case using live_inv_walk by simp
qed

text \<open>
  What the log is worth: accepted tickets go up, each but 0 was handed out, and its line is the
  recorded one unless the ring went round it while it was read (or, in a copy, it was not
  finished when the copy began).
\<close>

lemma live_log:
  assumes "live_reach v mode init step s"
  shows "sorted_wrt (<) (map unat (tickets (live_log s)))"
    and "Accepted t ws c b \<in> set (live_log s) \<Longrightarrow> t \<noteq> 0 \<Longrightarrow>
      unat t < c \<and> c \<le> length (history (live_page s))
      \<and> (b \<and> undisturbed (live_page s) (unat t) \<and> c \<le> unat t + slot_count v \<longrightarrow>
           ws = content (live_page s) (unat t))"
proof -
  have "log_ok mode (live_page s) (unat (expected (live_pc s))) (live_log s)"
    using live_reach_inv [OF assms] by (simp add: live_inv_def)
  then show "sorted_wrt (<) (map unat (tickets (live_log s)))"
    and "Accepted t ws c b \<in> set (live_log s) \<Longrightarrow> t \<noteq> 0 \<Longrightarrow>
      unat t < c \<and> c \<le> length (history (live_page s))
      \<and> (b \<and> undisturbed (live_page s) (unat t) \<and> c \<le> unat t + slot_count v \<longrightarrow>
           ws = content (live_page s) (unat t))"
    unfolding log_ok_def by fastforce+
qed

lemma live_log_whole:
  assumes "live_reach v Skip_Ahead init step s" "Accepted t ws c b \<in> set (live_log s)"
  shows "b"
  using live_reach_inv [OF assms(1)] assms(2) unfolding live_inv_def log_ok_def by blast

lemma live_log_consecutive:
  assumes "live_reach v Scatter_Gather init step s"
  shows "\<exists>a. map unat (tickets (live_log s)) = [a..<unat (expected (live_pc s))]"
  using live_reach_inv [OF assms] unfolding live_inv_def log_ok_def by blast

text \<open>A dump: the words read so far of a slot, and the lines that are done.\<close>

definition part_ok :: "'r \<Rightarrow> nat \<Rightarrow> (nat \<Rightarrow> bool) \<Rightarrow> (nat \<Rightarrow> u32 option) \<Rightarrow> nat \<Rightarrow> bool" where
  "part_ok r i S got c \<longleftrightarrow> (\<forall>u k x. S u \<longrightarrow> undisturbed r u \<longrightarrow> u mod slot_count v = i \<longrightarrow>
     c \<le> u + slot_count v \<longrightarrow> got k = Some x \<longrightarrow> x = content r u ! k)"

definition lines_ok :: "'r \<Rightarrow> (u32 list \<times> (nat \<Rightarrow> bool) \<times> nat) list \<Rightarrow> bool" where
  "lines_ok r ls \<longleftrightarrow> (\<forall>j < length ls. case ls ! j of (ws, S, c) \<Rightarrow>
     before r S \<and> c \<le> length (history r)
     \<and> (\<forall>u. S u \<longrightarrow> undisturbed r u \<longrightarrow> u mod slot_count v = j \<longrightarrow> c \<le> u + slot_count v \<longrightarrow>
          ws = content r u))"

definition dump_inv :: "'r dump \<Rightarrow> bool" where
  "dump_inv d \<longleftrightarrow> good (dump_page d) \<and> before (dump_page d) (dump_begun d)
     \<and> part_ok (dump_page d) (dump_index d) (dump_begun d) (dump_got d) (length (history (dump_page d)))
     \<and> length (dump_lines d) = dump_index d \<and> lines_ok (dump_page d) (dump_lines d)"

lemma before_now: "before r (finished_now v r)"
  by (simp add: before_def finished_now_def count)

lemma part_ok_empty: "part_ok r i S Map.empty c"
  by (simp add: part_ok_def)

lemma part_ok_step:
  assumes "good r" "step r r'" "before r S" "part_ok r i S got c" "c \<le> d"
  shows "part_ok r' i S got d"
  unfolding part_ok_def
proof (intro allI impI)
  fix u k x
  assume u: "S u" "undisturbed r' u" "u mod slot_count v = i" "d \<le> u + slot_count v" "got k = Some x"
  then have "c \<le> u + slot_count v" "undisturbed r u"
    using assms(5) step_undisturbed [OF assms(1,2)] assms(3) by (simp_all add: before_def)
  then have "x = content r u ! k" using assms(4) u unfolding part_ok_def by blast
  then show "x = content r' u ! k"
    using content_grows [OF assms(1,2)] assms(3) u(1) by (simp add: before_def)
qed

lemma part_ok_load:
  assumes "good r" "before r S" "part_ok r i S got (length (history r))" "k \<le> metric_width v"
  shows "part_ok r i S (got(k \<mapsto> slot_word v r i k)) (length (history r))"
  using assms slot_content [OF assms(1), of _ k] by (auto simp: part_ok_def before_def content_def)

lemma part_line:
  assumes "part_ok r i S got c" "dom got = {..metric_width v}" "S u" "undisturbed r u" "u mod slot_count v = i"
    "c \<le> u + slot_count v"
  shows "line_of v got = content r u"
proof (rule nth_equalityI)
  show "length (line_of v got) = length (content r u)" by (simp add: line_of_def content_def width)
  fix k assume "k < length (line_of v got)"
  then have k: "k \<le> metric_width v" by (simp add: line_of_def)
  then obtain x where x: "got k = Some x" using assms(2) by blast
  then have "x = content r u ! k" using assms(1,3-6) by (simp add: part_ok_def)
  then show "line_of v got ! k = content r u ! k" using x k by (simp add: line_of_def del: upt_Suc)
qed

lemma lines_ok_step:
  assumes "good r" "step r r'" "lines_ok r ls"
  shows "lines_ok r' ls"
  unfolding lines_ok_def
proof (intro allI impI)
  fix j assume j: "j < length ls"
  obtain ws S c where l: "ls ! j = (ws, S, c)" by (cases "ls ! j")
  then have old: "before r S" "c \<le> length (history r)"
    "\<forall>u. S u \<longrightarrow> undisturbed r u \<longrightarrow> u mod slot_count v = j \<longrightarrow> c \<le> u + slot_count v \<longrightarrow> ws = content r u"
    using assms(3) j by (auto simp: lines_ok_def)
  moreover have "content r' u = content r u" "undisturbed r' u = undisturbed r u" if "S u" for u
    using content_grows [OF assms(1,2)] step_undisturbed [OF assms(1,2)] old(1) that
    by (simp_all add: before_def)
  ultimately show "case ls ! j of (ws, S, c) \<Rightarrow> before r' S \<and> c \<le> length (history r')
      \<and> (\<forall>u. S u \<longrightarrow> undisturbed r' u \<longrightarrow> u mod slot_count v = j \<longrightarrow> c \<le> u + slot_count v \<longrightarrow>
           ws = content r' u)"
    using before_step [OF assms(1,2)] history_grows [OF assms(1,2)] l by auto
qed

lemma dump_inv_step:
  assumes "dump_step v d d'" "dump_inv d"
  shows "dump_inv d'"
  using assms
proof (cases rule: dump_step.cases)
  case (load k)
  then show ?thesis
    using assms(2) part_ok_load [of "dump_page d" "dump_begun d" "dump_index d" "dump_got d" k]
    by (simp add: dump_inv_def)
next
  case emit
  let ?r = "dump_page d" and ?l = "(line_of v (dump_got d), dump_begun d, recorded_count v (dump_page d))"
  have "line_of v (dump_got d) = content ?r u"
    if "dump_begun d u" "undisturbed ?r u" "u mod slot_count v = dump_index d" "length (history ?r) \<le> u + slot_count v" for u
    by (rule part_line [of ?r "dump_index d" "dump_begun d" _ "length (history ?r)", OF _ emit(3)]) (use assms(2) that in \<open>auto simp: dump_inv_def\<close>)
  then have "lines_ok ?r (dump_lines d @ [?l])"
    using assms(2) by (auto simp: dump_inv_def lines_ok_def nth_append less_Suc_eq count)
  then show ?thesis
    using assms(2) emit by (simp add: dump_inv_def before_now part_ok_empty)
qed

lemma dump_inv_ring:
  assumes "dump_inv d" "step (dump_page d) r"
  shows "dump_inv (d\<lparr>dump_page := r\<rparr>)"
proof -
  have good: "good (dump_page d)" using assms(1) by (simp add: dump_inv_def)
  show ?thesis
    using assms(1) step_good [OF good assms(2)] before_step [OF good assms(2)]
      part_ok_step [OF good assms(2) _ _ history_grows [OF good assms(2)]]
      lines_ok_step [OF good assms(2)]
    unfolding dump_inv_def by simp
qed

text \<open>A consumer thread that stores its read index meanwhile is of no matter.\<close>

lemma dump_inv_store:
  assumes "dump_inv d"
  shows "dump_inv (d\<lparr>dump_page := store_read_index v e (dump_page d)\<rparr>)"
  using assms
  by (simp add: dump_inv_def before_def part_ok_def lines_ok_def content_def store_neutral store_good)

lemma dump_inv_begin:
  assumes "good r"
  shows "dump_inv (dump_begin v r)"
  using assms by (simp add: dump_inv_def dump_begin_def before_now part_ok_empty lines_ok_def)

lemma dump_reach_inv: "dump_reach v init step d \<Longrightarrow> dump_inv d"
proof (induction rule: dump_reach.induct)
  case (start r)
  then show ?case using init_good [OF start] by (intro dump_inv_begin) blast
next
  case (ring d r)
  then show ?case by (intro dump_inv_ring)
next
  case (dump d d')
  then show ?case using dump_inv_step by simp
qed

text \<open>
  A line of a dump shows the record of its slot if that was finished when the line was begun and
  the ring did not go round it before the line was done.
\<close>

lemma dump_line:
  assumes "dump_reach v init step d" "j < length (dump_lines d)" "dump_lines d ! j = (ws, S, c)"
    and "S u" "undisturbed (dump_page d) u" "u mod slot_count v = j" "c \<le> u + slot_count v"
  shows "u < length (history (dump_page d)) \<and> ws = content (dump_page d) u"
  using dump_reach_inv [OF assms(1)] assms(2-7) unfolding dump_inv_def lines_ok_def before_def by fastforce

end

end
