(* ===== verification/NetLive.thy ===== *)
theory NetLive
  imports PacketSMP NetConsumer LiveSlots
begin

text \<open>
  The packet ring while hooks run on any number of CPUs, as seen by the consumer thread of
  \<open>user/net_filter_client.c\<close> and by the dump of \<open>kernel/telemetry_net.c\<close>. The ring keeps the
  promise of the locale \<open>live_slots\<close>, in which the disturbed tickets are the late ones: those
  drawn while a lapped CPU was still storing into their slot.
\<close>

section \<open>The view\<close>

text \<open>The fields of a metric, each read by one load.\<close>

definition packet_words :: "net_packet_metric \<Rightarrow> u32 list" where
  "packet_words m = [src_ip m, dest_ip m, ucast (src_port m), ucast (dest_port m), pkt_len m]"

lemma length_packet_words [simp]: "length (packet_words m) = 5"
  by (simp add: packet_words_def)

definition net_view :: "smp slots_view" where
  "net_view = \<lparr>
     slot_word = (\<lambda>s i k. (packet_words (net_slot_metric (net_buffer (spage s)) i)
       @ [net_slot_ticket (net_buffer (spage s)) i]) ! k),
     write_hint = (\<lambda>s. wr_idx (net_ctl (spage s))),
     read_index = (\<lambda>s. rd_idx (net_ctl (spage s))),
     store_read_index = (\<lambda>e s. s\<lparr>spage := net_store_rd e (spage s)\<rparr>),
     recorded_count = (\<lambda>s. length (arrived s)),
     finished = (\<lambda>s u. \<forall>k m. \<not> storing s u k m),
     slot_count = NETFILTER_SLOT_CAPACITY, metric_width = 5, prints_first = True\<rparr>"

lemma net_view_simps [simp]:
  "slot_word net_view s i k = (packet_words (net_pay (spage s) i) @ [net_tick (spage s) i]) ! k"
  "write_hint net_view s = wr_idx (net_ctl (spage s))"
  "read_index net_view s = rd_idx (net_ctl (spage s))"
  "store_read_index net_view e s = s\<lparr>spage := net_store_rd e (spage s)\<rparr>"
  "recorded_count net_view s = length (arrived s)"
  "finished net_view s u = (\<forall>k m. \<not> storing s u k m)"
  "slot_count net_view = 24" "metric_width net_view = 5" "prints_first net_view"
  by (simp_all add: net_view_def net_slot_capacity)

text \<open>
  The hook runs below \<open>2 ^ 31\<close> tickets, the range of the signed comparison of the Skip-Ahead
  engine; the thread may start at any moment.
\<close>

definition net_live_init :: "smp \<Rightarrow> bool" where
  "net_live_init s \<longleftrightarrow> smp_reach s \<and> length (arrived s) + 1 < 2 ^ 31"

definition net_live_step :: "smp \<Rightarrow> smp \<Rightarrow> bool" where
  "net_live_step s s' \<longleftrightarrow> smp_step s s' \<and> length (arrived s') + 1 < 2 ^ 31"

section \<open>The promise\<close>

text \<open>The hint never exceeds the number of tickets.\<close>

definition hint_inv :: "smp \<Rightarrow> bool" where
  "hint_inv s \<longleftrightarrow> unat (wr_idx (net_ctl (spage s))) \<le> length (arrived s)
     \<and> (\<forall>c t. cpus s c = Load_hint t \<longrightarrow> unat t < length (arrived s))
     \<and> (\<forall>c t w. cpus s c = Swap_hint t w \<longrightarrow> unat t < length (arrived s))"

lemma hint_inv_start: "hint_inv smp_start"
  by (simp add: hint_inv_def smp_start_def zeroed_page_def)

lemma slot_index_succ: "unat (slot_index t + 1) \<le> unat t + 1"
proof -
  have "unat (slot_index t) < 24" by (rule slot_index_less)
  then have "unat (slot_index t + 1) = unat (slot_index t) + 1" by (intro unat_succ_small) simp
  also have "unat (slot_index t) \<le> unat t" by (simp add: slot_index_unat)
  finally show ?thesis by simp
qed

lemma hint_inv_step:
  assumes "smp_step s s'" "hint_inv s" "tickets_inv s"
  shows "hint_inv s'"
  using assms
proof (cases rule: smp_step.cases)
  case (claim c t r m)
  then show ?thesis
    using assms(2) by (fastforce simp: hint_inv_def claim_ticket_def)
next
  case (stamp c m t)
  moreover have "unat t < length (arrived s)"
    using assms(3) stamp(2) unfolding tickets_inv_def by blast
  ultimately show ?thesis using assms(2) by (auto simp: hint_inv_def stamp_slot_def)
next
  case (swap c t w)
  then have "unat t < length (arrived s)" using assms(2) unfolding hint_inv_def by blast
  then show ?thesis
    using swap assms(2) slot_index_succ [of t] by (auto simp: hint_inv_def)
next
  case (retry c t w)
  then have "unat t < length (arrived s)" using assms(2) unfolding hint_inv_def by blast
  then show ?thesis using retry assms(2) by (auto simp: hint_inv_def)
qed (use assms(2) in \<open>auto simp: hint_inv_def\<close>)

definition net_good :: "smp \<Rightarrow> bool" where
  "net_good s \<longleftrightarrow> tickets_inv s \<and> slots_inv s \<and> hint_inv s \<and> length (arrived s) + 1 < 2 ^ 31"

lemma net_good_step:
  assumes "net_good s" "net_live_step s s'"
  shows "net_good s'"
proof -
  have "tickets_inv s'"
    by (rule tickets_inv_step) (use assms in \<open>auto simp: net_good_def net_live_step_def\<close>)
  moreover have "slots_inv s'"
    by (rule slots_inv_step [of s]) (use assms in \<open>auto simp: net_good_def net_live_step_def\<close>)
  moreover have "hint_inv s'"
    by (rule hint_inv_step [of s]) (use assms in \<open>auto simp: net_good_def net_live_step_def\<close>)
  ultimately show ?thesis using assms(2) by (simp add: net_good_def net_live_step_def)
qed

lemma net_good_init:
  assumes "smp_reach s" "length (arrived s) + 1 < 2 ^ 31"
  shows "net_good s \<and> rd_idx (net_ctl (spage s)) = 0"
  using assms
proof (induction rule: smp_reach.induct)
  case start
  then show ?case
    by (simp add: net_good_def tickets_inv_start slots_inv_start hint_inv_start)
      (simp add: smp_start_def zeroed_page_def)
next
  case (step s s')
  have "length (arrived s) \<le> length (arrived s')" by (rule smp_step_arrived [OF step.hyps(2)])
  then have IH: "net_good s" "rd_idx (net_ctl (spage s)) = 0" using step.IH step.prems by auto
  moreover have "rd_idx (net_ctl (spage s')) = rd_idx (net_ctl (spage s))"
    using step.hyps(2) by (cases rule: smp_step.cases) (auto simp: claim_ticket_def stamp_slot_def)
  ultimately show ?case
    using net_good_step [OF IH(1), of s'] step.hyps(2) step.prems by (simp add: net_live_step_def)
qed

lemma net_finished_step:
  assumes "net_good s" "net_live_step s s'" "u < length (arrived s)" "\<forall>k m. \<not> storing s u k m"
  shows "\<not> storing s' u k m"
proof
  assume "storing s' u k m"
  then obtain c t where c: "cpus s' c = Storing m t k" "unat t = u" by (auto simp: storing_def)
  have old: "cpus s d \<noteq> Storing n w j" if "unat w = u" for d n w j
    using assms(4) that unfolding storing_def by blast
  have "tickets_inv s" "length (arrived s) < 2 ^ 32" using assms(1) by (auto simp: net_good_def)
  then have dispenser: "unat (ticket_dispenser (net_ctl (spage s))) = length (arrived s)"
    using unat_of_nat_small [where 'a = 32, of "length (arrived s)"] by (simp add: tickets_inv_def)
  have "smp_step s s'" using assms(2) by (simp add: net_live_step_def)
  then show False
    using c old assms(3) dispenser
    by (cases rule: smp_step.cases) (auto simp: claim_ticket_def split: if_splits)
qed

lemma net_late_step:
  assumes "net_good s" "net_live_step s s'" "u < length (arrived s)"
  shows "u \<in> late s' \<longleftrightarrow> u \<in> late s"
proof -
  have dispenser: "unat (ticket_dispenser (net_ctl (spage s))) = length (arrived s)"
    using assms(1) unat_of_nat_small [where 'a = 32, of "length (arrived s)"]
    by (simp add: net_good_def tickets_inv_def)
  have "smp_step s s'" using assms(2) by (simp add: net_live_step_def)
  then show ?thesis
    using dispenser assms(3) by (cases rule: smp_step.cases) (auto simp: late_claim_def claim_ticket_def)
qed

lemma net_good_store: "net_good s \<Longrightarrow> net_good (s\<lparr>spage := net_store_rd e (spage s)\<rparr>)"
  by (simp add: net_good_def tickets_inv_def slots_inv_def slot_inv_def stamp_ok_def alone_def storing_def
      hint_inv_def net_store_rd_def page_ok_updates)

interpretation net_live: live_slots net_view net_live_init net_live_step net_good arrived packet_words
  "\<lambda>s u. u \<notin> late s"
proof unfold_locales
  fix s s' :: smp and u k :: nat and e :: u32
  show "net_good s \<and> unat (read_index net_view s) \<le> length (arrived s)" if "net_live_init s"
    using net_good_init [of s] that by (simp add: net_live_init_def)
  show "net_good s' \<and> (\<exists>ms. arrived s' = arrived s @ ms)" if "net_good s" "net_live_step s s'"
    using net_good_step [OF that] that(2) by (auto simp: net_live_step_def elim!: smp_stepE)
  show "finished net_view s' u"
    if "net_good s" "net_live_step s s'" "u < length (arrived s)" "finished net_view s u"
    using net_finished_step [OF that(1-3)] that(4) by simp
  show "net_good (store_read_index net_view e s)" if "net_good s"
    using net_good_store [OF that] by simp
  show "finished net_view (store_read_index net_view e s) = finished net_view s"
    by (auto simp: fun_eq_iff storing_def)
  show "unat e < length (arrived s) \<and> finished net_view s (unat e)"
    if "net_good s" "e \<noteq> 0" "slot_word net_view s (slot_of (slot_count net_view) e) (metric_width net_view) = e"
    using stamp_finished [of s e] that by (simp add: net_good_def slot_of_def nth_append)
  show "slot_word net_view s (u mod slot_count net_view) k = (packet_words (arrived s ! u) @ [of_nat u]) ! k"
    if "net_good s" "finished net_view s u" "u \<notin> late s" "u < length (arrived s)"
      "length (arrived s) \<le> u + slot_count net_view" "k \<le> metric_width net_view"
    using that slot_recorded [of s u] by (simp add: net_good_def)
  show "(u \<notin> late s') = (u \<notin> late s)" if "net_good s" "net_live_step s s'" "u < length (arrived s)"
    using net_late_step [OF that] by simp
qed (auto simp: net_good_def hint_inv_def fun_eq_iff net_store_rd_def)

section \<open>Example runs\<close>

text \<open>Two packets and then a reader that nothing disturbs.\<close>

abbreviation two_packets :: smp where
  "two_packets \<equiv> after_calls [plain_packet 7, plain_packet 8]"

lemma two_packets_init: "net_live_init two_packets"
  by (simp add: net_live_init_def after_calls_reach)

lemma two_packets_good: "net_good two_packets" "rd_idx (net_ctl (spage two_packets)) = 0"
  using net_good_init [of two_packets] after_calls_reach by simp_all

lemma two_packets_finished: "finished net_view two_packets u" "finished_now net_view two_packets 1"
  by (simp_all add: storing_def finished_now_def)

lemma two_packets_stamp:
  "u < 2 \<Longrightarrow> slot_word net_view two_packets u 5 = of_nat u"
  using net_live.slot_content [OF two_packets_good(1) two_packets_finished(1), of u 5]
  by (simp add: nth_append)

lemma two_packets_hint: "wr_idx (net_ctl (spage two_packets)) = 2"
  by (simp add: after_calls_def record_packet_effect Let_def slot_index_def zeroed_page_def
      net_slot_capacity smp_start_def)

lemma skip_ahead_run:
  "\<exists>s ws b. live_reach net_view Skip_Ahead net_live_init net_live_step s
    \<and> live_page s = two_packets \<and> Accepted 1 ws 2 b \<in> set (live_log s)"
proof -
  let ?R = "live_reach net_view Skip_Ahead net_live_init net_live_step"
  let ?s = "\<lparr>live_page = two_packets, live_pc = Skip 0 2, live_log = []\<rparr>"
  have "?R \<lparr>live_page = two_packets, live_pc = Batch 0, live_log = []\<rparr>"
    using live_reach.start [where init = net_live_init and v = net_view, OF two_packets_init] two_packets_good(2) by simp
  from live_reach.walk [OF this walk_step.hint [OF _ refl]]
  have "?R ?s" by (simp add: two_packets_hint)
  from skip_accepts [OF this, of 0 2] two_packets_stamp [of 0]
  obtain t where t: "?R t" "live_page t = two_packets" "live_pc t = Skip 1 2"
    by (force simp: within_def slot_of_def)
  show ?thesis
    using skip_accepts [OF t(1,3)] two_packets_stamp [of 1] t(2) by (force simp: within_def slot_of_def)
qed

lemma scatter_gather_run:
  "\<exists>s ws. live_reach net_view Scatter_Gather net_live_init net_live_step s
    \<and> live_page s = two_packets \<and> Accepted 1 ws 2 True \<in> set (live_log s)"
proof -
  let ?R = "live_reach net_view Scatter_Gather net_live_init net_live_step"
  let ?local = "part_copy net_view two_packets ({..<slot_count net_view} \<times> {..metric_width net_view})"
  let ?S = "finished_now net_view two_packets"
  let ?s = "\<lparr>live_page = two_packets, live_pc = Batch 0, live_log = []\<rparr>"
  have "?R ?s" using live_reach.start [where init = net_live_init and v = net_view, OF two_packets_init] two_packets_good(2) by simp
  from snapshot_run [OF this]
  have g: "?R \<lparr>live_page = two_packets, live_pc = Gather 0 ?local ?S 2, live_log = []\<rparr>"
    by (simp add: numeral_2_eq_2)
  from gathers [OF g, of 0 ?local ?S 2] two_packets_stamp [of 0]
  obtain t where t: "?R t" "live_page t = two_packets" "live_pc t = Gather 1 ?local ?S 2"
    by (force simp: slot_of_def)
  show ?thesis
    using gathers [OF t(1,3) refl] two_packets_stamp [of 1] two_packets_finished(2) t(2)
    by (force simp: slot_of_def)
qed

lemma dump_run:
  "\<exists>d ws S. dump_reach net_view net_live_init net_live_step d \<and> dump_page d = two_packets
    \<and> 1 < length (dump_lines d) \<and> dump_lines d ! 1 = (ws, S, 2) \<and> S 1"
proof -
  let ?R = "dump_reach net_view net_live_init net_live_step"
  have "\<exists>d. ?R d \<and> dump_page d = two_packets \<and> dump_index d = 1 \<and> dump_got d = Map.empty
      \<and> dump_begun d = finished_now net_view two_packets \<and> length (dump_lines d) = 1"
    using dump_slot [OF dump_reach.start [where init = net_live_init and v = net_view, OF two_packets_init]]
    by (intro exI conjI) (assumption?, simp)+
  then obtain d where d: "?R d" "dump_page d = two_packets" "dump_index d = 1" "dump_got d = Map.empty"
    "dump_begun d = finished_now net_view two_packets" "length (dump_lines d) = 1" by blast
  have "dump_index d < slot_count net_view" using d(3) by simp
  let ?d = "d\<lparr>dump_index := dump_index d + 1, dump_begun := finished_now net_view two_packets,
    dump_lines := dump_lines d @ [(map (slot_word net_view two_packets 1) [0..<6],
      finished_now net_view two_packets, 2)]\<rparr>"
  have "?R ?d" using dump_slot [OF d(1) \<open>dump_index d < _\<close> d(4)] d by (simp add: numeral_2_eq_2)
  then show ?thesis
    using d two_packets_finished(2)
    by (intro exI [of _ ?d] exI [of _ "map (slot_word net_view two_packets 1) [0..<6]"]
      exI [of _ "finished_now net_view two_packets"]) (simp add: nth_append)
qed

section \<open>Properties of the readers of the packet ring\<close>

text \<open>
  C4. The packet consumer in Skip-Ahead mode never makes up a packet, while fewer than \<open>2 ^ 31\<close>
  have arrived. However its loads interleave with the hooks on all CPUs: the tickets it accepts go
  up, so none is printed twice; each of them but 0, the stamp of a slot that was never used, had
  been handed out; and the line that is printed for such a ticket has the recorded addresses, ports,
  length and ticket, under two conditions: when the line was complete at most 24 tickets had been
  handed out from this one on (it was not lapped), and the ticket is not late, that is, it was not
  drawn while a CPU that had been lapped was still storing into the slot.
\<close>

theorem net_skip_ahead_live:
  assumes "live_reach net_view Skip_Ahead net_live_init net_live_step s"
  shows "sorted_wrt (<) (map unat (tickets (live_log s)))
    \<and> (\<forall>t ws c b. Accepted t ws c b \<in> set (live_log s) \<longrightarrow> t \<noteq> 0 \<longrightarrow>
         unat t < c \<and> c \<le> length (arrived (live_page s))
         \<and> (c \<le> unat t + NETFILTER_SLOT_CAPACITY \<and> unat t \<notin> late (live_page s) \<longrightarrow>
              ws = packet_words (arrived (live_page s) ! unat t) @ [t]))"
  using net_live.live_log(1,2) [OF assms] net_live.live_log_whole [OF assms]
  unfolding net_live.content_def of_nat_unat by (simp add: net_slot_capacity) metis

theorem net_skip_ahead_live_witness:
  "\<exists>s b. live_reach net_view Skip_Ahead net_live_init net_live_step s
    \<and> Accepted 1 (packet_words (plain_packet 8) @ [1]) 2 b \<in> set (live_log s)"
proof -
  obtain s ws b where s: "live_reach net_view Skip_Ahead net_live_init net_live_step s"
    "live_page s = two_packets" "Accepted 1 ws 2 b \<in> set (live_log s)" using skip_ahead_run by blast
  then have "ws = packet_words (plain_packet 8) @ [1]"
    using net_skip_ahead_live [OF s(1), THEN conjunct2, rule_format, OF s(3)]
    by (simp add: net_slot_capacity)
  then show ?thesis using s by blast
qed

text \<open>
  C19. The packet consumer in Scatter-Gather mode against the running hooks, while fewer than
  \<open>2 ^ 31\<close> packets have arrived. The tickets it accepts are consecutive, and each of them but 0 had
  been handed out. The line of such a ticket is the recorded packet under three conditions: the
  packet's CPU was done with the slot when the copy of the buffer began (one that finishes during
  the copy can be accepted with words from before it); when the copy was complete at most 24
  tickets had been handed out from this one on; and the ticket is not late.
\<close>

theorem net_scatter_gather_live:
  assumes "live_reach net_view Scatter_Gather net_live_init net_live_step s"
  shows "(\<exists>a. map unat (tickets (live_log s)) = [a..<unat (expected (live_pc s))])
    \<and> (\<forall>t ws c b. Accepted t ws c b \<in> set (live_log s) \<longrightarrow> t \<noteq> 0 \<longrightarrow>
         unat t < c \<and> c \<le> length (arrived (live_page s))
         \<and> (b \<and> c \<le> unat t + NETFILTER_SLOT_CAPACITY \<and> unat t \<notin> late (live_page s) \<longrightarrow>
              ws = packet_words (arrived (live_page s) ! unat t) @ [t]))"
  using net_live.live_log(2) [OF assms] net_live.live_log_consecutive [OF assms]
  unfolding net_live.content_def of_nat_unat by (simp add: net_slot_capacity)

theorem net_scatter_gather_live_witness:
  "\<exists>s. live_reach net_view Scatter_Gather net_live_init net_live_step s
    \<and> Accepted 1 (packet_words (plain_packet 8) @ [1]) 2 True \<in> set (live_log s)"
proof -
  obtain s ws where s: "live_reach net_view Scatter_Gather net_live_init net_live_step s"
    "live_page s = two_packets" "Accepted 1 ws 2 True \<in> set (live_log s)" using scatter_gather_run by blast
  then have "ws = packet_words (plain_packet 8) @ [1]"
    using net_scatter_gather_live [OF s(1), THEN conjunct2, rule_format, OF s(3)]
    by (simp add: net_slot_capacity)
  then show ?thesis using s by blast
qed

text \<open>
  C21. A diagnostic read while packets arrive, fewer than \<open>2 ^ 31\<close> of them. The line of a slot is
  the record of any packet of that slot that was complete when the line was begun, if its ticket is
  not late and it had not been lapped when the line was done. Only the lines of slots that change
  during the read, or that a lapped CPU still stores into, can mix two packets.
\<close>

theorem net_dump_live:
  assumes "dump_reach net_view net_live_init net_live_step d"
    and "j < length (dump_lines d)" "dump_lines d ! j = (ws, whole, c)"
    and "whole u" "u \<notin> late (dump_page d)" "u mod NETFILTER_SLOT_CAPACITY = j"
    and "c \<le> u + NETFILTER_SLOT_CAPACITY"
  shows "u < length (arrived (dump_page d)) \<and> ws = packet_words (arrived (dump_page d) ! u) @ [of_nat u]"
  using net_live.dump_line [OF assms(1-5)] assms(6,7)
  by (simp add: net_live.content_def net_slot_capacity)

theorem net_dump_live_witness:
  "\<exists>d whole. dump_reach net_view net_live_init net_live_step d \<and> whole 1
    \<and> dump_lines d ! 1 = (packet_words (plain_packet 8) @ [1], whole, 2)"
proof -
  obtain d ws S where d: "dump_reach net_view net_live_init net_live_step d" "dump_page d = two_packets"
    "1 < length (dump_lines d)" "dump_lines d ! 1 = (ws, S, 2)" "S 1" using dump_run by blast
  then have "ws = packet_words (plain_packet 8) @ [1]"
    using net_dump_live [OF d(1,3,4,5)] by (simp add: net_slot_capacity)
  then show ?thesis using d by blast
qed

end
