(* ===== verification/BlockSMP.thy ===== *)
theory BlockSMP
  imports BlockConsumer
begin

text \<open>
  The block probe on any number of CPUs while the consumer reads the ring
  (\<open>block_telemetry_commit_metric\<close> of \<open>block_filter/telemetry_block.c\<close> and the loop of
  \<open>user/block_filter_client.cpp\<close>). The structure assignment of the probe and the
  \<open>memcpy\<close> and the output of the consumer are cut into the accesses to single words, in any
  order where C leaves it open. The buffer is seen as 128 words of 32 bits; slot \<open>i\<close> has its
  metric in the words \<open>16 i\<close> to \<open>16 i + 7\<close> and its stamp in word \<open>16 i + 8\<close>.
\<close>

section \<open>The buffer as words\<close>

definition pool_word :: "u8 list \<Rightarrow> nat \<Rightarrow> u32" where
  "pool_word pool p = load32 (4 * p) pool"

definition store_word :: "nat \<Rightarrow> u32 \<Rightarrow> u8 list \<Rightarrow> u8 list" where
  "store_word p v pool = store32 (4 * p) v pool"

definition metric_words :: "block_io_metric \<Rightarrow> u32 list" where
  "metric_words m = [dev_major m, dev_minor m, sector_low m, sector_high m, nr_sectors m,
     bytes m, op m, flags m]"

lemma length_metric_words [simp]: "length (metric_words m) = 8"
  by (simp add: metric_words_def)

lemma length_store_word [simp]: "length pool = 512 \<Longrightarrow> p < 128 \<Longrightarrow> length (store_word p v pool) = 512"
  by (simp add: store_word_def)

lemma pool_word_store:
  assumes "length pool = 512" "p < 128" "q < 128"
  shows "pool_word (store_word p v pool) q = (if q = p then v else pool_word pool q)"
proof -
  have "4 * q + 4 \<le> 4 * p \<or> 4 * p + 4 \<le> 4 * q" if "q \<noteq> p"
    using that by linarith
  then show ?thesis using assms by (auto simp: pool_word_def store_word_def byte_simps)
qed

lemma ticket_word: "block_slot_ticket pool i = pool_word pool (16 * i + 8)"
  by (simp add: block_slot_ticket_def pool_word_def layout_simps) (simp add: algebra_simps)

lemma metric_word:
  "block_slot_metric pool i = m \<longleftrightarrow> (\<forall>k<8. pool_word pool (16 * i + k) = metric_words m ! k)"
proof -
  have "(\<forall>k<8. P k) = (P 0 \<and> P 1 \<and> P 2 \<and> P 3 \<and> P 4 \<and> P 5 \<and> P 6 \<and> P 7)" for P :: "nat \<Rightarrow> bool"
    by (simp add: numeral_eq_Suc All_less_Suc conj_ac)
  then show ?thesis
    by (cases m) (auto simp: block_slot_metric_def pool_word_def metric_words_def layout_simps
        algebra_simps)
qed

lemma store_ticket_word: "store_block_ticket i t pool = store_word (16 * i + 8) t pool"
  by (simp add: store_block_ticket_def store_word_def layout_simps) (simp add: algebra_simps)

section \<open>The steps\<close>

text \<open>Where a CPU is: outside, or copying, with the words of the metric that it has stored.\<close>

datatype probe_pc = B_idle | B_copy block_io_metric u32 "nat set"

text \<open>
  Where the consumer is: between its passes, inside the \<open>memcpy\<close> of the Scatter-Gather engine
  with the words copied so far, walking its copy, or, in the Skip-Ahead engine, about to test a
  stamp and printing a slot whose stamp it has accepted with the words loaded so far.
\<close>

datatype drain_pc = D_idle | D_copy "u8 list" "nat set" | D_walk "u8 list"
  | D_check u32 | D_print u32 "u32 list"

text \<open>
  Two history variables: \<open>requests\<close> has the metrics in the order of their tickets,
  \<open>late_requests\<close> the tickets that were drawn while a CPU that had been lapped was still copying
  into the same slot.
\<close>

record block_smp =
  bpage :: shared_ring
  probes :: "nat \<Rightarrow> probe_pc"
  drain :: drain_pc
  requests :: "block_io_metric list"
  late_requests :: "nat set"

definition block_smp_start :: block_smp where
  "block_smp_start = \<lparr>bpage = zeroed_page, probes = (\<lambda>c. B_idle), drain = D_idle, requests = [],
     late_requests = {}\<rparr>"

abbreviation bword :: "block_smp \<Rightarrow> nat \<Rightarrow> u32" where
  "bword s \<equiv> pool_word (block_buffer (bpage s))"

definition set_block_pool :: "u8 list \<Rightarrow> shared_ring \<Rightarrow> shared_ring" where
  "set_block_pool pool r = r\<lparr>block_buffer := pool\<rparr>"

definition block_slot_busy :: "block_smp \<Rightarrow> u32 \<Rightarrow> bool" where
  "block_slot_busy s t \<longleftrightarrow>
     (\<exists>d n v D. probes s d = B_copy n v D \<and> block_slot_index v = block_slot_index t)"

definition late_request :: "block_smp \<Rightarrow> u32 \<Rightarrow> nat set" where
  "late_request s t =
     (if block_slot_busy s t then insert (unat t) (late_requests s) else late_requests s)"

inductive probe_smp_step :: "block_smp \<Rightarrow> block_smp \<Rightarrow> bool" where
  claim: "probes s c = B_idle \<Longrightarrow> wr_idx (block_ctl (bpage s)) = t \<Longrightarrow>
    probe_smp_step s (s\<lparr>bpage := (bpage s)\<lparr>block_ctl := (block_ctl (bpage s))\<lparr>wr_idx := t + 1\<rparr>\<rparr>,
      probes := (probes s)(c := B_copy m t {}), requests := requests s @ [m],
      late_requests := late_request s t\<rparr>)"
| word: "probes s c = B_copy m t D \<Longrightarrow> k < 8 \<Longrightarrow> k \<notin> D \<Longrightarrow>
    probe_smp_step s (s\<lparr>bpage := set_block_pool (store_word (16 * unat (block_slot_index t) + k)
        (metric_words m ! k) (block_buffer (bpage s))) (bpage s),
      probes := (probes s)(c := B_copy m t (insert k D))\<rparr>)"
| stamp: "probes s c = B_copy m t {0..<8} \<Longrightarrow>
    probe_smp_step s (s\<lparr>bpage := set_block_pool (store_block_ticket (unat (block_slot_index t)) t
        (block_buffer (bpage s))) (bpage s),
      probes := (probes s)(c := B_idle)\<rparr>)"

inductive drain_step :: "block_smp \<Rightarrow> block_smp \<Rightarrow> bool" where
  d_snapshot: "drain s = D_idle \<Longrightarrow> length local = TELEMETRY_BLOCKFILTER_RING_BUFFER_CAPACITY \<Longrightarrow>
    drain_step s (s\<lparr>drain := D_copy local {}\<rparr>)"
| d_word: "drain s = D_copy local D \<Longrightarrow> p < 128 \<Longrightarrow> p \<notin> D \<Longrightarrow>
    drain_step s (s\<lparr>drain := D_copy (store_word p (bword s p) local) (insert p D)\<rparr>)"
| d_copied: "drain s = D_copy local {0..<128} \<Longrightarrow> drain_step s (s\<lparr>drain := D_walk local\<rparr>)"
| d_walked: "drain s = D_walk local \<Longrightarrow> drain_step s (s\<lparr>drain := D_idle\<rparr>)"
| d_expect: "drain s = D_idle \<Longrightarrow> drain_step s (s\<lparr>drain := D_check e\<rparr>)"
| d_hit: "drain s = D_check e \<Longrightarrow>
    block_slot_ticket (block_buffer (bpage s)) (slot_of BLOCKFILTER_SLOT_CAPACITY e) = e \<Longrightarrow>
    drain_step s (s\<lparr>drain := D_print e []\<rparr>)"
| d_miss: "drain s = D_check e \<Longrightarrow>
    block_slot_ticket (block_buffer (bpage s)) (slot_of BLOCKFILTER_SLOT_CAPACITY e) \<noteq> e \<Longrightarrow>
    drain_step s (s\<lparr>drain := D_idle\<rparr>)"
| d_load: "drain s = D_print e ws \<Longrightarrow> length ws < 8 \<Longrightarrow>
    drain_step s (s\<lparr>drain := D_print e
      (ws @ [bword s (16 * slot_of BLOCKFILTER_SLOT_CAPACITY e + length ws)])\<rparr>)"
| d_printed: "drain s = D_print e ws \<Longrightarrow> length ws = 8 \<Longrightarrow> drain_step s (s\<lparr>drain := D_idle\<rparr>)"

inductive block_reach :: "block_smp \<Rightarrow> bool" where
  start: "block_reach block_smp_start"
| probe: "block_reach s \<Longrightarrow> probe_smp_step s s' \<Longrightarrow> block_reach s'"
| drain: "block_reach s \<Longrightarrow> drain_step s s' \<Longrightarrow> block_reach s'"

section \<open>The invariant of the slots\<close>

definition copying :: "block_smp \<Rightarrow> nat \<Rightarrow> nat set \<Rightarrow> bool" where
  "copying s u D \<longleftrightarrow> (\<exists>c m t. probes s c = B_copy m t D \<and> unat t = u)"

text \<open>
  The slot of one of the last 8 tickets, unless it was late: no CPU copies to it but its own; while
  that one does, there are the words stored so far, and afterwards its stamp and its request. And
  whatever happens, a stamp other than 0 is that of a request of this slot whose CPU is done.
\<close>

definition block_alone :: "block_smp \<Rightarrow> nat \<Rightarrow> bool" where
  "block_alone s u \<longleftrightarrow>
     (\<forall>c m t D. probes s c = B_copy m t D \<longrightarrow> unat t mod 8 = u mod 8 \<longrightarrow> unat t = u)"

definition block_slot_ok :: "block_smp \<Rightarrow> nat \<Rightarrow> bool" where
  "block_slot_ok s u \<longleftrightarrow> block_alone s u
     \<and> (\<forall>D. copying s u D \<longrightarrow>
          (\<forall>k \<in> D. bword s (16 * (u mod 8) + k) = metric_words (requests s ! u) ! k))
     \<and> ((\<forall>D. \<not> copying s u D) \<longrightarrow> bword s (16 * (u mod 8) + 8) = of_nat u
        \<and> (\<forall>k<8. bword s (16 * (u mod 8) + k) = metric_words (requests s ! u) ! k))"

definition block_stamp_ok :: "block_smp \<Rightarrow> nat \<Rightarrow> bool" where
  "block_stamp_ok s i \<longleftrightarrow> (let e = bword s (16 * i + 8) in e \<noteq> 0 \<longrightarrow>
     unat e < length (requests s) \<and> unat e mod 8 = i \<and> (\<forall>D. \<not> copying s (unat e) D))"

definition block_cpus_ok :: "block_smp \<Rightarrow> bool" where
  "block_cpus_ok s \<longleftrightarrow> page_ok (bpage s)
     \<and> wr_idx (block_ctl (bpage s)) = of_nat (length (requests s))
     \<and> (\<forall>c m t D. probes s c = B_copy m t D \<longrightarrow> unat t < length (requests s)
          \<and> requests s ! unat t = m \<and> D \<subseteq> {0..<8})
     \<and> (\<forall>c d m n t D E. probes s c = B_copy m t D \<longrightarrow> probes s d = B_copy n t E \<longrightarrow> c = d)"

definition block_smp_inv :: "block_smp \<Rightarrow> bool" where
  "block_smp_inv s \<longleftrightarrow> block_cpus_ok s
     \<and> (\<forall>u < length (requests s). length (requests s) \<le> u + 8 \<longrightarrow> u \<notin> late_requests s \<longrightarrow> block_slot_ok s u)
     \<and> (\<forall>i < 8. block_stamp_ok s i)"

lemma block_slot_index_mod: "block_slot_index t = block_slot_index v \<longleftrightarrow> unat t mod 8 = unat v mod 8"
  by (simp add: word_unat_eq_iff block_slot_index_unat)

text \<open>A CPU that moves changes who is copying for its own ticket only.\<close>

lemma copying_update:
  assumes "probes s c = p" "probes s' = (probes s)(c := p')"
    and "\<And>m t D. p = B_copy m t D \<Longrightarrow> unat t \<noteq> u" "\<And>m t D. p' = B_copy m t D \<Longrightarrow> unat t \<noteq> u"
  shows "copying s' u D = copying s u D"
  unfolding copying_def assms(2) using assms(1,3,4) by (metis fun_upd_apply)

lemma block_cpus_unique:
  assumes "block_cpus_ok s" "probes s c = B_copy m t D" "probes s d = B_copy n t E"
  shows "d = c"
proof -
  have "\<forall>c d m n t D E. probes s c = B_copy m t D \<longrightarrow> probes s d = B_copy n t E \<longrightarrow> c = d"
    using assms(1) unfolding block_cpus_ok_def by (elim conjE)
  then show ?thesis using assms(2,3) by metis
qed

lemma copying_ticket: "copying s (unat t) E \<longleftrightarrow> (\<exists>c m. probes s c = B_copy m t E)"
  by (auto simp: copying_def unat_eq_iff [symmetric])

lemma copying_own:
  assumes "block_cpus_ok s" "probes s c = B_copy m t D"
  shows "copying s (unat t) E \<longleftrightarrow> E = D"
proof
  assume "copying s (unat t) E"
  then obtain d n where d: "probes s d = B_copy n t E" unfolding copying_ticket by blast
  have "d = c" by (rule block_cpus_unique [OF assms d])
  then show "E = D" using d assms(2) by simp
next
  assume "E = D"
  then show "copying s (unat t) E" using assms(2) unfolding copying_ticket by blast
qed

lemma copying_own_after:
  assumes "block_cpus_ok s" "probes s c = B_copy m t D" "probes s' = (probes s)(c := p)"
  shows "copying s' (unat t) E \<longleftrightarrow> (\<exists>n. p = B_copy n t E)"
proof
  assume "copying s' (unat t) E"
  then obtain d n where d: "probes s' d = B_copy n t E" unfolding copying_ticket by blast
  have "d = c"
  proof (rule ccontr)
    assume "d \<noteq> c"
    then have "probes s d = B_copy n t E" using d assms(3) by simp
    from block_cpus_unique [OF assms(1,2) this] \<open>d \<noteq> c\<close> show False by simp
  qed
  then show "\<exists>n. p = B_copy n t E" using d assms(3) by simp
next
  assume "\<exists>n. p = B_copy n t E"
  then obtain n where "probes s' c = B_copy n t E" using assms(3) by auto
  then show "copying s' (unat t) E" unfolding copying_ticket by blast
qed

lemma word_slots_apart: "i \<noteq> j \<Longrightarrow> k \<le> 8 \<Longrightarrow> l \<le> 8 \<Longrightarrow> 16 * i + k \<noteq> 16 * j + (l :: nat)"
  by (cases i j rule: linorder_cases) auto

lemma block_smp_inv_start: "block_smp_inv block_smp_start"
proof -
  have "bword block_smp_start (16 * i + 8) = 0" if "i < 8" for i
    using zeroed_block_tick [OF that] by (simp add: block_smp_start_def ticket_word)
  then show ?thesis
    by (simp add: block_smp_inv_def block_cpus_ok_def block_stamp_ok_def block_smp_start_def)
      (simp add: zeroed_page_def zero_lane_def)
qed

text \<open>Storing one word of the slot of a ticket in the window.\<close>

lemma block_slot_index_less: "unat (block_slot_index t) < 8"
  by (simp add: block_slot_index_unat)

lemma page_ok_set_pool: "page_ok r \<Longrightarrow> length p = 512 \<Longrightarrow> page_ok (set_block_pool p r)"
  by (simp add: page_ok_def set_block_pool_def layout_simps)

lemma bword_store:
  assumes "block_cpus_ok s" "bpage s' = set_block_pool (store_word p v (block_buffer (bpage s))) (bpage s)"
    and "p < 128" "q < 128"
  shows "bword s' q = (if q = p then v else bword s q)"
  using assms pool_word_store [of "block_buffer (bpage s)" p q v]
  by (simp add: block_cpus_ok_def set_block_pool_def)

text \<open>A move that is not in the slot of \<open>u\<close>, and one that stores no stamp.\<close>

lemma block_alone_update:
  assumes "block_alone s u" "probes s' = (probes s)(c := p)"
    and "\<And>m t D. p = B_copy m t D \<Longrightarrow> unat t mod 8 = u mod 8 \<Longrightarrow> unat t = u"
  shows "block_alone s' u"
  using assms by (auto simp: block_alone_def)

lemma block_slot_frame:
  assumes "block_slot_ok s u" "block_cpus_ok s" "probes s' = (probes s)(c := p)"
    and "\<And>m t D. probes s c = B_copy m t D \<Longrightarrow> unat t \<noteq> u"
    and "\<And>m t D. p = B_copy m t D \<Longrightarrow> unat t mod 8 \<noteq> u mod 8"
    and word: "\<And>k. k \<le> 8 \<Longrightarrow> bword s' (16 * (u mod 8) + k) = bword s (16 * (u mod 8) + k)"
    and "requests s' ! u = requests s ! u"
  shows "block_slot_ok s' u"
proof -
  have copying: "copying s' u D = copying s u D" for D
    by (rule copying_update [OF refl assms(3)]) (use assms(4,5) in auto)
  have "block_alone s' u"
    by (rule block_alone_update [OF _ assms(3)]) (use assms(1,5) in \<open>auto simp: block_slot_ok_def\<close>)
  moreover have "bword s' (16 * (u mod 8) + k) = bword s (16 * (u mod 8) + k)"
    if "copying s u D" "k \<in> D" for D k
  proof -
    have "D \<subseteq> {0..<8}" using that(1) assms(2) unfolding copying_def block_cpus_ok_def by blast
    then show ?thesis using word that(2) by auto
  qed
  ultimately show ?thesis
    using assms(1,7) copying word by (auto simp: block_slot_ok_def)
qed

lemma block_stamp_frame:
  assumes "block_stamp_ok s i" "probes s' = (probes s)(c := p)"
    and "bword s' (16 * i + 8) = bword s (16 * i + 8)" "length (requests s) \<le> length (requests s')"
    and "\<And>m t D. p = B_copy m t D \<Longrightarrow> length (requests s) \<le> unat t \<or> (\<exists>m' E. probes s c = B_copy m' t E)"
  shows "block_stamp_ok s' i"
proof -
  let ?e = "bword s (16 * i + 8)"
  have "\<not> copying s' (unat ?e) D" if "?e \<noteq> 0" for D
  proof
    assume "copying s' (unat ?e) D"
    then obtain d m where d: "probes s' d = B_copy m ?e D" unfolding copying_ticket by blast
    have e: "unat ?e < length (requests s)" "\<And>D. \<not> copying s (unat ?e) D"
      using assms(1) that by (auto simp: block_stamp_ok_def Let_def)
    show False
      using d assms(2) assms(5) [of m ?e D] e unfolding copying_ticket by (cases "d = c") auto
  qed
  then show ?thesis using assms(1,3,4) by (auto simp: block_stamp_ok_def Let_def)
qed

text \<open>A CPU that stays with its ticket or leaves.\<close>

lemma block_cpus_ok_update:
  assumes inv: "block_cpus_ok s" "probes s c = B_copy m t D" and page: "page_ok (bpage s')"
    and s': "probes s' = (probes s)(c := p)" "requests s' = requests s"
      "wr_idx (block_ctl (bpage s')) = wr_idx (block_ctl (bpage s))"
    and p: "p = B_idle \<or> (\<exists>E. E \<subseteq> {0..<8} \<and> p = B_copy m t E)"
  shows "block_cpus_ok s'"
proof -
  have old: "\<exists>E'. probes s d = B_copy n v E' \<and> (E' \<subseteq> {0..<8} \<longrightarrow> E \<subseteq> {0..<8})"
    if "probes s' d = B_copy n v E" for d n v E
    using that s'(1) p inv(2) by (cases "d = c") auto
  have "\<forall>d n v E. probes s' d = B_copy n v E \<longrightarrow> unat v < length (requests s)
      \<and> requests s ! unat v = n \<and> E \<subseteq> {0..<8}"
    using old inv(1) unfolding block_cpus_ok_def by meson
  moreover have "\<forall>d e m n v E F. probes s' d = B_copy m v E \<longrightarrow> probes s' e = B_copy n v F \<longrightarrow> d = e"
    using old inv(1) unfolding block_cpus_ok_def by meson
  ultimately show ?thesis using inv(1) page unfolding block_cpus_ok_def s'(2,3) by blast
qed

text \<open>
  A store into the slot of a copying CPU: it leaves the other slots alone, and what is left to
  show is about the slot of its ticket.
\<close>

lemma block_inv_store:
  assumes inv: "block_smp_inv s" and c: "probes s c = B_copy m t D" "probes s' = (probes s)(c := p)"
    and p: "p = B_idle \<or> (\<exists>E. E \<subseteq> {0..<8} \<and> p = B_copy m t E)"
    and s': "bpage s' = set_block_pool (store_word (16 * (unat t mod 8) + k) x (block_buffer (bpage s))) (bpage s)"
      "requests s' = requests s" "late_requests s' = late_requests s" "k \<le> 8"
    and own: "block_alone s' (unat t) \<Longrightarrow> block_slot_ok s (unat t) \<Longrightarrow> block_slot_ok s' (unat t)"
    and stamp: "block_stamp_ok s (unat t mod 8) \<Longrightarrow> block_stamp_ok s' (unat t mod 8)"
  shows "block_smp_inv s'"
proof -
  let ?i = "unat t mod 8" and ?l = "length (requests s)"
  have cpus: "block_cpus_ok s" using inv by (simp add: block_smp_inv_def)
  have pos: "16 * ?i + k < 128" using s'(4) by linarith
  have same: "bword s' (16 * j + l) = bword s (16 * j + l)" if "j < 8" "l \<le> 8" "j \<noteq> ?i" for j l
    using bword_store [OF cpus s'(1) pos, of "16 * j + l"] word_slots_apart [OF that(3,2) s'(4)] that(1,2)
    by simp
  have "length (store_word (16 * ?i + k) x (block_buffer (bpage s))) = 512"
    using cpus pos by (simp add: block_cpus_ok_def)
  then have "page_ok (bpage s')"
    using cpus s'(1) page_ok_set_pool by (simp add: block_cpus_ok_def)
  then have "block_cpus_ok s'"
    by (rule block_cpus_ok_update [OF cpus c(1) _ c(2) s'(2) _ p]) (simp add: s'(1) set_block_pool_def)
  moreover have "block_slot_ok s' v" if v: "v < ?l" "?l \<le> v + 8" "v \<notin> late_requests s" for v
  proof -
    have old: "block_slot_ok s v" using inv v by (simp add: block_smp_inv_def)
    show ?thesis
    proof (cases "unat t mod 8 = v mod 8")
      case True
      then have t: "unat t = v" using old c by (auto simp: block_slot_ok_def block_alone_def)
      have "block_alone s' v"
        by (rule block_alone_update [OF _ c(2)]) (use old p t in \<open>auto simp: block_slot_ok_def\<close>)
      then show ?thesis using own old t by simp
    next
      case False
      then show ?thesis
        by (intro block_slot_frame [OF old cpus c(2)] same) (use c(1) p s'(2) in auto)
    qed
  qed
  moreover have "block_stamp_ok s' i" if i: "i < 8" for i
  proof (cases "i = ?i")
    case True
    then show ?thesis using stamp inv i by (simp add: block_smp_inv_def)
  next
    case False
    then show ?thesis
      using inv i p c(1) s'(2) by (intro block_stamp_frame [OF _ c(2)] same) (auto simp: block_smp_inv_def)
  qed
  ultimately show ?thesis using s'(2,3) by (simp add: block_smp_inv_def)
qed

lemma block_inv_word:
  assumes inv: "block_smp_inv s" and c: "probes s c = B_copy m t D" "k < 8" "k \<notin> D"
    and s': "s' = s\<lparr>bpage := set_block_pool (store_word (16 * unat (block_slot_index t) + k)
        (metric_words m ! k) (block_buffer (bpage s))) (bpage s),
      probes := (probes s)(c := B_copy m t (insert k D))\<rparr>"
  shows "block_smp_inv s'"
proof -
  let ?i = "unat t mod 8"
  have cpus: "block_cpus_ok s" using inv by (simp add: block_smp_inv_def)
  then have m: "requests s ! unat t = m" "D \<subseteq> {0..<8}" using c(1) unfolding block_cpus_ok_def by blast+
  have page: "bpage s' = set_block_pool (store_word (16 * ?i + k) (metric_words m ! k)
      (block_buffer (bpage s))) (bpage s)" using s' by (simp add: block_slot_index_unat)
  have probes: "probes s' = (probes s)(c := B_copy m t (insert k D))" using s' by simp
  have word: "bword s' q = (if q = 16 * ?i + k then metric_words m ! k else bword s q)" if "q < 128" for q
    by (rule bword_store [OF cpus page _ that]) (use c(2) in linarith)
  have after: "copying s' (unat t) E \<longleftrightarrow> E = insert k D" for E
    using copying_own_after [OF cpus c(1) probes] by auto
  have slot: "block_slot_ok s' (unat t)" if "block_alone s' (unat t)" "block_slot_ok s (unat t)"
  proof -
    have old: "bword s (16 * ?i + j) = metric_words m ! j" if "j \<in> D" for j
      using \<open>block_slot_ok s (unat t)\<close> copying_own [OF cpus c(1)] that m(1)
      unfolding block_slot_ok_def by blast
    have "bword s' (16 * ?i + j) = metric_words m ! j" if "j \<in> insert k D" for j
    proof -
      have "16 * ?i + j < 128" using that c(2) m(2) by auto
      then show ?thesis using word [of "16 * ?i + j"] old that by auto
    qed
    then show ?thesis using that(1) after s' m(1) by (simp add: block_slot_ok_def)
  qed
  have stamp: "block_stamp_ok s' ?i" if "block_stamp_ok s ?i"
    by (rule block_stamp_frame [OF that probes]) (use word [of "16 * ?i + 8"] c s' in auto)
  show ?thesis
    by (rule block_inv_store [OF inv c(1) probes _ page _ _ _ slot stamp]) (use s' c(2) m(2) in auto)
qed

lemma block_inv_stamp:
  assumes inv: "block_smp_inv s" and c: "probes s c = B_copy m t {0..<8}"
    and s': "s' = s\<lparr>bpage := set_block_pool (store_block_ticket (unat (block_slot_index t)) t
        (block_buffer (bpage s))) (bpage s), probes := (probes s)(c := B_idle)\<rparr>"
  shows "block_smp_inv s'"
proof -
  let ?i = "unat t mod 8"
  have cpus: "block_cpus_ok s" using inv by (simp add: block_smp_inv_def)
  then have m: "requests s ! unat t = m" "unat t < length (requests s)"
    using c(1) unfolding block_cpus_ok_def by blast+
  have page: "bpage s' = set_block_pool (store_word (16 * ?i + 8) t (block_buffer (bpage s))) (bpage s)"
    using s' by (simp add: block_slot_index_unat store_ticket_word)
  have probes: "probes s' = (probes s)(c := B_idle)" using s' by simp
  have word: "bword s' q = (if q = 16 * ?i + 8 then t else bword s q)" if "q < 128" for q
    by (rule bword_store [OF cpus page _ that]) linarith
  have after: "\<not> copying s' (unat t) E" for E
    using copying_own_after [OF cpus c probes] by simp
  have tick: "bword s' (16 * ?i + 8) = t" using word [of "16 * ?i + 8"] by simp
  have slot: "block_slot_ok s' (unat t)" if "block_alone s' (unat t)" "block_slot_ok s (unat t)"
  proof -
    have "bword s (16 * ?i + j) = metric_words m ! j" if "j < 8" for j
      using \<open>block_slot_ok s (unat t)\<close> copying_own [OF cpus c] that m(1)
      unfolding block_slot_ok_def by fastforce
    then have "bword s' (16 * ?i + j) = metric_words m ! j" if "j < 8" for j
      using word [of "16 * ?i + j"] that by simp
    then show ?thesis using that(1) after tick s' m(1) by (simp add: block_slot_ok_def)
  qed
  have "block_stamp_ok s' ?i" using tick after m(2) s' by (simp add: block_stamp_ok_def)
  then show ?thesis by (intro block_inv_store [OF inv c probes _ page _ _ _ slot]) (use s' in auto)
qed

lemma block_inv_claim:
  assumes inv: "block_smp_inv s" and c: "probes s c = B_idle" "wr_idx (block_ctl (bpage s)) = t"
    and s': "s' = s\<lparr>bpage := (bpage s)\<lparr>block_ctl := (block_ctl (bpage s))\<lparr>wr_idx := t + 1\<rparr>\<rparr>,
      probes := (probes s)(c := B_copy m t {}), requests := requests s @ [m],
      late_requests := late_request s t\<rparr>"
    and len: "length (requests s) + 1 < 2 ^ 32"
  shows "block_smp_inv s'"
proof -
  let ?l = "length (requests s)"
  have cpus: "block_cpus_ok s" using inv by (simp add: block_smp_inv_def)
  have t: "t = of_nat ?l" "unat t = ?l"
    using cpus c(2) len unat_of_nat_small [where 'a = 32, of ?l] by (auto simp: block_cpus_ok_def)
  have words: "bword s' q = bword s q" for q using s' by simp
  have probes: "probes s' = (probes s)(c := B_copy m t {})" using s' by simp
  have less: "unat v < ?l" "requests s ! unat v = n" "D \<subseteq> {0..<8}"
    if "probes s d = B_copy n v D" for d n v D
    using cpus that unfolding block_cpus_ok_def by blast+
  have page: "page_ok (bpage s')" "wr_idx (block_ctl (bpage s')) = of_nat (length (requests s'))"
    using cpus s' t(1) by (simp_all add: block_cpus_ok_def page_ok_def)
  have all: "unat v < length (requests s') \<and> requests s' ! unat v = n \<and> D \<subseteq> {0..<8}"
    if "probes s' d = B_copy n v D" for d n v D
    using that s' t(2) less [of d n v D] by (cases "d = c") (auto simp: nth_append)
  have unique: "d = e" if d: "probes s' d = B_copy n v D" "probes s' e = B_copy o' v E" for d e n o' v D E
  proof -
    have new: "x = c \<longleftrightarrow> v = t" if "probes s' x = B_copy n' v F" for x n' F
      using that s' less(1) [of x n' v F] t(2) by (cases "x = c") auto
    show "d = e"
    proof (cases "v = t")
      case True
      then show ?thesis using new d by blast
    next
      case False
      then have "probes s d = B_copy n v D" "probes s e = B_copy o' v E"
        using new [OF d(1)] new [OF d(2)] d s' by simp_all
      then show ?thesis using block_cpus_unique [OF cpus] by metis
    qed
  qed
  have "block_cpus_ok s'" using page all unique unfolding block_cpus_ok_def by blast
  moreover have "block_slot_ok s' u" if u: "u < ?l" "?l + 1 \<le> u + 8" "u \<notin> late_requests s'" for u
  proof -
    have "u mod 8 \<noteq> ?l mod 8" using u block_ring.window_slot [of u ?l] by auto
    moreover have "u \<notin> late_requests s" using u(3) s' by (auto simp: late_request_def split: if_splits)
    ultimately show ?thesis
      using u inv c s' t words
      by (intro block_slot_frame [OF _ cpus probes]) (auto simp: block_smp_inv_def nth_append)
  qed
  moreover have "block_slot_ok s' ?l" if "?l \<notin> late_requests s'"
  proof -
    have free: "\<not> block_slot_busy s t" using that s' t(2) by (auto simp: late_request_def)
    have "unat v mod 8 \<noteq> ?l mod 8" if "probes s d = B_copy n v D" for d n v D
      using free that t(2) by (auto simp: block_slot_busy_def block_slot_index_mod)
    then have "block_alone s' ?l" using s' t(2) by (auto simp: block_alone_def)
    moreover have "copying s' ?l D \<longleftrightarrow> D = {}" for D
    proof
      assume "copying s' ?l D"
      then obtain d n v where d: "probes s' d = B_copy n v D" "unat v = ?l" by (auto simp: copying_def)
      show "D = {}"
      proof (cases "d = c")
        case False
        then have "probes s d = B_copy n v D" using d s' by simp
        from less(1) [OF this] d(2) show ?thesis by simp
      qed (use d s' in simp)
    qed (use s' t(2) in \<open>auto simp: copying_def\<close>)
    ultimately show ?thesis by (simp add: block_slot_ok_def)
  qed
  moreover have "block_stamp_ok s' i" if "i < 8" for i
    by (rule block_stamp_frame [OF _ probes words]) (use that inv s' t(2) in \<open>auto simp: block_smp_inv_def\<close>)
  ultimately show ?thesis using s' by (auto simp: block_smp_inv_def less_Suc_eq)
qed

section \<open>Reachable states\<close>

lemma block_inv_frame:
  "bpage s' = bpage s \<Longrightarrow> probes s' = probes s \<Longrightarrow> requests s' = requests s \<Longrightarrow>
    late_requests s' = late_requests s \<Longrightarrow> block_smp_inv s' = block_smp_inv s"
  by (simp add: block_smp_inv_def block_cpus_ok_def block_slot_ok_def block_stamp_ok_def
      block_alone_def copying_def)

lemma drain_step_frame:
  "drain_step s s' \<Longrightarrow> bpage s' = bpage s \<and> probes s' = probes s \<and> requests s' = requests s
    \<and> late_requests s' = late_requests s"
  by (induction rule: drain_step.induct) simp_all

lemma probe_step_drain:
  "probe_smp_step s s' \<Longrightarrow> drain s' = drain s \<and> (\<exists>ms. requests s' = requests s @ ms)"
  by (induction rule: probe_smp_step.induct) simp_all

lemma block_inv_probe:
  assumes "probe_smp_step s s'" "block_smp_inv s" "length (requests s') < 2 ^ 32"
  shows "block_smp_inv s'"
  using assms
proof (cases rule: probe_smp_step.cases)
  case (claim c t m)
  then show ?thesis using block_inv_claim [OF assms(2) claim(2,3,1)] assms(3) by simp
next
  case (word c m t D k)
  then show ?thesis using block_inv_word [OF assms(2)] by blast
next
  case (stamp c m t)
  then show ?thesis using block_inv_stamp [OF assms(2)] by blast
qed

lemma block_reach_inv:
  "block_reach s \<Longrightarrow> length (requests s) < 2 ^ 32 \<Longrightarrow> block_smp_inv s"
proof (induction rule: block_reach.induct)
  case start
  show ?case by (rule block_smp_inv_start)
next
  case (probe s s')
  have "length (requests s) \<le> length (requests s')" using probe_step_drain [OF probe.hyps(2)] by auto
  then have "block_smp_inv s" using probe.IH probe.prems by simp
  from block_inv_probe [OF probe.hyps(2) this probe.prems] show ?case .
next
  case (drain s s')
  then show ?case using drain_step_frame [OF drain.hyps(2)] block_inv_frame [of s' s] by simp
qed

text \<open>A stamp other than 0 that a reader finds is that of a request whose CPU is done with it.\<close>

lemma stamp_means_done:
  assumes "block_smp_inv s" "bword s (16 * (unat e mod 8) + 8) = e" "e \<noteq> 0"
  shows "unat e < length (requests s) \<and> (\<forall>D. \<not> copying s (unat e) D)"
  using assms(1) assms(2,3) unfolding block_smp_inv_def block_stamp_ok_def Let_def
  by (metis mod_less_divisor zero_less_numeral)

text \<open>A slot of the last 8 tickets that was not late, once its CPU is done.\<close>

lemma request_recorded:
  assumes "block_smp_inv s" "u < length (requests s)" "length (requests s) \<le> u + 8" "u \<notin> late_requests s"
    and "\<And>D. \<not> copying s u D"
  shows "bword s (16 * (u mod 8) + 8) = of_nat u"
    "k < 8 \<Longrightarrow> bword s (16 * (u mod 8) + k) = metric_words (requests s ! u) ! k"
  using assms by (auto simp: block_smp_inv_def block_slot_ok_def)

lemma late_request_stays:
  assumes "probe_smp_step s s'" "block_cpus_ok s" "length (requests s) < 2 ^ 32" "u < length (requests s)"
  shows "u \<in> late_requests s' \<longleftrightarrow> u \<in> late_requests s"
proof -
  have t: "unat (wr_idx (block_ctl (bpage s))) = length (requests s)"
    using assms(2,3) unat_of_nat_small [where 'a = 32, of "length (requests s)"]
    by (simp add: block_cpus_ok_def)
  show ?thesis
    using assms(1) t assms(4) by (cases rule: probe_smp_step.cases) (auto simp: late_request_def)
qed

section \<open>The Skip-Ahead engine while the probe runs\<close>

definition drain_ok :: "block_smp \<Rightarrow> bool" where
  "drain_ok s \<longleftrightarrow> (\<forall>e ws. drain s = D_print e ws \<longrightarrow> e \<noteq> 0 \<longrightarrow>
     unat e < length (requests s) \<and> (\<forall>D. \<not> copying s (unat e) D) \<and> length ws \<le> 8
     \<and> (length (requests s) \<le> unat e + 8 \<longrightarrow> unat e \<notin> late_requests s \<longrightarrow>
          ws = take (length ws) (metric_words (requests s ! unat e))))"

lemma probe_step_copying:
  assumes "probe_smp_step s s'" "block_cpus_ok s" "length (requests s) < 2 ^ 32" "copying s' u D"
  shows "u = length (requests s) \<or> (\<exists>E. copying s u E)"
proof -
  have t: "unat (wr_idx (block_ctl (bpage s))) = length (requests s)"
    using assms(2,3) unat_of_nat_small [where 'a = 32, of "length (requests s)"]
    by (simp add: block_cpus_ok_def)
  show ?thesis
    using assms(1)
  proof (cases rule: probe_smp_step.cases)
    case (claim c v m)
    then show ?thesis using assms(4) t by (auto simp: copying_def split: if_splits)
  next
    case (word c m v E k)
    then show ?thesis using assms(4) by (fastforce simp: copying_def split: if_splits)
  next
    case (stamp c m v)
    then show ?thesis using assms(4) by (fastforce simp: copying_def split: if_splits)
  qed
qed

lemma drain_ok_probe:
  assumes "probe_smp_step s s'" "block_smp_inv s" "drain_ok s" "length (requests s') < 2 ^ 32"
  shows "drain_ok s'"
  unfolding drain_ok_def
proof (intro allI impI)
  fix e ws assume e: "drain s' = D_print e ws" "e \<noteq> 0"
  obtain ms where frame: "drain s' = drain s" "requests s' = requests s @ ms"
    using probe_step_drain [OF assms(1)] by blast
  have old: "unat e < length (requests s)" "\<forall>D. \<not> copying s (unat e) D" "length ws \<le> 8"
    "length (requests s) \<le> unat e + 8 \<longrightarrow> unat e \<notin> late_requests s \<longrightarrow>
      ws = take (length ws) (metric_words (requests s ! unat e))"
    using assms(3) e frame(1) unfolding drain_ok_def by (metis)+
  have cpus: "block_cpus_ok s" "length (requests s) < 2 ^ 32"
    using assms(2,4) frame(2) by (simp_all add: block_smp_inv_def)
  then have "\<not> copying s' (unat e) D" for D
    using probe_step_copying [OF assms(1), of "unat e" D] old(1,2) by auto
  then show "unat e < length (requests s') \<and> (\<forall>D. \<not> copying s' (unat e) D) \<and> length ws \<le> 8
      \<and> (length (requests s') \<le> unat e + 8 \<longrightarrow> unat e \<notin> late_requests s' \<longrightarrow>
           ws = take (length ws) (metric_words (requests s' ! unat e)))"
    using old frame(2) late_request_stays [OF assms(1) cpus old(1)] by (simp add: nth_append)
qed

lemma drain_ok_drain:
  assumes "drain_step s s'" "block_smp_inv s" "drain_ok s"
  shows "drain_ok s'"
  using assms(1)
proof (cases rule: drain_step.cases)
  case (d_hit e)
  then have "bword s (16 * (unat e mod 8) + 8) = e"
    by (simp add: ticket_word slot_of_def block_slot_capacity)
  then show ?thesis
    using stamp_means_done [OF assms(2)] d_hit by (auto simp: drain_ok_def copying_def)
next
  case (d_load e ws)
  have "bword s (16 * (unat e mod 8) + length ws) = metric_words (requests s ! unat e) ! length ws"
    if "e \<noteq> 0" "length (requests s) \<le> unat e + 8" "unat e \<notin> late_requests s"
  proof -
    have "unat e < length (requests s)" "\<forall>D. \<not> copying s (unat e) D"
      using assms(3) d_load(2) that(1) unfolding drain_ok_def by metis+
    then show ?thesis using request_recorded(2) [OF assms(2) _ that(2,3)] d_load(3) by simp
  qed
  then show ?thesis
    using assms(3) d_load
    by (auto simp: drain_ok_def copying_def slot_of_def block_slot_capacity take_Suc_conv_app_nth)
qed (simp_all add: drain_ok_def)

lemma drain_ok_reach:
  "block_reach s \<Longrightarrow> length (requests s) < 2 ^ 32 \<Longrightarrow> drain_ok s"
proof (induction rule: block_reach.induct)
  case start
  show ?case by (simp add: drain_ok_def block_smp_start_def)
next
  case (probe s s')
  have "length (requests s) \<le> length (requests s')" using probe_step_drain [OF probe.hyps(2)] by auto
  then have "length (requests s) < 2 ^ 32" using probe.prems by simp
  then show ?case
    using drain_ok_probe [OF probe.hyps(2) block_reach_inv [OF probe.hyps(1)]] probe.IH probe.prems by simp
next
  case (drain s s')
  then have "length (requests s) < 2 ^ 32" using drain_step_frame [OF drain.hyps(2)] by simp
  then show ?case
    using drain_ok_drain [OF drain.hyps(2) block_reach_inv [OF drain.hyps(1)]] drain.IH by simp
qed

section \<open>Runs\<close>

text \<open>The consumer copies any set of words while the CPUs pause.\<close>

lemma copy_words:
  assumes "finite E" "E \<subseteq> {0..<128}" "D \<inter> E = {}"
    and "block_reach (s\<lparr>drain := D_copy local D\<rparr>)" "length local = 512"
  shows "\<exists>local'. block_reach (s\<lparr>drain := D_copy local' (D \<union> E)\<rparr>) \<and> length local' = 512
    \<and> (\<forall>q<128. pool_word local' q = (if q \<in> E then bword s q else pool_word local q))"
  using assms
proof (induction E arbitrary: D local rule: finite_induct)
  case empty
  then show ?case by auto
next
  case (insert p E)
  let ?local = "store_word p (bword s p) local"
  have p: "p < 128" "p \<notin> D" using insert.prems by auto
  have step: "drain_step (s\<lparr>drain := D_copy local D\<rparr>) (s\<lparr>drain := D_copy ?local (insert p D)\<rparr>)"
    using drain_step.d_word [of "s\<lparr>drain := D_copy local D\<rparr>" local D p] p by simp
  have len: "length ?local = 512" using insert.prems(4) p by simp
  have "insert p D \<inter> E = {}" using insert.prems(2) insert.hyps(2) by auto
  from insert.IH [OF _ this block_reach.drain [OF insert.prems(3) step] len] insert.prems(1)
  obtain local' where l: "block_reach (s\<lparr>drain := D_copy local' (insert p D \<union> E)\<rparr>)" "length local' = 512"
    "\<forall>q<128. pool_word local' q = (if q \<in> E then bword s q else pool_word ?local q)" by auto
  have "pool_word ?local q = (if q = p then bword s p else pool_word local q)" if "q < 128" for q
    by (rule pool_word_store [OF insert.prems(4) p(1) that])
  then have "\<forall>q<128. pool_word local' q = (if q \<in> insert p E then bword s q else pool_word local q)"
    using l(3) by auto
  then show ?case using l(1,2) by (intro exI [of _ local']) (simp add: insert_commute)
qed

text \<open>One CPU records a request while the others are outside.\<close>

lemma probe_words:
  assumes "block_reach s" "probes s = (\<lambda>c. B_idle)(0 := B_copy m t {})" "k \<le> 8"
  shows "\<exists>s'. block_reach s' \<and> probes s' = (\<lambda>c. B_idle)(0 := B_copy m t {0..<k})
    \<and> requests s' = requests s \<and> drain s' = drain s \<and> late_requests s' = late_requests s"
  using assms(3)
proof (induction k)
  case 0
  show ?case using assms(1,2) by (intro exI [of _ s]) simp
next
  case (Suc k)
  then obtain a where a: "block_reach a" "probes a = (\<lambda>c. B_idle)(0 := B_copy m t {0..<k})"
    "requests a = requests s" "drain a = drain s" "late_requests a = late_requests s"
    by (metis Suc_leD)
  define b where "b = a\<lparr>bpage := set_block_pool (store_word (16 * unat (block_slot_index t) + k)
      (metric_words m ! k) (block_buffer (bpage a))) (bpage a),
    probes := (probes a)(0 := B_copy m t (insert k {0..<k}))\<rparr>"
  have step: "probe_smp_step a b"
    unfolding b_def by (rule probe_smp_step.word) (use a(2) Suc.prems in simp_all)
  have probes: "probes b = (\<lambda>c. B_idle)(0 := B_copy m t {0..<Suc k})"
    unfolding b_def using a(2) by (simp add: atLeastLessThanSuc)
  from block_reach.probe [OF a(1) step] probes a(3-5) show ?case
    by (intro exI [of _ b]) (simp add: b_def)
qed

lemma probe_request:
  assumes "block_reach s" "probes s = (\<lambda>c. B_idle)"
  shows "\<exists>s'. block_reach s' \<and> probes s' = (\<lambda>c. B_idle) \<and> requests s' = requests s @ [m]
    \<and> drain s' = drain s \<and> late_requests s' = late_requests s"
proof -
  let ?t = "wr_idx (block_ctl (bpage s))"
  define a where "a = s\<lparr>bpage := (bpage s)\<lparr>block_ctl := (block_ctl (bpage s))\<lparr>wr_idx := ?t + 1\<rparr>\<rparr>,
    probes := (probes s)(0 := B_copy m ?t {}), requests := requests s @ [m],
    late_requests := late_request s ?t\<rparr>"
  have "probe_smp_step s a"
    unfolding a_def by (rule probe_smp_step.claim) (use assms(2) in simp_all)
  then have a: "block_reach a" by (rule block_reach.probe [OF assms(1)])
  have late: "late_requests a = late_requests s"
    using assms(2) by (simp add: a_def late_request_def block_slot_busy_def)
  have "probes a = (\<lambda>c. B_idle)(0 := B_copy m ?t {})" using assms(2) by (simp add: a_def)
  from probe_words [OF a this order_refl]
  obtain b where b: "block_reach b" "probes b = (\<lambda>c. B_idle)(0 := B_copy m ?t {0..<8})"
    "requests b = requests a" "drain b = drain a" "late_requests b = late_requests a" by blast
  define c where "c = b\<lparr>bpage := set_block_pool (store_block_ticket (unat (block_slot_index ?t)) ?t
      (block_buffer (bpage b))) (bpage b), probes := (probes b)(0 := B_idle)\<rparr>"
  have "probe_smp_step b c"
    unfolding c_def by (rule probe_smp_step.stamp) (use b(2) in simp)
  then have "block_reach c" by (rule block_reach.probe [OF b(1)])
  moreover have "probes c = (\<lambda>c. B_idle)" unfolding c_def using b(2) by auto
  ultimately show ?thesis using late b(3-5) by (intro exI [of _ c]) (simp add: c_def a_def)
qed

lemma idle_slot:
  assumes "block_reach s" "length (requests s) < 2 ^ 32" "probes s = (\<lambda>c. B_idle)"
    and "u < length (requests s)" "length (requests s) \<le> u + 8" "u \<notin> late_requests s"
  shows "bword s (16 * (u mod 8) + 8) = of_nat u"
    "k < 8 \<Longrightarrow> bword s (16 * (u mod 8) + k) = metric_words (requests s ! u) ! k"
  using request_recorded [OF block_reach_inv [OF assms(1,2)] assms(4-6)] assms(3)
  by (simp_all add: copying_def)

definition zero_block_metric :: block_io_metric where
  "zero_block_metric = \<lparr>dev_major = 0, dev_minor = 0, sector_low = 0, sector_high = 0,
     nr_sectors = 0, bytes = 0, op = 0, flags = 0\<rparr>"

lemma zero_metric_word: "k < 8 \<Longrightarrow> metric_words zero_block_metric ! k = 0"
  by (auto simp: metric_words_def zero_block_metric_def less_Suc_eq numeral_eq_Suc)

lemma fresh_word: "q < 128 \<Longrightarrow> bword block_smp_start q = 0"
proof -
  assume q: "q < 128"
  have "read_at (4 * q) 4 (replicate 512 (0 :: u8)) = replicate 4 0"
    using q by (intro nth_equalityI) (auto simp: nth_read_at)
  then have "load32 (4 * q) (replicate 512 0) = le_word (replicate 4 (0 :: u8))"
    by (simp add: load32_def)
  also have "\<dots> = 0" by (simp add: numeral_eq_Suc)
  finally show ?thesis by (simp add: pool_word_def block_smp_start_def zeroed_page_def layout_simps)
qed

text \<open>
  The run: the copy reads the metric of slot 1 first, then two requests are recorded, then the
  rest of the buffer is copied.
\<close>

lemma overtaken_copy:
  "\<exists>s local. block_reach s \<and> late_requests s = {} \<and> requests s = [m0, m1] \<and> drain s = D_walk local
     \<and> pool_word local 8 = 0 \<and> pool_word local 24 = 1 \<and> pool_word local 40 = 0
     \<and> (\<forall>k<8. pool_word local (16 + k) = 0)"
proof -
  let ?a = block_smp_start
  have "drain_step ?a (?a\<lparr>drain := D_copy (replicate 512 0) {}\<rparr>)"
    by (rule drain_step.d_snapshot) (simp_all add: block_smp_start_def layout_simps)
  from block_reach.drain [OF block_reach.start this]
  have "block_reach (?a\<lparr>drain := D_copy (replicate 512 0) {}\<rparr>)" .
  from copy_words [of "{16..<24}" "{}", OF _ _ _ this]
  obtain l1 where l1: "block_reach (?a\<lparr>drain := D_copy l1 {16..<24}\<rparr>)" "length l1 = 512"
    "\<forall>q<128. q \<in> {16..<24} \<longrightarrow> pool_word l1 q = bword ?a q" by fastforce
  obtain b where b: "block_reach b" "probes b = (\<lambda>c. B_idle)" "requests b = [m0]"
    "drain b = D_copy l1 {16..<24}" "late_requests b = {}"
    using probe_request [OF l1(1), of m0] by (auto simp: block_smp_start_def)
  obtain c where c: "block_reach c" "probes c = (\<lambda>c. B_idle)" "requests c = [m0, m1]"
    "drain c = D_copy l1 {16..<24}" "late_requests c = {}"
    using probe_request [OF b(1,2), of m1] b(3-5) by auto
  let ?E = "{0..<128} - {16..<24 :: nat}"
  have "c\<lparr>drain := D_copy l1 {16..<24}\<rparr> = c" using c(4) by simp
  then have "block_reach (c\<lparr>drain := D_copy l1 {16..<24}\<rparr>)" using c(1) by simp
  from copy_words [of ?E "{16..<24}", OF _ _ _ this l1(2)]
  obtain l2 where l2: "block_reach (c\<lparr>drain := D_copy l2 ({16..<24} \<union> ?E)\<rparr>)"
    "\<forall>q<128. pool_word l2 q = (if q \<in> ?E then bword c q else pool_word l1 q)" by auto
  have all: "{16..<24} \<union> ?E = {0..<128}" by auto
  have "drain_step (c\<lparr>drain := D_copy l2 {0..<128}\<rparr>) (c\<lparr>drain := D_walk l2\<rparr>)"
    using drain_step.d_copied [of "c\<lparr>drain := D_copy l2 {0..<128}\<rparr>" l2] by simp
  from block_reach.drain [OF l2(1) [unfolded all] this]
  have reach: "block_reach (c\<lparr>drain := D_walk l2\<rparr>)" .
  have "bword c 8 = 0" "bword c 24 = 1"
    using idle_slot(1) [OF c(1) _ c(2), of 0] idle_slot(1) [OF c(1) _ c(2), of 1] c(3,5) by simp_all
  moreover have "bword c 40 = 0"
  proof -
    have "block_stamp_ok c 2" using block_reach_inv [OF c(1)] c(3) by (simp add: block_smp_inv_def)
    then show ?thesis using c(3) by (force simp: block_stamp_ok_def Let_def)
  qed
  moreover have "pool_word l2 (16 + k) = 0" if "k < 8" for k
    using l1(3) l2(2) fresh_word [of "16 + k"] that by simp
  ultimately show ?thesis
    using reach c(3,5) l2(2) by (intro exI [of _ "c\<lparr>drain := D_walk l2\<rparr>"] exI [of _ l2]) simp
qed

text \<open>The Skip-Ahead engine accepts ticket 1 after two requests and loads the whole slot.\<close>

lemma load_words:
  assumes "block_reach s" "drain s = D_print e []" "n \<le> 8"
  shows "\<exists>s' ws. block_reach s' \<and> requests s' = requests s \<and> late_requests s' = late_requests s
    \<and> drain s' = D_print e ws \<and> length ws = n"
  using assms(3)
proof (induction n)
  case 0
  then show ?case using assms(1,2) by (intro exI [of _ s] exI [of _ "[]"]) simp
next
  case (Suc n)
  then obtain a ws where a: "block_reach a" "requests a = requests s" "drain a = D_print e ws"
    "length ws = n" "late_requests a = late_requests s" by (metis Suc_leD)
  have "length ws < 8" using a(4) Suc.prems by simp
  from block_reach.drain [OF a(1) drain_step.d_load [OF a(3) this]] a(2,4,5)
  show ?case by (intro exI conjI) (assumption, simp, simp, simp, simp)
qed

lemma printing_run:
  "\<exists>s ws. block_reach s \<and> late_requests s = {} \<and> requests s = [m0, m1] \<and> drain s = D_print 1 ws
     \<and> length ws = 8"
proof -
  obtain b where b: "block_reach b" "probes b = (\<lambda>c. B_idle)" "requests b = [m0]" "drain b = D_idle"
    "late_requests b = {}"
    using probe_request [OF block_reach.start, of m0] by (auto simp: block_smp_start_def)
  obtain c where c: "block_reach c" "probes c = (\<lambda>c. B_idle)" "requests c = [m0, m1]" "drain c = D_idle"
    "late_requests c = {}"
    using probe_request [OF b(1,2), of m1] b(3-5) by auto
  have stamp: "bword c 24 = 1" using idle_slot(1) [OF c(1) _ c(2), of 1] c(3,5) by simp
  from block_reach.drain [OF c(1) drain_step.d_expect [OF c(4)]]
  have "block_reach (c\<lparr>drain := D_check 1\<rparr>)" .
  from block_reach.drain [OF this drain_step.d_hit] stamp
  have "block_reach (c\<lparr>drain := D_print 1 []\<rparr>)"
    by (simp add: ticket_word slot_of_def block_slot_capacity)
  from load_words [OF this, of 1 8] c(3,5) show ?thesis by auto
qed

section \<open>Properties of the consumer against the probe\<close>

text \<open>
  The Skip-Ahead engine prints what was recorded. Under every interleaving: once the engine has
  seen the stamp of its ticket \<open>e\<close> (neither 0 nor late), the words that it loads from the slot are
  those of request \<open>e\<close>, as long as no more than 8 requests have been claimed since.
\<close>

theorem block_print_is_request:
  assumes "block_reach s" "length (requests s) < 2 ^ 32" "drain s = D_print e ws" "e \<noteq> 0"
    and "length (requests s) \<le> unat e + 8" "unat e \<notin> late_requests s"
  shows "unat e < length (requests s) \<and> ws = take (length ws) (metric_words (requests s ! unat e))"
proof -
  have "drain_ok s" by (rule drain_ok_reach [OF assms(1,2)])
  then show ?thesis using assms(3-6) unfolding drain_ok_def by metis
qed

theorem block_print_is_request_witness:
  "\<exists>s. block_reach s \<and> requests s = [zero_block_metric, zero_block_metric\<lparr>bytes := 512\<rparr>]
     \<and> drain s = D_print 1 [0, 0, 0, 0, 0, 512, 0, 0]"
proof -
  let ?m = "zero_block_metric\<lparr>bytes := 512\<rparr>"
  obtain s ws where s: "block_reach s" "requests s = [zero_block_metric, ?m]" "drain s = D_print 1 ws"
    "length ws = 8" "late_requests s = {}" using printing_run [of zero_block_metric ?m] by blast
  have "ws = take (length ws) (metric_words (requests s ! unat (1 :: u32)))"
    using block_print_is_request [OF s(1) _ s(3)] s(2,5) by simp
  then have "ws = [0, 0, 0, 0, 0, 512, 0, 0]"
    using s(2,4) by (simp add: metric_words_def zero_block_metric_def)
  then show ?thesis using s(1-3) by blast
qed

text \<open>
  C29. The Scatter-Gather engine may print a record that never was. It copies the buffer in one
  \<open>memcpy\<close>, in which the words of a metric can be read before its stamp: if a probe fills the
  slot in between, the copy has the new stamp on the words that the slot had before, and the walk
  over the copy accepts it. There is such a run with two requests, none of them late: ticket 1 is
  accepted with a metric of zeros, those of the slot before its first use, whatever was recorded.
\<close>

theorem block_snapshot_torn:
  "\<exists>s local. block_reach s \<and> late_requests s = {} \<and> requests s = [m0, m1] \<and> drain s = D_walk local
     \<and> accepted (snd (gather BLOCKFILTER_SLOT_CAPACITY (block_slot_ticket local) 0)) = [0, 1]
     \<and> block_slot_metric local 1 = zero_block_metric"
proof -
  obtain s local where run: "block_reach s" "requests s = [m0, m1]" "drain s = D_walk local"
    "late_requests s = {}" "pool_word local 8 = 0" "pool_word local 24 = 1" "pool_word local 40 = 0"
    "\<forall>k<8. pool_word local (16 + k) = 0" using overtaken_copy [of m0 m1] by blast
  have ticks: "block_slot_ticket local 0 = 0" "block_slot_ticket local 1 = 1"
    "block_slot_ticket local 2 = 0" using run(5-7) by (simp_all add: ticket_word)
  have "gather 8 (block_slot_ticket local) 2 = (2, [Examine 2])"
    using ticks by (subst gather.simps) (simp add: slot_of_def)
  then have "gather 8 (block_slot_ticket local) 1 = (2, [Examine 1, Accept 1, Examine 2])"
    using ticks by (subst gather.simps) (simp add: slot_of_def)
  then have "gather 8 (block_slot_ticket local) 0
      = (2, [Examine 0, Accept 0, Examine 1, Accept 1, Examine 2])"
    using ticks by (subst gather.simps) (simp add: slot_of_def)
  then have "accepted (snd (gather BLOCKFILTER_SLOT_CAPACITY (block_slot_ticket local) 0)) = [0, 1]"
    by (simp add: block_slot_capacity)
  moreover have "block_slot_metric local 1 = zero_block_metric"
    using run(8) zero_metric_word by (simp add: metric_word)
  ultimately show ?thesis using run(1-4) by blast
qed

end
