(* ===== verification/BlockLive.thy ===== *)
theory BlockLive
  imports BlockSMP LiveSlots
begin

text \<open>
  The block ring while the probe runs on any number of CPUs, as seen by the consumer thread of
  \<open>user/block_filter_client.cpp\<close>. The ring keeps the promise of the locale
  \<open>live_slots\<close>, in which the disturbed tickets are those that were drawn while a lapped CPU was
  still copying into their slot.
\<close>

section \<open>The view\<close>

text \<open>The consumer prints a slot only once it has accepted it.\<close>

definition block_view :: "block_smp slots_view" where
  "block_view = \<lparr>
     slot_word = (\<lambda>s i k. pool_word (block_buffer (bpage s)) (16 * i + k)),
     write_hint = (\<lambda>s. wr_idx (block_ctl (bpage s))),
     read_index = (\<lambda>s. rd_idx (block_ctl (bpage s))),
     store_read_index = (\<lambda>e s. s\<lparr>bpage := block_store_rd e (bpage s)\<rparr>),
     recorded_count = (\<lambda>s. length (requests s)),
     finished = (\<lambda>s u. \<forall>D. \<not> copying s u D),
     slot_count = BLOCKFILTER_SLOT_CAPACITY, metric_width = 8, prints_first = False\<rparr>"

lemma block_view_simps [simp]:
  "slot_word block_view s i k = bword s (16 * i + k)"
  "write_hint block_view s = wr_idx (block_ctl (bpage s))"
  "read_index block_view s = rd_idx (block_ctl (bpage s))"
  "store_read_index block_view e s = s\<lparr>bpage := block_store_rd e (bpage s)\<rparr>"
  "recorded_count block_view s = length (requests s)"
  "finished block_view s u = (\<forall>D. \<not> copying s u D)"
  "slot_count block_view = 8" "metric_width block_view = 8" "\<not> prints_first block_view"
  by (simp_all add: block_view_def block_slot_capacity)

text \<open>
  The probe runs below \<open>2 ^ 31\<close> tickets; the thread may start at any moment.
\<close>

definition block_live_init :: "block_smp \<Rightarrow> bool" where
  "block_live_init s \<longleftrightarrow> block_reach s \<and> length (requests s) + 1 < 2 ^ 31"

definition block_live_step :: "block_smp \<Rightarrow> block_smp \<Rightarrow> bool" where
  "block_live_step s s' \<longleftrightarrow> probe_smp_step s s' \<and> length (requests s') + 1 < 2 ^ 31"

section \<open>The promise\<close>

definition block_good :: "block_smp \<Rightarrow> bool" where
  "block_good s \<longleftrightarrow> block_smp_inv s \<and> length (requests s) + 1 < 2 ^ 31"

lemma block_good_step:
  assumes "block_good s" "block_live_step s s'"
  shows "block_good s'"
  using block_inv_probe [of s s'] assms by (simp add: block_good_def block_live_step_def)

lemma block_good_bounds:
  assumes "block_good s"
  shows "length (requests s) < 2 ^ 32" "block_cpus_ok s"
    "unat (wr_idx (block_ctl (bpage s))) = length (requests s)"
  using assms unat_of_nat_small [where 'a = 32, of "length (requests s)"]
  by (auto simp: block_good_def block_smp_inv_def block_cpus_ok_def)

lemma block_reach_rd: "block_reach s \<Longrightarrow> rd_idx (block_ctl (bpage s)) = 0"
proof (induction rule: block_reach.induct)
  case start
  show ?case by (simp add: block_smp_start_def) (simp add: zeroed_page_def zero_lane_def)
next
  case (probe s s')
  show ?case
    using probe.hyps(2) probe.IH by (cases rule: probe_smp_step.cases) (auto simp: set_block_pool_def)
next
  case (drain s s')
  then show ?case using drain_step_frame by simp
qed

lemma block_finished_step:
  assumes "block_good s" "block_live_step s s'" "u < length (requests s)" "\<forall>D. \<not> copying s u D"
  shows "\<not> copying s' u D"
  using probe_step_copying [of s s' u D] block_good_bounds [OF assms(1)] assms(2-4)
  by (auto simp: block_live_step_def)

lemma block_good_store: "block_good s \<Longrightarrow> block_good (s\<lparr>bpage := block_store_rd e (bpage s)\<rparr>)"
  by (simp add: block_good_def block_smp_inv_def block_cpus_ok_def block_slot_ok_def block_stamp_ok_def
      block_alone_def copying_def block_store_rd_def page_ok_def)

interpretation block_live:
  live_slots block_view block_live_init block_live_step block_good requests metric_words
    "\<lambda>s u. u \<notin> late_requests s"
proof unfold_locales
  fix s s' :: block_smp and u k :: nat and e :: u32
  show "block_good s \<and> unat (read_index block_view s) \<le> length (requests s)" if "block_live_init s"
    using block_reach_inv [of s] block_reach_rd [of s] that
    by (simp add: block_live_init_def block_good_def)
  show "block_good s' \<and> (\<exists>ms. requests s' = requests s @ ms)" if "block_good s" "block_live_step s s'"
    using block_good_step [OF that] probe_step_drain [of s s'] that(2) by (simp add: block_live_step_def)
  show "finished block_view s' u"
    if "block_good s" "block_live_step s s'" "u < length (requests s)" "finished block_view s u"
    using block_finished_step [OF that(1-3)] that(4) by simp
  show "block_good (store_read_index block_view e s)" if "block_good s"
    using block_good_store [OF that] by simp
  show "finished block_view (store_read_index block_view e s) = finished block_view s"
    by (auto simp: fun_eq_iff copying_def)
  show "unat (write_hint block_view s) \<le> length (requests s)" if "block_good s"
    using block_good_bounds(3) [OF that] by simp
  show "unat e < length (requests s) \<and> finished block_view s (unat e)"
    if "block_good s" "e \<noteq> 0"
      "slot_word block_view s (slot_of (slot_count block_view) e) (metric_width block_view) = e"
    using stamp_means_done [OF _ _ that(2), of s] that by (simp add: block_good_def slot_of_def)
  show "slot_word block_view s (u mod slot_count block_view) k = (metric_words (requests s ! u) @ [of_nat u]) ! k"
    if "block_good s" "finished block_view s u" "u \<notin> late_requests s" "u < length (requests s)"
      "length (requests s) \<le> u + slot_count block_view" "k \<le> metric_width block_view"
    using that request_recorded(1) [of s u] request_recorded(2) [of s u k]
    by (cases "k = 8") (simp_all add: block_good_def nth_append)
  show "(u \<notin> late_requests s') = (u \<notin> late_requests s)"
    if "block_good s" "block_live_step s s'" "u < length (requests s)"
    using late_request_stays [of s s' u] block_good_bounds [OF that(1)] that(2,3)
    by (simp add: block_live_step_def)
qed (auto simp: block_good_def fun_eq_iff block_store_rd_def)

section \<open>Example runs\<close>

text \<open>Two requests and then a reader that nothing disturbs.\<close>

definition small_write :: block_io_metric where
  "small_write = zero_block_metric\<lparr>bytes := 512\<rparr>"

lemma two_requests:
  obtains s where "block_live_init s" "requests s = [zero_block_metric, small_write]" "late_requests s = {}"
    "\<And>u. finished block_view s u" "finished_now block_view s 1" "rd_idx (block_ctl (bpage s)) = 0"
    "wr_idx (block_ctl (bpage s)) = 2" "bword s 8 = 0" "bword s 24 = 1"
proof -
  obtain b where b: "block_reach b" "probes b = (\<lambda>c. B_idle)" "requests b = [zero_block_metric]"
    "late_requests b = {}" using probe_request [OF block_reach.start, of zero_block_metric] by (auto simp: block_smp_start_def)
  obtain c where c: "block_reach c" "probes c = (\<lambda>c. B_idle)" "requests c = [zero_block_metric, small_write]"
    "late_requests c = {}" using probe_request [OF b(1,2), of small_write] b(3,4) by auto
  have "block_cpus_ok c" using block_reach_inv [OF c(1)] c(3) by (simp add: block_smp_inv_def)
  then have hint: "wr_idx (block_ctl (bpage c)) = 2" using c(3) by (simp add: block_cpus_ok_def)
  have idle: "finished block_view c u" for u using c(2) by (simp add: copying_def)
  show thesis
    by (rule that [of c])
      (use c idle hint block_reach_rd [OF c(1)] idle_slot(1) [OF c(1) _ c(2), of 0]
        idle_slot(1) [OF c(1) _ c(2), of 1] in \<open>simp_all add: block_live_init_def finished_now_def\<close>)
qed

lemma block_skip_run:
  "\<exists>s ws b. live_reach block_view Skip_Ahead block_live_init block_live_step s
    \<and> requests (live_page s) = [zero_block_metric, small_write] \<and> late_requests (live_page s) = {}
    \<and> Accepted 1 ws 2 b \<in> set (live_log s)"
proof -
  let ?R = "live_reach block_view Skip_Ahead block_live_init block_live_step"
  obtain r where r: "block_live_init r" "requests r = [zero_block_metric, small_write]" "late_requests r = {}"
    "rd_idx (block_ctl (bpage r)) = 0" "wr_idx (block_ctl (bpage r)) = 2" "bword r 8 = 0" "bword r 24 = 1"
    by (rule two_requests)
  have "?R \<lparr>live_page = r, live_pc = Batch 0, live_log = []\<rparr>"
    using live_reach.start [where init = block_live_init and v = block_view, OF r(1)] r(4) by simp
  from live_reach.walk [OF this walk_step.hint [OF _ refl]]
  have "?R \<lparr>live_page = r, live_pc = Skip 0 2, live_log = []\<rparr>" by (simp add: r(5))
  from skip_accepts [OF this, of 0 2] r(6)
  obtain t where t: "?R t" "live_page t = r" "live_pc t = Skip 1 2"
    by (force simp: within_def slot_of_def)
  show ?thesis
    using skip_accepts [OF t(1,3)] r(2,3,7) t(2) by (force simp: within_def slot_of_def)
qed

lemma block_gather_run:
  "\<exists>s ws. live_reach block_view Scatter_Gather block_live_init block_live_step s
    \<and> requests (live_page s) = [zero_block_metric, small_write] \<and> late_requests (live_page s) = {}
    \<and> Accepted 1 ws 2 True \<in> set (live_log s)"
proof -
  let ?R = "live_reach block_view Scatter_Gather block_live_init block_live_step"
  obtain r where r: "block_live_init r" "requests r = [zero_block_metric, small_write]" "late_requests r = {}"
    "finished_now block_view r 1" "rd_idx (block_ctl (bpage r)) = 0" "bword r 8 = 0" "bword r 24 = 1"
    by (rule two_requests)
  let ?local = "part_copy block_view r ({..<slot_count block_view} \<times> {..metric_width block_view})"
  let ?S = "finished_now block_view r"
  have "?R \<lparr>live_page = r, live_pc = Batch 0, live_log = []\<rparr>"
    using live_reach.start [where init = block_live_init and v = block_view, OF r(1)] r(5) by simp
  from snapshot_run [OF this]
  have g: "?R \<lparr>live_page = r, live_pc = Gather 0 ?local ?S 2, live_log = []\<rparr>"
    by (simp add: r(2) numeral_2_eq_2)
  from gathers [OF g, of 0 ?local ?S 2] r(6)
  obtain t where t: "?R t" "live_page t = r" "live_pc t = Gather 1 ?local ?S 2"
    by (force simp: slot_of_def)
  show ?thesis
    using gathers [OF t(1,3) refl] r(2,3,4,7) t(2) by (force simp: slot_of_def)
qed

section \<open>Properties of the consumer of the block ring\<close>

text \<open>
  C5. The block consumer in Skip-Ahead mode never makes up a request, while fewer than \<open>2 ^ 31\<close>
  were claimed, however its loads interleave with the probe on all CPUs: the tickets it prints go
  up, each of them but 0, the stamp of a slot that was never used, had been handed out, and the
  line of such a ticket has the eight recorded words and the ticket, under two conditions: when the
  line was complete at most 8 tickets had been handed out from this one on, and the ticket is not
  late, that is, it was not drawn while a CPU that had been lapped was still copying into the slot.
\<close>

theorem block_skip_ahead_live:
  assumes "live_reach block_view Skip_Ahead block_live_init block_live_step s"
  shows "sorted_wrt (<) (map unat (tickets (live_log s)))
    \<and> (\<forall>t ws c b. Accepted t ws c b \<in> set (live_log s) \<longrightarrow> t \<noteq> 0 \<longrightarrow>
         unat t < c \<and> c \<le> length (requests (live_page s))
         \<and> (c \<le> unat t + BLOCKFILTER_SLOT_CAPACITY \<and> unat t \<notin> late_requests (live_page s) \<longrightarrow>
              ws = metric_words (requests (live_page s) ! unat t) @ [t]))"
  using block_live.live_log(1,2) [OF assms] block_live.live_log_whole [OF assms]
  unfolding block_live.content_def of_nat_unat by (simp add: block_slot_capacity) metis

theorem block_skip_ahead_live_witness:
  "\<exists>s b. live_reach block_view Skip_Ahead block_live_init block_live_step s
    \<and> Accepted 1 [0, 0, 0, 0, 0, 512, 0, 0, 1] 2 b \<in> set (live_log s)"
proof -
  obtain s ws b where s: "live_reach block_view Skip_Ahead block_live_init block_live_step s"
    "requests (live_page s) = [zero_block_metric, small_write]" "Accepted 1 ws 2 b \<in> set (live_log s)"
    "late_requests (live_page s) = {}" using block_skip_run by blast
  have "ws = metric_words small_write @ [1]"
    using block_skip_ahead_live [OF s(1), THEN conjunct2, rule_format, OF s(3)] s(2,4)
    by (simp add: block_slot_capacity)
  then have "ws = [0, 0, 0, 0, 0, 512, 0, 0, 1]"
    by (simp add: metric_words_def small_write_def zero_block_metric_def)
  then show ?thesis using s by blast
qed

text \<open>
  C20. The block consumer in Scatter-Gather mode against the running probe, while fewer than
  \<open>2 ^ 31\<close> requests were claimed. The tickets it prints are consecutive, and each of them but 0 had
  been handed out. The line of such a ticket is the recorded request under three conditions: the
  probe was done with it when the copy of the buffer began, when the copy was complete at most 8
  tickets had been handed out from this one on, and the ticket is not late.
\<close>

theorem block_scatter_gather_live:
  assumes "live_reach block_view Scatter_Gather block_live_init block_live_step s"
  shows "(\<exists>a. map unat (tickets (live_log s)) = [a..<unat (expected (live_pc s))])
    \<and> (\<forall>t ws c b. Accepted t ws c b \<in> set (live_log s) \<longrightarrow> t \<noteq> 0 \<longrightarrow>
         unat t < c \<and> c \<le> length (requests (live_page s))
         \<and> (b \<and> c \<le> unat t + BLOCKFILTER_SLOT_CAPACITY \<and> unat t \<notin> late_requests (live_page s) \<longrightarrow>
              ws = metric_words (requests (live_page s) ! unat t) @ [t]))"
  using block_live.live_log(2) [OF assms] block_live.live_log_consecutive [OF assms]
  unfolding block_live.content_def of_nat_unat by (simp add: block_slot_capacity)

theorem block_scatter_gather_live_witness:
  "\<exists>s. live_reach block_view Scatter_Gather block_live_init block_live_step s
    \<and> Accepted 1 [0, 0, 0, 0, 0, 512, 0, 0, 1] 2 True \<in> set (live_log s)"
proof -
  obtain s ws where s: "live_reach block_view Scatter_Gather block_live_init block_live_step s"
    "requests (live_page s) = [zero_block_metric, small_write]" "Accepted 1 ws 2 True \<in> set (live_log s)"
    "late_requests (live_page s) = {}" using block_gather_run by blast
  have "ws = metric_words small_write @ [1]"
    using block_scatter_gather_live [OF s(1), THEN conjunct2, rule_format, OF s(3)] s(2,4)
    by (simp add: block_slot_capacity)
  then have "ws = [0, 0, 0, 0, 0, 512, 0, 0, 1]"
    by (simp add: metric_words_def small_write_def zero_block_metric_def)
  then show ?thesis using s by blast
qed

end
