(* ===== verification/Whole.thy ===== *)
theory Whole
  imports Tenants ReadSMP NetLive BlockLive
begin

text \<open>
  The concurrent components on the one page they share: the writers, pushers and consumers of
  the character stream, the packet hook on any number of CPUs with its consumer, and the block
  probe on any number of CPUs with its consumer, each in the steps of its own theory, interleaved
  in any way. What holds of a component by itself holds of it in the whole.
\<close>

section \<open>The steps of a component with foreign parts of the page exchanged\<close>

definition char_on :: "shared_ring \<Rightarrow> char_smp \<Rightarrow> char_smp" where
  "char_on q s = s\<lparr>kring := graft Tenant_char q (kring s)\<rparr>"

definition sys_on :: "shared_ring \<Rightarrow> char_sys \<Rightarrow> char_sys" where
  "sys_on q s = s\<lparr>smp := char_on q (smp s)\<rparr>"

definition net_on :: "shared_ring \<Rightarrow> smp \<Rightarrow> smp" where
  "net_on q s = s\<lparr>spage := graft Tenant_net q (spage s)\<rparr>"

definition block_on :: "shared_ring \<Rightarrow> block_smp \<Rightarrow> block_smp" where
  "block_on q s = s\<lparr>bpage := graft Tenant_block q (bpage s)\<rparr>"

lemma char_on_simps [simp]:
  "spinlock (char_on q s) = spinlock s" "writers (char_on q s) = writers s" "consumer (char_on q s) = consumer s"
  "kicks (char_on q s) = kicks s" "committed (char_on q s) = committed s" "received (char_on q s) = received s"
  "submitted (char_on q s) = submitted s" "kring (char_on q s) = graft Tenant_char q (kring s)"
  by (simp_all add: char_on_def)

lemma char_on_updates [simp]:
  "(char_on q s)\<lparr>writers := ws\<rparr> = char_on q (s\<lparr>writers := ws\<rparr>)"
  "(char_on q s)\<lparr>submitted := x1\<rparr> = char_on q (s\<lparr>submitted := x1\<rparr>)"
  "(char_on q s)\<lparr>spinlock := x2\<rparr> = char_on q (s\<lparr>spinlock := x2\<rparr>)"
  "(char_on q s)\<lparr>consumer := x3\<rparr> = char_on q (s\<lparr>consumer := x3\<rparr>)"
  "(char_on q s)\<lparr>kicks := x4\<rparr> = char_on q (s\<lparr>kicks := x4\<rparr>)"
  "(char_on q s)\<lparr>committed := x5\<rparr> = char_on q (s\<lparr>committed := x5\<rparr>)"
  "(char_on q s)\<lparr>received := x6\<rparr> = char_on q (s\<lparr>received := x6\<rparr>)"
  "(char_on q s)\<lparr>kring := graft Tenant_char q r\<rparr> = char_on q (s\<lparr>kring := r\<rparr>)"
  by (cases s; simp add: char_on_def)+

lemma graft_flags [simp]:
  "raise_asleep (graft Tenant_char q r) = graft Tenant_char q (raise_asleep r)"
  "clear_asleep (graft Tenant_char q r) = graft Tenant_char q (clear_asleep r)"
  by (simp_all add: raise_asleep_def clear_asleep_def)

lemmas writer_step_on = writer_step.intros [of "char_on q s" for q s, simplified]
lemmas consumer_step_on = consumer_step.intros [of "char_on q s" for q s, simplified]

lemma writer_step_graft: "writer_step s s' \<Longrightarrow> writer_step (char_on q s) (char_on q s')"
  by (erule writer_step.cases) (auto intro: writer_step_on split del: if_split)

lemma consumer_step_graft: "consumer_step s s' \<Longrightarrow> consumer_step (char_on q s) (char_on q s')"
  by (erule consumer_step.cases) (auto intro: consumer_step_on)

lemma sys_on_simps [simp]:
  "smp (sys_on q s) = char_on q (smp s)" "readers (sys_on q s) = readers s" "got (sys_on q s) = got s"
  "(sys_on q s)\<lparr>readers := rs\<rparr> = sys_on q (s\<lparr>readers := rs\<rparr>)"
  "(sys_on q s)\<lparr>got := g\<rparr> = sys_on q (s\<lparr>got := g\<rparr>)"
  "(sys_on q s)\<lparr>smp := char_on q t\<rparr> = sys_on q (s\<lparr>smp := t\<rparr>)"
  by (cases s; simp add: sys_on_def)+

lemma reads_on [simp]:
  "read_return n (char_on q t) = char_on q (read_return n t)"
  "advance_rd rd (char_on q t) = char_on q (advance_rd rd t)"
  by (simp_all add: read_return_def advance_rd_def)

lemmas reader_step_on = reader_step.intros [of "sys_on q s" for q s, simplified]

lemma reader_step_graft: "reader_step i s s' \<Longrightarrow> reader_step i (sys_on q s) (sys_on q s')"
  by (erule reader_step.cases) (auto intro: reader_step_on)

text \<open>The packet hook and the block probe.\<close>

lemma graft_net_updates [simp]:
  "(graft Tenant_net q r)\<lparr>net_buffer := b\<rparr> = graft Tenant_net q (r\<lparr>net_buffer := b\<rparr>)"
  "(graft Tenant_net q r)\<lparr>net_ctl := c\<rparr> = graft Tenant_net q (r\<lparr>net_ctl := c\<rparr>)"
  "stamp_slot i t (graft Tenant_net q r) = graft Tenant_net q (stamp_slot i t r)"
  "net_store_rd e (graft Tenant_net q r) = graft Tenant_net q (net_store_rd e r)"
  by (simp_all add: graft.simps stamp_slot_def net_store_rd_def)

lemma graft_block_updates [simp]:
  "block_ctl (graft Tenant_block q r) = block_ctl r" "block_buffer (graft Tenant_block q r) = block_buffer r"
  "(graft Tenant_block q r)\<lparr>block_ctl := c\<rparr> = graft Tenant_block q (r\<lparr>block_ctl := c\<rparr>)"
  "set_block_pool b (graft Tenant_block q r) = graft Tenant_block q (set_block_pool b r)"
  "block_store_rd e (graft Tenant_block q r) = graft Tenant_block q (block_store_rd e r)"
  by (simp_all add: graft.simps set_block_pool_def block_store_rd_def)

lemma net_on_simps [simp]:
  "spage (net_on q s) = graft Tenant_net q (spage s)" "cpus (net_on q s) = cpus s" "arrived (net_on q s) = arrived s"
  "late (net_on q s) = late s"
  "(net_on q s)\<lparr>cpus := x\<rparr> = net_on q (s\<lparr>cpus := x\<rparr>)"
  "(net_on q s)\<lparr>arrived := y\<rparr> = net_on q (s\<lparr>arrived := y\<rparr>)"
  "(net_on q s)\<lparr>late := z\<rparr> = net_on q (s\<lparr>late := z\<rparr>)"
  "(net_on q s)\<lparr>spage := graft Tenant_net q r\<rparr> = net_on q (s\<lparr>spage := r\<rparr>)"
  by (cases s; simp add: net_on_def)+

lemma block_on_simps [simp]:
  "bpage (block_on q s) = graft Tenant_block q (bpage s)" "probes (block_on q s) = probes s"
  "drain (block_on q s) = drain s" "requests (block_on q s) = requests s"
  "late_requests (block_on q s) = late_requests s"
  "(block_on q s)\<lparr>probes := x\<rparr> = block_on q (s\<lparr>probes := x\<rparr>)"
  "(block_on q s)\<lparr>requests := y\<rparr> = block_on q (s\<lparr>requests := y\<rparr>)"
  "(block_on q s)\<lparr>late_requests := z\<rparr> = block_on q (s\<lparr>late_requests := z\<rparr>)"
  "(block_on q s)\<lparr>bpage := graft Tenant_block q r\<rparr> = block_on q (s\<lparr>bpage := r\<rparr>)"
  by (cases s; simp add: block_on_def)+

lemma late_on [simp]:
  "late_claim (net_on q s) t = late_claim s t" "late_request (block_on q u) t = late_request u t"
proof -
  have "slot_busy (net_on q s) t = slot_busy s t" "block_slot_busy (block_on q u) t = block_slot_busy u t"
    by (simp_all add: slot_busy_def block_slot_busy_def)
  then show "late_claim (net_on q s) t = late_claim s t" "late_request (block_on q u) t = late_request u t"
    by (simp_all add: late_claim_def late_request_def)
qed

lemmas smp_step_on = smp_step.intros [of "net_on q s" for q s, simplified]
lemmas probe_step_on = probe_smp_step.intros [of "block_on q s" for q s, simplified]

lemma smp_step_graft:
  assumes "smp_step s s'"
  shows "smp_step (net_on q s) (net_on q s')"
  using assms
proof (cases rule: smp_step.cases)
  case (claim c t r m)
  then have "claim_ticket (graft Tenant_net q (spage s)) = (t, graft Tenant_net q r)"
    by (auto simp: claim_ticket_def)
  from smp_step.claim [of "net_on q s" c t _ m, OF _ this [folded net_on_simps(1)]] claim
  show ?thesis by simp
qed (auto intro: smp_step_on)

lemma probe_step_graft: "probe_smp_step s s' \<Longrightarrow> probe_smp_step (block_on q s) (block_on q s')"
  by (erule probe_smp_step.cases) (auto intro: probe_step_on)

lemma net_walk_graft:
  "walk_step net_view mode s s' \<Longrightarrow> walk_step net_view mode (live_map (net_on q) s) (live_map (net_on q) s')"
  by (rule walk_step_map) (auto simp: fun_eq_iff storing_def)

lemma block_walk_graft:
  "walk_step block_view mode s s' \<Longrightarrow>
    walk_step block_view mode (live_map (block_on q) s) (live_map (block_on q) s')"
  by (rule walk_step_map) (auto simp: fun_eq_iff copying_def)

text \<open>What a component does to the page is in its own part.\<close>

lemma graft_graft [simp]:
  "graft k q (graft k r s) = graft k q s" "j \<noteq> k \<Longrightarrow> graft j q (graft k r s) = graft j q r"
  "graft k r r = r"
  by (cases k; cases j; simp add: graft.simps)+

lemma writer_step_own: "writer_step s s' \<Longrightarrow> kring s' = graft Tenant_char (kring s) (kring s')"
  by (erule writer_step.cases)
    (simp_all add: graft.simps page_update_defs raise_asleep_def clear_asleep_def)

lemma consumer_step_own: "consumer_step s s' \<Longrightarrow> kring s' = graft Tenant_char (kring s) (kring s')"
  by (erule consumer_step.cases) (simp_all add: graft.simps page_update_defs)

lemma reader_step_own:
  "reader_step i s s' \<Longrightarrow> kring (smp s') = graft Tenant_char (kring (smp s)) (kring (smp s'))"
  by (erule reader_step.cases) (simp_all add: graft.simps page_update_defs advance_rd_def)

lemma smp_step_own: "smp_step s s' \<Longrightarrow> spage s' = graft Tenant_net (spage s) (spage s')"
  by (erule smp_step.cases) (auto simp: graft.simps claim_ticket_def stamp_slot_def)

lemma probe_step_own: "probe_smp_step s s' \<Longrightarrow> bpage s' = graft Tenant_block (bpage s) (bpage s')"
  by (erule probe_smp_step.cases) (simp_all add: graft.simps set_block_pool_def)

lemma net_walk_own:
  "walk_step net_view mode s s' \<Longrightarrow> spage (live_page s') = graft Tenant_net (spage (live_page s)) (spage (live_page s'))"
  by (erule walk_step.cases) (simp_all add: graft.simps net_store_rd_def)

lemma block_walk_own:
  "walk_step block_view mode s s' \<Longrightarrow>
    bpage (live_page s') = graft Tenant_block (bpage (live_page s)) (bpage (live_page s'))"
  by (erule walk_step.cases) (simp_all add: graft.simps block_store_rd_def)

section \<open>The whole system\<close>

text \<open>
  The page is there once; the copies of it in the states of the components are replaced by it
  before every step. The stream is drained either through the mapping or by one reader of the
  device, and writers, CPUs and threads are as many as their theories allow. The diagnostic read
  of the network slots can be called at any time; what it has printed is that of its last call.
\<close>

datatype stream_party = Zero_copy | Reading

record whole =
  wpage :: shared_ring
  stream :: char_sys
  packets :: "smp live"
  blocks :: "block_smp live"
  diag :: "smp dump"

definition stream_at :: "whole \<Rightarrow> char_sys" where
  "stream_at S = (stream S)\<lparr>smp := (smp (stream S))\<lparr>kring := wpage S\<rparr>\<rparr>"

definition packets_at :: "whole \<Rightarrow> smp live" where
  "packets_at S = live_map (\<lambda>s. s\<lparr>spage := wpage S\<rparr>) (packets S)"

definition blocks_at :: "whole \<Rightarrow> block_smp live" where
  "blocks_at S = live_map (\<lambda>s. s\<lparr>bpage := wpage S\<rparr>) (blocks S)"

definition diag_at :: "whole \<Rightarrow> smp dump" where
  "diag_at S = (diag S)\<lparr>dump_page := live_page (packets_at S)\<rparr>"

definition whole_start :: whole where
  "whole_start = \<lparr>wpage = zeroed_page, stream = char_sys_start,
     packets = \<lparr>live_page = smp_start, live_pc = Batch 0, live_log = []\<rparr>,
     blocks = \<lparr>live_page = block_smp_start, live_pc = Batch 0, live_log = []\<rparr>,
     diag = dump_begin net_view smp_start\<rparr>"

inductive whole_step :: "stream_party \<Rightarrow> engine \<Rightarrow> engine \<Rightarrow> whole \<Rightarrow> whole \<Rightarrow> bool"
  for party mode bmode where
  writes: "writer_step (smp (stream_at S)) t \<Longrightarrow>
    whole_step party mode bmode S (S\<lparr>wpage := kring t, stream := (stream S)\<lparr>smp := t\<rparr>\<rparr>)"
| drains: "party = Zero_copy \<Longrightarrow> consumer_step (smp (stream_at S)) t \<Longrightarrow>
    whole_step party mode bmode S (S\<lparr>wpage := kring t, stream := (stream S)\<lparr>smp := t\<rparr>\<rparr>)"
| reads: "party = Reading \<Longrightarrow> reader_step 0 (stream_at S) t \<Longrightarrow>
    whole_step party mode bmode S (S\<lparr>wpage := kring (smp t), stream := t\<rparr>)"
| packet: "net_live_step (live_page (packets_at S)) r \<Longrightarrow>
    whole_step party mode bmode S (S\<lparr>wpage := spage r, packets := (packets S)\<lparr>live_page := r\<rparr>\<rparr>)"
| packet_walk: "walk_step net_view mode (packets_at S) p \<Longrightarrow>
    whole_step party mode bmode S (S\<lparr>wpage := spage (live_page p), packets := p\<rparr>)"
| request: "block_live_step (live_page (blocks_at S)) r \<Longrightarrow>
    whole_step party mode bmode S (S\<lparr>wpage := bpage r, blocks := (blocks S)\<lparr>live_page := r\<rparr>\<rparr>)"
| block_walk: "walk_step block_view bmode (blocks_at S) b \<Longrightarrow>
    whole_step party mode bmode S (S\<lparr>wpage := bpage (live_page b), blocks := b\<rparr>)"
| diag_call: "whole_step party mode bmode S (S\<lparr>diag := dump_begin net_view (live_page (packets_at S))\<rparr>)"
| diag_walk: "dump_step net_view (diag_at S) d \<Longrightarrow> whole_step party mode bmode S (S\<lparr>diag := d\<rparr>)"

inductive whole_reach :: "stream_party \<Rightarrow> engine \<Rightarrow> engine \<Rightarrow> whole \<Rightarrow> bool" for party mode bmode where
  start: "whole_reach party mode bmode whole_start"
| step: "whole_reach party mode bmode S \<Longrightarrow> whole_step party mode bmode S S' \<Longrightarrow>
    whole_reach party mode bmode S'"

text \<open>The state of a component as if its part of the page were the only one in use.\<close>

definition stream_alone :: "whole \<Rightarrow> char_sys" where
  "stream_alone S = sys_on zeroed_page (stream_at S)"

definition packets_alone :: "whole \<Rightarrow> smp live" where
  "packets_alone S = live_map (net_on zeroed_page) (packets_at S)"

definition blocks_alone :: "whole \<Rightarrow> block_smp live" where
  "blocks_alone S = live_map (block_on zeroed_page) (blocks_at S)"

lemmas alone_defs = stream_alone_def packets_alone_def blocks_alone_def stream_at_def packets_at_def
  blocks_at_def sys_on_def char_on_def net_on_def block_on_def live_map_def

lemma at_pages [simp]:
  "kring (smp (stream_at S)) = wpage S" "spage (live_page (packets_at S)) = wpage S"
  "bpage (live_page (blocks_at S)) = wpage S"
  by (simp_all add: stream_at_def packets_at_def blocks_at_def)

lemma diag_only:
  "stream_alone (S\<lparr>diag := d\<rparr>) = stream_alone S" "packets_alone (S\<lparr>diag := d\<rparr>) = packets_alone S"
  "blocks_alone (S\<lparr>diag := d\<rparr>) = blocks_alone S"
  by (simp_all add: alone_defs)

text \<open>A step in the part of one tenant is no step of the others.\<close>

lemma others_alone:
  assumes "wpage S' = graft k (wpage S) r"
  shows "k \<noteq> Tenant_char \<Longrightarrow> stream S' = stream S \<Longrightarrow> stream_alone S' = stream_alone S"
    and "k \<noteq> Tenant_net \<Longrightarrow> packets S' = packets S \<Longrightarrow> packets_alone S' = packets_alone S"
    and "k \<noteq> Tenant_block \<Longrightarrow> blocks S' = blocks S \<Longrightarrow> blocks_alone S' = blocks_alone S"
  using assms by (auto simp: alone_defs)

definition stream_run :: "stream_party \<Rightarrow> char_sys \<Rightarrow> bool" where
  "stream_run party s = (case party of Zero_copy \<Rightarrow> char_reach (smp s) | Reading \<Rightarrow> one_reader_reach s)"

definition whole_inv :: "stream_party \<Rightarrow> engine \<Rightarrow> engine \<Rightarrow> whole \<Rightarrow> bool" where
  "whole_inv party mode bmode S \<longleftrightarrow> stream_run party (stream_alone S)
     \<and> live_reach net_view mode net_live_init net_live_step (packets_alone S)
     \<and> live_reach block_view bmode block_live_init block_live_step (blocks_alone S)"

lemma whole_inv_start: "whole_inv party mode bmode whole_start"
proof -
  have "stream_alone whole_start = char_sys_start" "packets_alone whole_start = packets whole_start"
    "blocks_alone whole_start = blocks whole_start"
    by (simp_all add: alone_defs whole_start_def char_sys_start_def char_smp_start_def smp_start_def
        block_smp_start_def)
  moreover have "live_reach net_view mode net_live_init net_live_step (packets whole_start)"
    using live_reach.start [where v = net_view and init = net_live_init and r = smp_start]
    by (simp add: whole_start_def net_live_init_def smp_reach.start)
      (simp add: smp_start_def zeroed_page_def)
  moreover have "live_reach block_view bmode block_live_init block_live_step (blocks whole_start)"
    using live_reach.start [where v = block_view and init = block_live_init and r = block_smp_start]
    by (simp add: whole_start_def block_live_init_def block_reach.start)
      (simp add: block_smp_start_def zeroed_page_def zero_lane_def)
  ultimately show ?thesis
    using char_reach.start one_reader_reach.start
    by (simp add: whole_inv_def stream_run_def char_sys_start_def split: stream_party.split)
qed

lemma stream_step_alone:
  assumes "writer_step (smp (stream_at S)) t \<or> party = Zero_copy \<and> consumer_step (smp (stream_at S)) t"
    and "stream_run party (stream_alone S)" and S': "wpage S' = kring t" "stream S' = (stream S)\<lparr>smp := t\<rparr>"
  shows "stream_run party (stream_alone S')" "wpage S' = graft Tenant_char (wpage S) (kring t)"
proof -
  have new: "stream_alone S' = (stream_alone S)\<lparr>smp := char_on zeroed_page t\<rparr>"
    using S' by (simp add: stream_alone_def stream_at_def sys_on_def)
  have old: "smp (stream_alone S) = char_on zeroed_page (smp (stream_at S))"
    by (simp add: stream_alone_def)
  from assms(1) have steps: "writer_step (smp (stream_alone S)) (char_on zeroed_page t)
      \<or> party = Zero_copy \<and> consumer_step (smp (stream_alone S)) (char_on zeroed_page t)"
    unfolding old using writer_step_graft consumer_step_graft by blast
  show "stream_run party (stream_alone S')"
  proof (cases party)
    case Zero_copy
    then have "char_reach (smp (stream_alone S))" using assms(2) by (simp add: stream_run_def)
    then have "char_reach (char_on zeroed_page t)"
      using steps char_reach.writer char_reach.consumer by blast
    then show ?thesis using Zero_copy by (simp add: stream_run_def new)
  next
    case Reading
    then have "one_reader_reach (stream_alone S)" "writer_step (smp (stream_alone S)) (char_on zeroed_page t)"
      using assms(2) steps by (simp_all add: stream_run_def)
    from one_reader_reach.writer [OF this] show ?thesis using Reading by (simp add: stream_run_def new)
  qed
  show "wpage S' = graft Tenant_char (wpage S) (kring t)"
    unfolding S'(1)
    using assms(1) writer_step_own [of "smp (stream_at S)"] consumer_step_own [of "smp (stream_at S)"]
    unfolding at_pages by blast
qed

lemma read_step_alone:
  assumes "reader_step 0 (stream_at S) t" "stream_run Reading (stream_alone S)"
    and S': "wpage S' = kring (smp t)" "stream S' = t"
  shows "stream_run Reading (stream_alone S')" "wpage S' = graft Tenant_char (wpage S) (kring (smp t))"
proof -
  have "stream_alone S' = sys_on zeroed_page t" using S' by (simp add: stream_alone_def stream_at_def)
  moreover have "reader_step 0 (stream_alone S) (sys_on zeroed_page t)"
    unfolding stream_alone_def by (rule reader_step_graft [OF assms(1)])
  ultimately show "stream_run Reading (stream_alone S')"
    using assms(2) one_reader_reach.reader by (simp add: stream_run_def)
  show "wpage S' = graft Tenant_char (wpage S) (kring (smp t))"
    unfolding S'(1) by (rule reader_step_own [OF assms(1), unfolded at_pages])
qed

lemma packet_step_alone:
  assumes "net_live_step (live_page (packets_at S)) r"
    and "live_reach net_view mode net_live_init net_live_step (packets_alone S)"
    and S': "wpage S' = spage r" "packets S' = (packets S)\<lparr>live_page := r\<rparr>"
  shows "live_reach net_view mode net_live_init net_live_step (packets_alone S')"
    "wpage S' = graft Tenant_net (wpage S) (spage r)"
    "net_live_step (live_page (packets_alone S)) (live_page (packets_alone S'))"
proof -
  have new: "packets_alone S' = (packets_alone S)\<lparr>live_page := net_on zeroed_page r\<rparr>"
    using S' by (simp add: packets_alone_def packets_at_def live_map_def)
  have ring: "net_live_step (live_page (packets_alone S)) (net_on zeroed_page r)"
    using assms(1) smp_step_graft by (simp add: net_live_step_def packets_alone_def)
  then show "net_live_step (live_page (packets_alone S)) (live_page (packets_alone S'))"
    by (simp add: new)
  from live_reach.ring [OF assms(2) ring]
  show "live_reach net_view mode net_live_init net_live_step (packets_alone S')" unfolding new .
  have "smp_step (live_page (packets_at S)) r" using assms(1) by (simp add: net_live_step_def)
  then show "wpage S' = graft Tenant_net (wpage S) (spage r)"
    unfolding S'(1) by (rule smp_step_own [of "live_page (packets_at S)", unfolded at_pages])
qed

lemma request_step_alone:
  assumes "block_live_step (live_page (blocks_at S)) r"
    and "live_reach block_view mode block_live_init block_live_step (blocks_alone S)"
    and S': "wpage S' = bpage r" "blocks S' = (blocks S)\<lparr>live_page := r\<rparr>"
  shows "live_reach block_view mode block_live_init block_live_step (blocks_alone S')"
    "wpage S' = graft Tenant_block (wpage S) (bpage r)"
proof -
  have new: "blocks_alone S' = (blocks_alone S)\<lparr>live_page := block_on zeroed_page r\<rparr>"
    using S' by (simp add: blocks_alone_def blocks_at_def live_map_def)
  have "block_live_step (live_page (blocks_alone S)) (block_on zeroed_page r)"
    using assms(1) probe_step_graft by (simp add: block_live_step_def blocks_alone_def)
  from live_reach.ring [OF assms(2) this]
  show "live_reach block_view mode block_live_init block_live_step (blocks_alone S')" unfolding new .
  have "probe_smp_step (live_page (blocks_at S)) r" using assms(1) by (simp add: block_live_step_def)
  then show "wpage S' = graft Tenant_block (wpage S) (bpage r)"
    unfolding S'(1) by (rule probe_step_own [of "live_page (blocks_at S)", unfolded at_pages])
qed

lemma packet_walk_alone:
  assumes "walk_step net_view mode (packets_at S) p" "wpage S' = spage (live_page p)" "packets S' = p"
  shows "walk_step net_view mode (packets_alone S) (packets_alone S')"
    "wpage S' = graft Tenant_net (wpage S) (spage (live_page p))"
proof -
  have "packets_at S' = p" using assms(2,3) by (simp add: packets_at_def live_map_def)
  then show "walk_step net_view mode (packets_alone S) (packets_alone S')"
    unfolding packets_alone_def using net_walk_graft [OF assms(1)] by simp
  show "wpage S' = graft Tenant_net (wpage S) (spage (live_page p))"
    unfolding assms(2) by (rule net_walk_own [OF assms(1), unfolded at_pages])
qed

lemma block_walk_alone:
  assumes "walk_step block_view mode (blocks_at S) b" "wpage S' = bpage (live_page b)" "blocks S' = b"
  shows "walk_step block_view mode (blocks_alone S) (blocks_alone S')"
    "wpage S' = graft Tenant_block (wpage S) (bpage (live_page b))"
proof -
  have "blocks_at S' = b" using assms(2,3) by (simp add: blocks_at_def live_map_def)
  then show "walk_step block_view mode (blocks_alone S) (blocks_alone S')"
    unfolding blocks_alone_def using block_walk_graft [OF assms(1)] by simp
  show "wpage S' = graft Tenant_block (wpage S) (bpage (live_page b))"
    unfolding assms(2) by (rule block_walk_own [OF assms(1), unfolded at_pages])
qed

lemma whole_inv_step:
  assumes "whole_step party mode bmode S S'" "whole_inv party mode bmode S"
  shows "whole_inv party mode bmode S'"
  using assms
proof (cases rule: whole_step.cases)
  case (writes t)
  then show ?thesis
    using stream_step_alone [of S t party S'] others_alone [of S' Tenant_char S "kring t"] assms(2)
    by (simp add: whole_inv_def)
next
  case (drains t)
  then show ?thesis
    using stream_step_alone [of S t party S'] others_alone [of S' Tenant_char S "kring t"] assms(2)
    by (simp add: whole_inv_def)
next
  case (reads t)
  then show ?thesis
    using read_step_alone [of S t S'] others_alone [of S' Tenant_char S "kring (smp t)"] assms(2)
    by (simp add: whole_inv_def)
next
  case (packet r)
  then show ?thesis
    using packet_step_alone [of S r mode S'] others_alone [of S' Tenant_net S "spage r"] assms(2)
    by (simp add: whole_inv_def)
next
  case (packet_walk p)
  then show ?thesis
    using packet_walk_alone [of mode S p S'] others_alone [of S' Tenant_net S "spage (live_page p)"] assms(2)
      live_reach.walk [of net_view mode net_live_init net_live_step "packets_alone S" "packets_alone S'"]
    by (simp add: whole_inv_def)
next
  case (request r)
  then show ?thesis
    using request_step_alone [of S r bmode S'] others_alone [of S' Tenant_block S "bpage r"] assms(2)
    by (simp add: whole_inv_def)
next
  case (block_walk b)
  then show ?thesis
    using block_walk_alone [of bmode S b S'] others_alone [of S' Tenant_block S "bpage (live_page b)"] assms(2)
      live_reach.walk [of block_view bmode block_live_init block_live_step "blocks_alone S" "blocks_alone S'"]
    by (simp add: whole_inv_def)
next
  case diag_call
  then show ?thesis using assms(2) by (simp add: whole_inv_def diag_only)
next
  case (diag_walk d)
  then show ?thesis using assms(2) by (simp add: whole_inv_def diag_only)
qed

lemma whole_reach_inv: "whole_reach party mode bmode S \<Longrightarrow> whole_inv party mode bmode S"
  by (induction rule: whole_reach.induct) (auto intro: whole_inv_start whole_inv_step)

lemma alone_fields [simp]:
  "readers (stream_alone S) = readers (stream S)" "got (stream_alone S) = got (stream S)"
  "writers (smp (stream_alone S)) = writers (smp (stream S))"
  "committed (smp (stream_alone S)) = committed (smp (stream S))"
  "received (smp (stream_alone S)) = received (smp (stream S))"
  "submitted (smp (stream_alone S)) = submitted (smp (stream S))"
  "kring (smp (stream_alone S)) = graft Tenant_char zeroed_page (wpage S)"
  "live_log (packets_alone S) = live_log (packets S)"
  "arrived (live_page (packets_alone S)) = arrived (live_page (packets S))"
  "live_log (blocks_alone S) = live_log (blocks S)"
  "requests (live_page (blocks_alone S)) = requests (live_page (blocks S))"
  "late (live_page (packets_alone S)) = late (live_page (packets S))"
  "late_requests (live_page (blocks_alone S)) = late_requests (live_page (blocks S))"
  by (simp_all add: alone_defs)

lemma graft_char_inv [simp]:
  "char_inv (graft Tenant_char q r) = char_inv r" "char_content (graft Tenant_char q r) = char_content r"
  by (simp_all add: graft.simps char_inv_def char_content_def)

text \<open>The diagnostic read.\<close>

definition diag_alone :: "whole \<Rightarrow> smp dump" where
  "diag_alone S = (diag S)\<lparr>dump_page := live_page (packets_alone S)\<rparr>"

lemma net_view_graft:
  "slot_word net_view (net_on q s) = slot_word net_view s"
  "finished_now net_view (net_on q s) = finished_now net_view s"
  "recorded_count net_view (net_on q s) = recorded_count net_view s"
  by (simp_all add: fun_eq_iff finished_now_def storing_def)

lemma diag_inv_step:
  assumes "whole_step party mode bmode S S'" "whole_inv party mode bmode S"
    and inv: "net_live.dump_inv (diag_alone S)"
  shows "net_live.dump_inv (diag_alone S')"
proof -
  have page: "live_page (packets_alone S) = net_on zeroed_page (live_page (packets_at S))"
    by (simp add: packets_alone_def)
  have same: "net_live.dump_inv (diag_alone S')" if "packets_alone S' = packets_alone S" "diag S' = diag S"
    using inv that by (simp add: diag_alone_def)
  have packets: "live_reach net_view mode net_live_init net_live_step (packets_alone S)"
    using assms(2) by (simp add: whole_inv_def)
  then have good: "net_good (live_page (packets_alone S))"
    using net_live.live_reach_inv [OF packets] by (simp add: net_live.live_inv_def)
  have stream: "stream_run party (stream_alone S)" using assms(2) by (simp add: whole_inv_def)
  have blocks: "live_reach block_view bmode block_live_init block_live_step (blocks_alone S)"
    using assms(2) by (simp add: whole_inv_def)
  show ?thesis
    using assms(1)
  proof (cases rule: whole_step.cases)
    case (writes t)
    then show ?thesis
      using stream_step_alone(2) [of S t party S'] stream others_alone(2) [of S' Tenant_char S "kring t"]
      by (intro same) simp_all
  next
    case (drains t)
    then show ?thesis
      using stream_step_alone(2) [of S t party S'] stream others_alone(2) [of S' Tenant_char S "kring t"]
      by (intro same) simp_all
  next
    case (reads t)
    then show ?thesis
      using read_step_alone(2) [of S t S'] stream others_alone(2) [of S' Tenant_char S "kring (smp t)"]
      by (intro same) simp_all
  next
    case (packet r)
    then have "diag_alone S' = (diag_alone S)\<lparr>dump_page := live_page (packets_alone S')\<rparr>"
      by (simp add: diag_alone_def)
    then show ?thesis
      using net_live.dump_inv_ring [OF inv] packet_step_alone(3) [of S r mode S'] packets packet
      by (simp add: diag_alone_def)
  next
    case (packet_walk p)
    then have "diag_alone S' = (diag_alone S)\<lparr>dump_page := live_page (packets_alone S')\<rparr>"
      by (simp add: diag_alone_def)
    then show ?thesis
      using walk_step_page [OF packet_walk_alone(1) [of mode S p S']] packet_walk inv
        net_live.dump_inv_store [OF inv] by (auto simp: diag_alone_def)
  next
    case (request r)
    then show ?thesis
      using request_step_alone(2) [of S r bmode S'] blocks others_alone(2) [of S' Tenant_block S "bpage r"]
      by (intro same) simp_all
  next
    case (block_walk b)
    then show ?thesis
      using block_walk_alone(2) [of bmode S b S'] others_alone(2) [of S' Tenant_block S "bpage (live_page b)"]
      by (intro same) simp_all
  next
    case diag_call
    then have "diag_alone S' = dump_begin net_view (live_page (packets_alone S))"
      by (simp add: diag_alone_def diag_only dump_begin_def page net_view_graft)
    then show ?thesis using net_live.dump_inv_begin [OF good] by simp
  next
    case (diag_walk d)
    then have "diag_alone S' = d\<lparr>dump_page := live_page (packets_alone S)\<rparr>"
      by (simp add: diag_alone_def diag_only)
    moreover have "dump_step net_view (diag_alone S) (d\<lparr>dump_page := live_page (packets_alone S)\<rparr>)"
      using dump_step_view(2) [OF diag_walk(2), of "live_page (packets_alone S)"]
      by (simp add: diag_at_def diag_alone_def page net_view_graft)
    ultimately show ?thesis using net_live.dump_inv_step inv by simp
  qed
qed

lemma diag_reach_inv: "whole_reach party mode bmode S \<Longrightarrow> net_live.dump_inv (diag_alone S)"
proof (induction rule: whole_reach.induct)
  case start
  have "packets_alone whole_start = packets whole_start"
    by (simp add: alone_defs whole_start_def smp_start_def)
  then have "diag_alone whole_start = dump_begin net_view smp_start"
    by (simp add: diag_alone_def whole_start_def dump_begin_def)
  moreover have "net_good smp_start"
    using net_good_init [OF smp_reach.start] by (simp add: smp_start_def)
  ultimately show ?case using net_live.dump_inv_begin by simp
next
  case (step S S')
  then show ?case using diag_inv_step whole_reach_inv by blast
qed

section \<open>Properties of the whole system\<close>

text \<open>
  C3. The components keep their promises when they all run at once. In every interleaving of the
  writers, pushers and the consumer (or reader) of the stream with the packet hooks and block
  probes of all CPUs, the two consumer threads and diagnostic reads, on the one shared page: the
  character ring is well formed, its stream is first-in first-out, and every writer's bytes are
  published or pending; each slot consumer accepts tickets in increasing order and prints for a
  ticket the recorded words, under the conditions of its engine and unless the ticket was late;
  and so does each line of the last diagnostic read for a record that was complete when the line
  was begun and not lapped before it was done.
\<close>

theorem whole_system_safe:
  assumes "whole_reach party mode bmode S"
  shows "char_inv (wpage S)
    \<and> (party = Zero_copy \<longrightarrow> received (smp (stream S)) @ char_content (wpage S)
        = map snd (committed (smp (stream S))))
    \<and> (party = Reading \<and> readers (stream S) 0 = R_idle \<longrightarrow>
        got (stream S) 0 @ char_content (wpage S) = map snd (committed (smp (stream S))))
    \<and> (\<forall>w. bytes_of w (committed (smp (stream S))) @ pending (writers (smp (stream S)) w)
        = submitted (smp (stream S)) w)
    \<and> sorted_wrt (<) (map unat (tickets (live_log (packets S))))
    \<and> sorted_wrt (<) (map unat (tickets (live_log (blocks S))))
    \<and> (\<forall>t ws c b. Accepted t ws c b \<in> set (live_log (packets S)) \<longrightarrow>
        t \<noteq> 0 \<and> b \<and> c \<le> unat t + NETFILTER_SLOT_CAPACITY
        \<and> unat t \<notin> late (live_page (packets S)) \<longrightarrow>
        ws = packet_words (arrived (live_page (packets S)) ! unat t) @ [t])
    \<and> (\<forall>t ws c b. Accepted t ws c b \<in> set (live_log (blocks S)) \<longrightarrow>
        t \<noteq> 0 \<and> b \<and> c \<le> unat t + BLOCKFILTER_SLOT_CAPACITY
        \<and> unat t \<notin> late_requests (live_page (blocks S)) \<longrightarrow>
        ws = metric_words (requests (live_page (blocks S)) ! unat t) @ [t])
    \<and> (\<forall>j < length (dump_lines (diag S)). \<forall>ws begun c u. dump_lines (diag S) ! j = (ws, begun, c) \<longrightarrow>
        begun u \<and> u \<notin> late (live_page (packets S)) \<and> u mod NETFILTER_SLOT_CAPACITY = j
        \<and> c \<le> u + NETFILTER_SLOT_CAPACITY \<longrightarrow>
        ws = packet_words (arrived (live_page (packets S)) ! u) @ [of_nat u])"
proof -
  have run: "stream_run party (stream_alone S)"
    and packets: "live_reach net_view mode net_live_init net_live_step (packets_alone S)"
    and blocks: "live_reach block_view bmode block_live_init block_live_step (blocks_alone S)"
    using whole_reach_inv [OF assms] by (simp_all add: whole_inv_def)
  have reader: "reader_inv (stream_alone S)" if "party = Reading"
    using run that reader_inv_reach by (simp add: stream_run_def)
  then have inv: "char_smp_inv (smp (stream_alone S))"
    using run char_smp_reach_inv by (cases party) (simp_all add: stream_run_def reader_inv_def)
  have stream: "char_inv (wpage S)" "received (smp (stream S)) @ char_content (wpage S)
      = map snd (committed (smp (stream S)))"
    "\<forall>w. bytes_of w (committed (smp (stream S))) @ pending (writers (smp (stream S)) w)
      = submitted (smp (stream S)) w"
    using inv by (simp_all add: char_smp_inv_def)
  have "got (stream S) 0 = received (smp (stream S))" if "party = Reading" "readers (stream S) 0 = R_idle"
    using reader that by (simp add: reader_inv_def)
  moreover have "ws = packet_words (arrived (live_page (packets S)) ! u) @ [of_nat u]"
    if "j < length (dump_lines (diag S))" "dump_lines (diag S) ! j = (ws, begun, c)"
      "begun u" "u \<notin> late (live_page (packets S))" "u mod NETFILTER_SLOT_CAPACITY = j"
      "c \<le> u + NETFILTER_SLOT_CAPACITY" for j ws begun c u
    using diag_reach_inv [OF assms] that
    by (fastforce simp: net_live.dump_inv_def net_live.lines_ok_def diag_alone_def net_live.content_def
        net_slot_capacity)
  moreover note net_live.live_log [OF packets] block_live.live_log [OF blocks]
  ultimately show ?thesis
    using stream by (auto simp: net_live.content_def block_live.content_def net_slot_capacity
        block_slot_capacity)
qed

text \<open>A run: a write is called, a packet draws its ticket, and a request draws its.\<close>

lemma whole_claims_request:
  assumes "whole_reach party mode bmode S" "probes (live_page (blocks S)) = (\<lambda>c. B_idle)"
    and "requests (live_page (blocks S)) = []"
  shows "\<exists>q. whole_reach party mode bmode (S\<lparr>wpage := bpage q, blocks := (blocks S)\<lparr>live_page := q\<rparr>\<rparr>)
    \<and> requests q = [n]"
proof -
  let ?s = "live_page (blocks_at S)" and ?t = "wr_idx (block_ctl (wpage S))"
  let ?q = "?s\<lparr>bpage := (bpage ?s)\<lparr>block_ctl := (block_ctl (bpage ?s))\<lparr>wr_idx := ?t + 1\<rparr>\<rparr>,
    probes := (probes ?s)(0 := B_copy n ?t {}), requests := requests ?s @ [n],
    late_requests := late_request ?s ?t\<rparr>"
  have at: "probes ?s = (\<lambda>c. B_idle)" "requests ?s = []" using assms(2,3) by (simp_all add: blocks_at_def)
  have "probe_smp_step ?s ?q" by (rule probe_smp_step.claim) (use at in simp_all)
  then have "block_live_step ?s ?q" using at by (simp add: block_live_step_def)
  from whole_reach.step [OF assms(1) whole_step.request [OF this]] at
  show ?thesis by (intro exI [of _ ?q]) simp
qed

lemma whole_claims_packet:
  assumes "whole_reach party mode bmode S" "cpus (live_page (packets S)) = (\<lambda>c. Idle)"
    and "arrived (live_page (packets S)) = []"
  shows "\<exists>q. whole_reach party mode bmode (S\<lparr>wpage := spage q, packets := (packets S)\<lparr>live_page := q\<rparr>\<rparr>)
    \<and> arrived q = [m]"
proof -
  let ?s = "live_page (packets_at S)"
  have at: "cpus ?s = (\<lambda>c. Idle)" "arrived ?s = []" using assms(2,3) by (simp_all add: packets_at_def)
  obtain t r where t: "claim_ticket (spage ?s) = (t, r)" by fastforce
  let ?q = "?s\<lparr>spage := r, cpus := (cpus ?s)(0 := Storing m t {}), arrived := arrived ?s @ [m],
    late := late_claim ?s t\<rparr>"
  have "smp_step ?s ?q" by (rule smp_step.claim [OF _ t]) (use at in simp)
  then have "net_live_step ?s ?q" using at by (simp add: net_live_step_def)
  from whole_reach.step [OF assms(1) whole_step.packet [OF this]] at
  show ?thesis by (intro exI [of _ ?q]) simp
qed

theorem whole_system_safe_witness:
  "\<forall>m n. \<exists>S. whole_reach Zero_copy Skip_Ahead Scatter_Gather S \<and> arrived (live_page (packets S)) = [m]
     \<and> requests (live_page (blocks S)) = [n] \<and> submitted (smp (stream S)) 0 = [65]
     \<and> bytes_of 0 (committed (smp (stream S))) @ pending (writers (smp (stream S)) 0) = [65]"
  (is "\<forall>m n. ?run m n")
proof (intro allI)
  fix m n
  let ?R = "whole_reach Zero_copy Skip_Ahead Scatter_Gather"
  let ?s = "char_smp_start\<lparr>writers := (writers char_smp_start)(0 := Acquire [65]),
    submitted := (submitted char_smp_start)(0 := [65])\<rparr>"
  let ?A = "whole_start\<lparr>stream := char_sys_start\<lparr>smp := ?s\<rparr>\<rparr>"
  have "writer_step (smp (stream_at whole_start)) ?s"
    using writer_step.call [of char_smp_start 0 "[65]"]
    by (simp add: stream_at_def whole_start_def char_sys_start_def char_smp_start_def)
  from whole_reach.step [OF whole_reach.start whole_step.writes [OF this]]
  have A: "?R ?A" by (simp add: whole_start_def char_smp_start_def)
  obtain p where p: "?R (?A\<lparr>wpage := spage p, packets := (packets ?A)\<lparr>live_page := p\<rparr>\<rparr>)"
    "arrived p = [m]"
    using whole_claims_packet [OF A, of m] by (auto simp: whole_start_def smp_start_def)
  let ?B = "?A\<lparr>wpage := spage p, packets := (packets ?A)\<lparr>live_page := p\<rparr>\<rparr>"
  have "probes (live_page (blocks ?B)) = (\<lambda>c. B_idle)" "requests (live_page (blocks ?B)) = []"
    by (simp_all add: whole_start_def block_smp_start_def)
  from whole_claims_request [OF p(1) this, of n] obtain q where
    q: "?R (?B\<lparr>wpage := bpage q, blocks := (blocks ?B)\<lparr>live_page := q\<rparr>\<rparr>)" "requests q = [n]" by blast
  have "submitted (smp (stream (?B\<lparr>wpage := bpage q, blocks := (blocks ?B)\<lparr>live_page := q\<rparr>\<rparr>))) 0 = [65]"
    by simp
  then show "?run m n"
    using whole_system_safe [OF q(1), THEN conjunct2, THEN conjunct2, THEN conjunct2, THEN conjunct1,
        rule_format, of 0] q p(2)
    by (intro exI [of _ "?B\<lparr>wpage := bpage q, blocks := (blocks ?B)\<lparr>live_page := q\<rparr>\<rparr>"]) simp
qed

end
