(* ===== verification/WaitFree.thy ===== *)
theory WaitFree
  imports NetLive BlockLive
begin

text \<open>
  Progress of the consumer threads. Whatever the producers do to the ring, and however often they
  come in between, a batch of either engine is over after a bounded number of the thread's own
  steps, and the thread always has a next step. The bound counts the loads that are left, the
  tickets up to the hint of the batch and, in a copy, the run of tickets in it.
\<close>

section \<open>What is left of a batch\<close>

definition copied_stamp :: "'r slots_view \<Rightarrow> (nat \<times> nat \<Rightarrow> u32 option) \<Rightarrow> nat \<Rightarrow> u32" where
  "copied_stamp v local i = (case local (i, metric_width v) of Some x \<Rightarrow> x | None \<Rightarrow> 0)"

definition ticket_cost :: "'r slots_view \<Rightarrow> nat" where
  "ticket_cost v = 2 * metric_width v + 8"

fun walk_left :: "'r slots_view \<Rightarrow> walk_pc \<Rightarrow> nat" where
  "walk_left v (Batch e) = 0"
| "walk_left v (Copy e local S) =
     card ({..<slot_count v} \<times> {..metric_width v} - dom local) + slot_count v + 3"
| "walk_left v (Gather e local S c) = run_length (slot_count v) (copied_stamp v local) e + 2"
| "walk_left v (Skip e hint) = distance hint e * ticket_cost v + 2"
| "walk_left v (Found e hint f got) =
     distance hint (e + 1) * ticket_cost v + card (first_words v - dom got) + metric_width v + 6"
| "walk_left v (Print e hint got) =
     distance hint (e + 1) * ticket_cost v + card ({..metric_width v} - dom got) + 3"
| "walk_left v (Scan e hint sc got) =
     distance hint sc * ticket_cost v + card (first_words v - dom got) + 3"
| "walk_left v (Store e) = 1"

fun batch_bound :: "engine \<Rightarrow> 'r slots_view \<Rightarrow> nat" where
  "batch_bound Scatter_Gather v = slot_count v * (metric_width v + 1) + slot_count v + 4"
| "batch_bound Skip_Ahead v = 2 ^ 31 * ticket_cost v + 3"

text \<open>
  A part of a batch: own steps, counted, with any changes of the ring in between.
\<close>

inductive batch_run :: "'r slots_view \<Rightarrow> engine \<Rightarrow> nat \<Rightarrow> 'r live \<Rightarrow> 'r live \<Rightarrow> bool"
  for v mode where
  start: "batch_run v mode 0 s s"
| ring: "batch_run v mode n s s' \<Longrightarrow> batch_run v mode n s (s'\<lparr>live_page := r\<rparr>)"
| walk: "batch_run v mode n s s' \<Longrightarrow> (\<And>e. live_pc s' \<noteq> Batch e) \<Longrightarrow> walk_step v mode s' t \<Longrightarrow>
    batch_run v mode (Suc n) s t"

section \<open>Every step leaves less\<close>

lemma first_words_le: "finite (first_words v)" "card (first_words v) \<le> metric_width v + 1"
  by (simp_all add: first_words_def)

lemma fewer_left:
  "finite K \<Longrightarrow> k \<in> K \<Longrightarrow> got k = None \<Longrightarrow> card (K - insert k (dom got)) < card (K - dom got)"
  by (rule psubset_card_mono) auto

lemma within_cost:
  assumes "within hint e"
  shows "distance hint (e + 1) * ticket_cost v + ticket_cost v \<le> distance hint e * ticket_cost v"
proof -
  have "Suc (distance hint (e + 1)) \<le> distance hint e" using distance_step [OF assms] by simp
  then have "Suc (distance hint (e + 1)) * ticket_cost v \<le> distance hint e * ticket_cost v"
    by (rule mult_le_mono1)
  then show ?thesis by simp
qed

lemma distance_le: "distance hint e \<le> 2 ^ 31"
  using sint_nonneg_iff [of "hint - e"] by (auto simp: distance_def within_def)

lemma walk_left_step:
  assumes "walk_step v mode s s'" "\<And>e. live_pc s \<noteq> Batch e"
    and n: "0 < slot_count v" "slot_count v < 2 ^ 32"
  shows "walk_left v (live_pc s') < walk_left v (live_pc s)"
  using assms(1)
proof (cases rule: walk_step.cases)
  case (copied e local S)
  then show ?thesis using run_length_le [OF n, of "copied_stamp v local" e] by simp
next
  case (copy e local S i k)
  then show ?thesis
    using fewer_left [of "{..<slot_count v} \<times> {..metric_width v}" "(i, k)" local] by simp
next
  case (gather_hit e local S c i)
  then have "hit (slot_count v) (copied_stamp v local) e" by (simp add: hit_def copied_stamp_def)
  then show ?thesis using run_length_step [OF n] gather_hit by simp
next
  case (found e hint)
  then show ?thesis
    using within_cost [of hint e v] first_words_le [of v] by (simp add: ticket_cost_def)
next
  case (hit e hint f got)
  then show ?thesis using card_Diff_subset by simp
next
  case (miss e hint f got)
  then show ?thesis using first_words_le [of v] by simp
next
  case (scan_on e hint sc got)
  then show ?thesis
    using within_cost [of hint sc v] first_words_le [of v] by (simp add: ticket_cost_def)
qed (use assms(2) in \<open>simp_all add: fewer_left first_words_le\<close>)

lemma batch_run_left:
  assumes "batch_run v mode n s s'" "0 < slot_count v" "slot_count v < 2 ^ 32"
  shows "n + walk_left v (live_pc s') \<le> walk_left v (live_pc s)"
  using assms(1)
proof (induction rule: batch_run.induct)
  case (walk n s s' t)
  then show ?case using walk_left_step [OF walk.hyps(3,2) assms(2,3)] by simp
qed simp_all

lemma batch_start_left:
  assumes "walk_step v mode b s" "live_pc b = Batch e"
  shows "walk_left v (live_pc s) < batch_bound mode v"
  using assms
proof (cases rule: walk_step.cases)
  case (hint e)
  have "distance (write_hint v (live_page b)) e * ticket_cost v \<le> 2 ^ 31 * ticket_cost v"
    by (rule mult_le_mono1) (rule distance_le)
  then have "walk_left v (Skip e (write_hint v (live_page b))) < batch_bound Skip_Ahead v"
    by (simp only: walk_left.simps batch_bound.simps)
  then show ?thesis using hint by simp
qed (use assms(2) in \<open>simp_all add: card_cartesian_product\<close>)

section \<open>There is always a next step\<close>

fun pc_dom :: "'r slots_view \<Rightarrow> walk_pc \<Rightarrow> bool" where
  "pc_dom v (Copy e local S) = (dom local \<subseteq> {..<slot_count v} \<times> {..metric_width v})"
| "pc_dom v (Found e hint f got) = (dom got \<subseteq> first_words v)"
| "pc_dom v (Print e hint got) = (dom got \<subseteq> {..metric_width v})"
| "pc_dom v (Scan e hint sc got) = (dom got \<subseteq> first_words v)"
| "pc_dom v p = True"

lemma pc_dom_step: "walk_step v mode s s' \<Longrightarrow> pc_dom v (live_pc s) \<Longrightarrow> pc_dom v (live_pc s')"
  by (erule walk_step.cases) auto

lemma pc_dom_reach: "live_reach v mode init step s \<Longrightarrow> pc_dom v (live_pc s)"
  by (induction rule: live_reach.induct) (auto intro: pc_dom_step)

lemma pc_dom_run: "batch_run v mode n s s' \<Longrightarrow> pc_dom v (live_pc s) \<Longrightarrow> pc_dom v (live_pc s')"
  by (induction rule: batch_run.induct) (auto intro: pc_dom_step)

lemma word_left:
  assumes "dom got \<subseteq> K" "dom got \<noteq> K"
  obtains k where "k \<in> K" "got k = None"
  using assms by (auto simp: dom_def)

lemma walk_goes_on:
  assumes "pc_dom v (live_pc s)"
  shows "\<exists>t. walk_step v mode s t"
proof (cases "live_pc s")
  case (Batch e)
  then show ?thesis using walk_step.snapshot [of s e mode v] walk_step.hint [of s e mode v] by (cases mode) blast+
next
  case (Copy e local S)
  show ?thesis
  proof (cases "dom local = {..<slot_count v} \<times> {..metric_width v}")
    case True
    then show ?thesis using walk_step.copied [OF Copy] by blast
  next
    case False
    have "dom local \<subseteq> {..<slot_count v} \<times> {..metric_width v}" using assms Copy by simp
    then obtain p where "p \<in> {..<slot_count v} \<times> {..metric_width v}" "local p = None"
      using word_left False by blast
    then show ?thesis using walk_step.copy [OF Copy, of "fst p" v "snd p"] by (cases p) auto
  qed
next
  case (Gather e local S c)
  then show ?thesis using walk_step.gather_hit [OF Gather refl] walk_step.gather_miss [OF Gather refl] by blast
next
  case (Skip e hint)
  then show ?thesis using walk_step.found [OF Skip] walk_step.beyond [OF Skip] by blast
next
  case (Found e hint f got)
  show ?thesis
  proof (cases "dom got = first_words v")
    case True
    then show ?thesis using walk_step.hit [OF Found] walk_step.miss [OF Found] by blast
  next
    case False
    then obtain k where "k \<in> first_words v" "got k = None" using word_left assms Found by auto
    then show ?thesis using walk_step.peek [OF Found] by blast
  qed
next
  case (Print e hint got)
  show ?thesis
  proof (cases "dom got = {..metric_width v}")
    case True
    then show ?thesis using walk_step.printed [OF Print] by blast
  next
    case False
    then obtain k where "k \<in> {..metric_width v}" "got k = None" using word_left assms Print by auto
    then show ?thesis using walk_step.print [OF Print, of k v] by auto
  qed
next
  case (Scan e hint sc got)
  show ?thesis
  proof (cases "within hint sc \<and> dom got \<noteq> first_words v")
    case True
    then obtain k where "k \<in> first_words v" "got k = None" using word_left assms Scan by auto
    then show ?thesis using walk_step.scan_peek [OF Scan] True by blast
  next
    case False
    then show ?thesis
      using walk_step.healed [OF Scan] walk_step.scan_on [OF Scan] walk_step.edge [OF Scan] by blast
  qed
next
  case (Store e)
  then show ?thesis using walk_step.store [OF Store] by blast
qed

section \<open>The property\<close>

text \<open>
  C22. The consumer threads are wait-free. From the start of a batch on, whatever the producers do
  in between (the ring may change in any way), the batch is over after at most \<open>batch_bound\<close>
  steps of the thread itself, for the packet ring 172 and for the block ring 84 in Scatter-Gather
  mode, and up to then it always has a next step: it never waits for a producer.
\<close>

theorem consumer_wait_free:
  assumes "live_reach v mode init step b" "live_pc b = Batch e" "walk_step v mode b s"
    and "0 < slot_count v" "slot_count v < 2 ^ 32" "batch_run v mode n s s'"
  shows "Suc n \<le> batch_bound mode v \<and> (\<exists>t. walk_step v mode s' t)
    \<and> batch_bound Scatter_Gather net_view = 172 \<and> batch_bound Scatter_Gather block_view = 84"
proof -
  have "pc_dom v (live_pc s)" using pc_dom_step [OF assms(3)] pc_dom_reach [OF assms(1)] by blast
  then have "\<exists>t. walk_step v mode s' t" by (intro walk_goes_on pc_dom_run [OF assms(6)])
  then show ?thesis
    using batch_run_left [OF assms(6,4,5)] batch_start_left [OF assms(3,2)] by simp
qed

theorem consumer_wait_free_witness:
  "\<exists>s t. batch_run net_view Scatter_Gather 1 s t \<and> live_pc s = Copy 0 Map.empty (finished_now net_view two_packets)
     \<and> Suc 1 \<le> batch_bound Scatter_Gather net_view"
proof -
  let ?b = "\<lparr>live_page = two_packets, live_pc = Batch 0, live_log = []\<rparr>"
  let ?s = "?b\<lparr>live_pc := Copy 0 Map.empty (finished_now net_view two_packets)\<rparr>"
  have b: "live_reach net_view Scatter_Gather net_live_init net_live_step ?b"
    using live_reach.start [where init = net_live_init and v = net_view, OF two_packets_init] two_packets_good(2)
    by simp
  have s: "walk_step net_view Scatter_Gather ?b ?s"
    using walk_step.snapshot [of ?b 0 Scatter_Gather net_view] by simp
  obtain t where "walk_step net_view Scatter_Gather ?s t"
    using walk_step.copy [of ?s 0 Map.empty _ 0 net_view 0] by fastforce
  then have t: "batch_run net_view Scatter_Gather 1 ?s t"
    using batch_run.walk [OF batch_run.start, of ?s net_view Scatter_Gather t] by simp
  then show ?thesis
    using consumer_wait_free [OF b _ s _ _ t] by (intro exI [of _ ?s] exI [of _ t]) simp
qed

end
