(* ===== verification/Client.thy ===== *)
theory Client
  imports NetConsumer BlockConsumer
begin

text \<open>
  The user-space clients around the consumer threads: the context and its global slot
  (\<open>nt_ctx_create\<close>, \<open>block_ctx_create\<close> and their destructors), the session on the device
  (\<open>user/telemetry_client.c\<close>), and the two main functions with their error paths. The
  state holds what the process has allocated, opened and mapped, and the events in order.
\<close>

section \<open>State\<close>

datatype map_ptr = Null_ptr | Map_failed | Mapped nat

record telemetry_ctx =
  fd :: int
  rng_ptr :: map_ptr

datatype 'mode event = Alloc nat | Free nat | Open int | Close int | Map nat | Unmap nat
  | Spawn 'mode | Join

text \<open>\<open>g_ctx\<close> is the static pointer of the client, \<open>g_nt_ctx\<close> or \<open>g_block_ctx\<close>.\<close>

record 'mode process =
  heap :: "nat \<rightharpoonup> telemetry_ctx"
  g_ctx :: "nat option"
  open_fds :: "int list"
  mappings :: "nat list"
  events :: "'mode event list"

text \<open>
  What the C library and the kernel answer: the address from \<open>malloc\<close> or \<open>calloc\<close>, the
  descriptor from \<open>open\<close> (negative on failure), the mapping from \<open>mmap\<close>, and the code
  from \<open>pthread_create\<close>.
\<close>

record client_services =
  alloc_ret :: "nat option"
  open_ret :: int
  mmap_ret :: "nat option"
  pthread_create_ret :: int

section \<open>Contexts\<close>

definition fresh_ctx :: telemetry_ctx where
  "fresh_ctx = \<lparr>fd = -1, rng_ptr = Null_ptr\<rparr>"

definition nt_ctx_create :: "client_services \<Rightarrow> 'mode process \<Rightarrow> nat option \<times> 'mode process" where
  "nt_ctx_create k s =
     (if g_ctx s \<noteq> None then (None, s)
      else (case alloc_ret k of
              None \<Rightarrow> (None, s)
            | Some p \<Rightarrow> (Some p, s\<lparr>heap := (heap s)(p \<mapsto> fresh_ctx), g_ctx := Some p,
                events := events s @ [Alloc p]\<rparr>)))"

definition nt_ctx_destroy :: "nat option \<Rightarrow> 'mode process \<Rightarrow> 'mode process" where
  "nt_ctx_destroy ctx s =
     (case ctx of
        None \<Rightarrow> s
      | Some p \<Rightarrow> s\<lparr>heap := (heap s)(p := None), g_ctx := None, events := events s @ [Free p]\<rparr>)"

text \<open>The block client has its own copies.\<close>

definition block_ctx_create :: "client_services \<Rightarrow> 'mode process \<Rightarrow> nat option \<times> 'mode process" where
  "block_ctx_create k s =
     (if g_ctx s \<noteq> None then (None, s)
      else (case alloc_ret k of
              None \<Rightarrow> (None, s)
            | Some p \<Rightarrow> (Some p, s\<lparr>heap := (heap s)(p \<mapsto> fresh_ctx), g_ctx := Some p,
                events := events s @ [Alloc p]\<rparr>)))"

definition block_ctx_destroy :: "nat option \<Rightarrow> 'mode process \<Rightarrow> 'mode process" where
  "block_ctx_destroy ctx s =
     (case ctx of
        None \<Rightarrow> s
      | Some p \<Rightarrow> s\<lparr>heap := (heap s)(p := None), g_ctx := None, events := events s @ [Free p]\<rparr>)"

section \<open>The session on the device\<close>

definition set_ctx :: "nat \<Rightarrow> telemetry_ctx \<Rightarrow> 'mode process \<Rightarrow> 'mode process" where
  "set_ctx p c s = s\<lparr>heap := (heap s)(p \<mapsto> c)\<rparr>"

definition close_fd :: "int \<Rightarrow> 'mode process \<Rightarrow> 'mode process" where
  "close_fd f s = s\<lparr>open_fds := remove1 f (open_fds s), events := events s @ [Close f]\<rparr>"

definition telemetry_initialize ::
  "client_services \<Rightarrow> nat option \<Rightarrow> 'mode process \<Rightarrow> nat option \<times> 'mode process" where
  "telemetry_initialize k ctx s =
     (case ctx of
        None \<Rightarrow> (None, s)
      | Some p \<Rightarrow>
          (let c = the (heap s p)\<lparr>fd := open_ret k\<rparr>;
               s1 = set_ctx p c s
           in if fd c < 0 then (None, s1)
              else
                (let s2 = s1\<lparr>open_fds := fd c # open_fds s1, events := events s1 @ [Open (fd c)]\<rparr>;
                     c2 = c\<lparr>rng_ptr := (case mmap_ret k of None \<Rightarrow> Map_failed | Some m \<Rightarrow> Mapped m)\<rparr>;
                     s3 = set_ctx p c2 s2
                 in case rng_ptr c2 of
                      Mapped m \<Rightarrow> (Some p, s3\<lparr>mappings := m # mappings s3, events := events s3 @ [Map m]\<rparr>)
                    | _ \<Rightarrow> (None, set_ctx p (c2\<lparr>fd := -1, rng_ptr := Null_ptr\<rparr>) (close_fd (fd c2) s3)))))"

definition telemetry_shutdown :: "nat option \<Rightarrow> 'mode process \<Rightarrow> 'mode process" where
  "telemetry_shutdown ctx s =
     (case ctx of
        None \<Rightarrow> s
      | Some p \<Rightarrow>
          (let c = the (heap s p);
               s1 = (case rng_ptr c of
                       Mapped m \<Rightarrow> s\<lparr>mappings := remove1 m (mappings s), events := events s @ [Unmap m]\<rparr>
                     | _ \<Rightarrow> s)
           in if fd c \<ge> 0 then close_fd (fd c) s1 else s1))"

section \<open>The main functions\<close>

text \<open>\<open>atoi\<close> of the C library, without its overflow.\<close>

definition is_space :: "char \<Rightarrow> bool" where
  "is_space c \<longleftrightarrow> c \<in> {CHR 0x20, CHR 0x09, CHR 0x0A, CHR 0x0B, CHR 0x0C, CHR 0x0D}"

definition is_digit :: "char \<Rightarrow> bool" where
  "is_digit c \<longleftrightarrow> 48 \<le> (of_char c :: nat) \<and> (of_char c :: nat) \<le> 57"

definition digits_value :: "string \<Rightarrow> int" where
  "digits_value s = foldl (\<lambda>n c. 10 * n + (of_char c - 48)) 0 (takeWhile is_digit s)"

definition atoi :: "string \<Rightarrow> int" where
  "atoi s = (case dropWhile is_space s of
     [] \<Rightarrow> 0
   | c # cs \<Rightarrow> if c = CHR ''-'' then - digits_value cs
              else if c = CHR ''+'' then digits_value cs
              else digits_value (c # cs))"

definition EXIT_SUCCESS :: int where "EXIT_SUCCESS = 0"
definition EXIT_FAILURE :: int where "EXIT_FAILURE = 1"

definition netfilter_main ::
  "client_services \<Rightarrow> string list \<Rightarrow> consumer_mode process \<Rightarrow> int \<times> consumer_mode process" where
  "netfilter_main k argv s =
     (if length argv < 2 then (EXIT_FAILURE, s)
      else
        (let selected_mode = (if atoi (argv ! 1) = 1 then MODE_SKIP_AHEAD else MODE_SCATTER_GATHER);
             (ctx, s1) = nt_ctx_create k s
         in if ctx = None then (EXIT_FAILURE, s1)
            else
              (let (ready, s2) = telemetry_initialize k ctx s1
               in if ready = None then (EXIT_FAILURE, nt_ctx_destroy ctx s2)
                  else if pthread_create_ret k \<noteq> 0
                  then (EXIT_FAILURE, nt_ctx_destroy ctx (telemetry_shutdown ctx s2))
                  else
                    (let s3 = s2\<lparr>events := events s2 @ [Spawn selected_mode]\<rparr>;
                         s4 = s3\<lparr>events := events s3 @ [Join]\<rparr>
                     in (EXIT_SUCCESS, nt_ctx_destroy ctx (telemetry_shutdown ctx s4))))))"

definition blockfilter_main ::
  "client_services \<Rightarrow> string list \<Rightarrow> block_consumer_mode process \<Rightarrow> int \<times> block_consumer_mode process"
where
  "blockfilter_main k argv s =
     (let selected_mode =
            (if length argv > 1
             then (if atoi (argv ! 1) = 1 then BLOCK_MODE_SKIP_AHEAD else BLOCK_MODE_SCATTER_GATHER)
             else BLOCK_MODE_SCATTER_GATHER);
          (ctx, s1) = block_ctx_create k s
      in if ctx = None then (EXIT_FAILURE, s1)
         else
           (let (ready, s2) = telemetry_initialize k ctx s1
            in if ready = None then (EXIT_FAILURE, block_ctx_destroy ctx s2)
               else if pthread_create_ret k \<noteq> 0
               then (EXIT_FAILURE, block_ctx_destroy ctx (telemetry_shutdown ctx s2))
               else
                 (let s3 = s2\<lparr>events := events s2 @ [Spawn selected_mode]\<rparr>;
                      s4 = s3\<lparr>events := events s3 @ [Join]\<rparr>
                  in (EXIT_SUCCESS, block_ctx_destroy ctx (telemetry_shutdown ctx s4)))))"

text \<open>The active branch of \<open>main\<close> in \<open>telemetry_user.c\<close>.\<close>

definition telemetry_user_main ::
  "client_services \<Rightarrow> string list \<Rightarrow> consumer_mode process \<Rightarrow> int \<times> consumer_mode process" where
  "telemetry_user_main k argv s =
     (let (result, s') = netfilter_main k argv s in if result \<noteq> 0 then (result, s') else (0, s'))"

section \<open>Lemmas\<close>

lemmas client_defs = nt_ctx_create_def nt_ctx_destroy_def block_ctx_create_def
  block_ctx_destroy_def telemetry_initialize_def telemetry_shutdown_def set_ctx_def close_fd_def
  fresh_ctx_def EXIT_SUCCESS_def EXIT_FAILURE_def

text \<open>What a run does, by the answers it gets: a code and events.\<close>

definition session :: "client_services \<Rightarrow> 'mode \<Rightarrow> int \<times> 'mode event list" where
  "session k mode =
     (case alloc_ret k of
        None \<Rightarrow> (1, [])
      | Some p \<Rightarrow>
          if open_ret k < 0 then (1, [Alloc p, Free p])
          else (case mmap_ret k of
            None \<Rightarrow> (1, [Alloc p, Open (open_ret k), Close (open_ret k), Free p])
          | Some m \<Rightarrow>
              if pthread_create_ret k \<noteq> 0
              then (1, [Alloc p, Open (open_ret k), Map m, Unmap m, Close (open_ret k), Free p])
              else (0, [Alloc p, Open (open_ret k), Map m, Spawn mode, Join, Unmap m,
                Close (open_ret k), Free p])))"

lemma netfilter_session:
  assumes "2 \<le> length argv" "g_ctx s = None" "\<forall>p. alloc_ret k = Some p \<longrightarrow> heap s p = None"
  shows "netfilter_main k argv s =
    (let (code, evs) = session k (if atoi (argv ! 1) = 1 then MODE_SKIP_AHEAD else MODE_SCATTER_GATHER)
     in (code, s\<lparr>events := events s @ evs\<rparr>))"
  using assms
  by (cases "alloc_ret k"; cases "mmap_ret k")
    (auto simp: netfilter_main_def session_def client_defs Let_def fun_upd_idem)

lemma blockfilter_session:
  assumes "g_ctx s = None" "\<forall>p. alloc_ret k = Some p \<longrightarrow> heap s p = None"
  shows "blockfilter_main k argv s =
    (let (code, evs) = session k (if length argv > 1 \<and> atoi (argv ! 1) = 1
       then BLOCK_MODE_SKIP_AHEAD else BLOCK_MODE_SCATTER_GATHER)
     in (code, s\<lparr>events := events s @ evs\<rparr>))"
  using assms
  by (cases "alloc_ret k"; cases "mmap_ret k")
    (auto simp: blockfilter_main_def session_def client_defs Let_def fun_upd_idem)

lemma session_facts:
  assumes "session k mode = (code, evs)"
  shows "(code = 0) = (alloc_ret k \<noteq> None \<and> 0 \<le> open_ret k \<and> mmap_ret k \<noteq> None
      \<and> pthread_create_ret k = 0)"
    "code = 0 \<longrightarrow> (\<exists>p m. evs = [Alloc p, Open (open_ret k), Map m, Spawn mode, Join, Unmap m,
       Close (open_ret k), Free p])"
    "code \<noteq> 0 \<longrightarrow> (\<forall>mode. Spawn mode \<notin> set evs)"
  using assms by (auto simp: session_def split: option.splits if_splits)

section \<open>Properties of the clients\<close>

text \<open>
  C34. The packet client, from its entry point, releases on every path what it acquired:
  context, descriptor and mapping are as before. It succeeds exactly when the allocation,
  the open, the mapping and the thread creation do; then it ran one consumer thread in the
  mode that the argument selects and unmapped the page only after joining it. On failure no
  thread was started.
\<close>

theorem netfilter_lifecycle:
  assumes "2 \<le> length argv" "g_ctx s = None" "\<forall>p. alloc_ret k = Some p \<longrightarrow> heap s p = None"
    and "telemetry_user_main k argv s = (code, s')"
  shows "(code = 0) = (alloc_ret k \<noteq> None \<and> 0 \<le> open_ret k \<and> mmap_ret k \<noteq> None
      \<and> pthread_create_ret k = 0)
    \<and> (\<exists>evs. s' = s\<lparr>events := events s @ evs\<rparr>
      \<and> (code = 0 \<longrightarrow> (\<exists>p m. evs = [Alloc p, Open (open_ret k), Map m,
            Spawn (if atoi (argv ! 1) = 1 then MODE_SKIP_AHEAD else MODE_SCATTER_GATHER),
            Join, Unmap m, Close (open_ret k), Free p]))
      \<and> (code \<noteq> 0 \<longrightarrow> (\<forall>mode. Spawn mode \<notin> set evs)))"
proof -
  have run: "(code, s') = netfilter_main k argv s"
    using assms(4) by (auto simp: telemetry_user_main_def split: prod.splits if_splits)
  show ?thesis
    using run netfilter_session [OF assms(1-3)] session_facts
    by (cases "session k (if atoi (argv ! 1) = 1 then MODE_SKIP_AHEAD else MODE_SCATTER_GATHER)")
      (fastforce simp: Let_def)
qed

definition sample_services :: client_services where
  "sample_services = \<lparr>alloc_ret = Some 64, open_ret = 3, mmap_ret = Some 4096, pthread_create_ret = 0\<rparr>"

definition sample_process :: "'mode process" where
  "sample_process = \<lparr>heap = Map.empty, g_ctx = None, open_fds = [0, 1, 2], mappings = [], events = []\<rparr>"

theorem netfilter_lifecycle_witness:
  "\<exists>s'. telemetry_user_main sample_services [''telemetry'', ''1''] sample_process = (0, s')
     \<and> Spawn MODE_SKIP_AHEAD \<in> set (events s') \<and> open_fds s' = [0, 1, 2] \<and> mappings s' = []"
proof -
  obtain code s' where run: "telemetry_user_main sample_services [''telemetry'', ''1''] sample_process
      = (code, s')" by fastforce
  have "atoi ''1'' = 1" by code_simp
  then show ?thesis
    using netfilter_lifecycle [OF _ _ _ run] run
    by (auto simp: sample_services_def sample_process_def)
qed

text \<open>
  The same for the block client, which also runs without an argument, in
  Scatter-Gather mode.
\<close>

theorem blockfilter_lifecycle:
  assumes "g_ctx s = None" "\<forall>p. alloc_ret k = Some p \<longrightarrow> heap s p = None"
    and "blockfilter_main k argv s = (code, s')"
  shows "(code = 0) = (alloc_ret k \<noteq> None \<and> 0 \<le> open_ret k \<and> mmap_ret k \<noteq> None
      \<and> pthread_create_ret k = 0)
    \<and> (\<exists>evs. s' = s\<lparr>events := events s @ evs\<rparr>
      \<and> (code = 0 \<longrightarrow> (\<exists>p m. evs = [Alloc p, Open (open_ret k), Map m,
            Spawn (if length argv > 1 \<and> atoi (argv ! 1) = 1
              then BLOCK_MODE_SKIP_AHEAD else BLOCK_MODE_SCATTER_GATHER),
            Join, Unmap m, Close (open_ret k), Free p]))
      \<and> (code \<noteq> 0 \<longrightarrow> (\<forall>mode. Spawn mode \<notin> set evs)))"
  using assms(3) blockfilter_session [OF assms(1,2), of argv] session_facts
  by (cases "session k (if length argv > 1 \<and> atoi (argv ! 1) = 1
      then BLOCK_MODE_SKIP_AHEAD else BLOCK_MODE_SCATTER_GATHER)") (fastforce simp: Let_def)

theorem blockfilter_lifecycle_witness:
  "\<exists>s'. blockfilter_main (sample_services\<lparr>mmap_ret := None\<rparr>) [''block''] sample_process = (1, s')
     \<and> open_fds s' = [0, 1, 2] \<and> heap s' = Map.empty"
proof -
  let ?k = "sample_services\<lparr>mmap_ret := None\<rparr>"
  obtain code s' where run: "blockfilter_main ?k [''block''] sample_process = (code, s')" by fastforce
  moreover have "code = 0 \<or> code = 1"
    using run by (auto simp: blockfilter_main_def EXIT_SUCCESS_def EXIT_FAILURE_def Let_def
        split: if_splits prod.splits)
  ultimately show ?thesis
    using blockfilter_lifecycle [OF _ _ run]
    by (auto simp: sample_services_def sample_process_def)
qed

end
