(* ===== verification/Stress.thy ===== *)
theory Stress
  imports ReadSMP Client CText
begin

text \<open>
  The stress program of \<open>user/telemetry_user.c\<close>: the thread \<open>producer\<close>, which writes
  numbered messages to the device, the thread \<open>zero_copy_consumer\<close> around its loop body, and
  the part of \<open>main\<close> that starts them (the program is built with the other branch of
  \<open>main\<close>; the threads are compiled in both). The two threads run on the concurrent model of
  the device, so what holds of its streams holds of the program.
\<close>

section \<open>The arguments of main\<close>

text \<open>Division in C rounds to zero.\<close>

definition c_div :: "int \<Rightarrow> int \<Rightarrow> int" where
  "c_div a b = sgn a * sgn b * (\<bar>a\<bar> div \<bar>b\<bar>)"

definition ITERATIONS :: int where "ITERATIONS = 100"

text \<open>
  What \<open>main\<close> makes of its arguments: the number of messages, the divisor of the kick counter,
  and whether the consumer reads the device (or drains the mapping).
\<close>

definition stress_args :: "string list \<Rightarrow> (int \<times> int \<times> bool) outcome" where
  "stress_args argv =
     (let iterations = (if length argv > 1 then atoi (argv ! 1) else ITERATIONS) in
      if length argv > 2 then
        (if atoi (argv ! 2) = 0 then DivideByZero
         else Return (iterations, c_div modulo_divisor (atoi (argv ! 2)), length argv > 3))
      else Return (iterations, modulo_divisor, length argv > 3))"

section \<open>The thread of the zero-copy consumer\<close>

text \<open>
  The loop: before each pass something may have happened to the page, and the flag
  \<open>writer_is_finished_flag\<close> has some value at its end. The last component says whether the
  loop was left (or the schedule ended first).
\<close>

fun zero_copy_loop ::
  "int \<Rightarrow> ((shared_ring \<Rightarrow> shared_ring) \<times> bool) list \<Rightarrow> zc_state \<Rightarrow> shared_ring \<Rightarrow>
     (zc_state \<times> shared_ring \<times> u8 list \<times> bool) outcome" where
  "zero_copy_loop divisor [] z r = Return (z, r, [], False)"
| "zero_copy_loop divisor ((env, fin) # envs) z r =
     bind_outcome (zero_copy_iter divisor fin z (env r)) (\<lambda>(z1, r1, out1, kick, left).
       if left then Return (z1, r1, out1, True)
       else bind_outcome (zero_copy_loop divisor envs z1 r1) (\<lambda>(z2, r2, out2, left2).
         Return (z2, r2, out1 @ out2, left2)))"

text \<open>
  The thread: it checks the page size, opens and maps the device, loops, and releases both. The
  result: what it acquired and released, in order, and what it consumed (\<open>None\<close> on an early
  return). \<open>runtime_page_size\<close>, \<open>open\<close> and \<open>mmap\<close> answer from outside.
\<close>

definition zero_copy_consumer ::
  "int \<Rightarrow> client_services \<Rightarrow> int \<Rightarrow> ((shared_ring \<Rightarrow> shared_ring) \<times> bool) list \<Rightarrow> shared_ring \<Rightarrow>
     (unit event list \<times> (zc_state \<times> shared_ring \<times> u8 list \<times> bool) option) outcome" where
  "zero_copy_consumer runtime_page_size k divisor envs r =
     (if runtime_page_size \<noteq> int TELEMETRY_PAGE_SIZE then Return ([], None)
      else if open_ret k < 0 then Return ([], None)
      else (case mmap_ret k of
          None \<Rightarrow> Return ([Open (open_ret k), Close (open_ret k)], None)
        | Some m \<Rightarrow>
            bind_outcome (zero_copy_loop divisor envs zc_start r) (\<lambda>result.
              Return ([Open (open_ret k), Map m]
                @ (case result of (z, r', out, left) \<Rightarrow> if left then [Unmap m, Close (open_ret k)] else []),
                Some result))))"

section \<open>The two threads on the device\<close>

text \<open>\<open>sprintf(msg, "VAL_%d", i)\<close> and the bytes of the message.\<close>

definition producer_msg :: "nat \<Rightarrow> u8 list" where
  "producer_msg i = map of_char (''VAL_'' @ decimal i)"

text \<open>
  Where the producer is: at the head of its loop, inside \<open>write\<close>, or done. Where the consumer
  is: inside a pass, before \<open>reader_count++\<close> with a byte in hand, between the test of the ring and
  the test of the flag, or out of its loop. \<open>bytes_written\<close> is the local of that name of
  \<open>dev_write\<close>, which \<open>write\<close> returns to the local of that name of the producer. The counters of
  the program are of the C type \<open>int\<close>; here they are integers, and \<open>stress_range\<close> below shows that
  they stay in the range of the type while the messages together have fewer than \<open>2 ^ 31\<close> bytes.
\<close>

datatype prod_pc = P_loop nat | P_write nat | P_done
datatype cons_pc = K_run | K_count | K_check | K_left

record stress =
  dev :: char_smp
  prod :: prod_pc
  cons :: cons_pc
  bytes_written :: int
  writer_count :: int
  stress_reader_count :: int
  total_bytes :: int
  writer_is_finished_flag :: bool

definition stress_start :: stress where
  "stress_start = \<lparr>dev = char_smp_start, prod = P_loop 0, cons = K_run, bytes_written = 0,
     writer_count = 0, stress_reader_count = 0, total_bytes = 0, writer_is_finished_flag = False\<rparr>"

definition write_call :: "nat \<Rightarrow> u8 list \<Rightarrow> char_smp \<Rightarrow> char_smp" where
  "write_call w bs t = t\<lparr>writers := (writers t)(w := Acquire bs),
     submitted := (submitted t)(w := submitted t w @ bs)\<rparr>"

text \<open>\<open>dev_write\<close> counts a byte when it has published it.\<close>

fun count_byte :: "writer_pc \<Rightarrow> writer_pc \<Rightarrow> int \<Rightarrow> int" where
  "count_byte (Stored bs) pc k = (if pc = Stored bs then k else k + 1)"
| "count_byte pc0 pc k = k"

text \<open>
  The steps. Inside \<open>write\<close> the producer (writer 0) makes the steps of the device, undisturbed by
  signals and with a readable buffer (\<open>submitted\<close> does not change), though an empty write of
  another process may wake it. Then it adds the result of \<open>write\<close> if that is positive, and the
  length of the message in any case. The consumer makes its steps as long as it has not left, and
  counts each byte after it has stored the read index.
\<close>

inductive producer_step :: "nat \<Rightarrow> stress \<Rightarrow> stress \<Rightarrow> bool" for n where
  p_call: "prod s = P_loop i \<Longrightarrow> i < n \<Longrightarrow>
    producer_step n s (s\<lparr>dev := write_call 0 (producer_msg i) (dev s), prod := P_write i, bytes_written := 0\<rparr>)"
| p_run: "prod s = P_write i \<Longrightarrow> writers (dev s) 0 \<noteq> Outside \<Longrightarrow> writer_step (dev s) t \<Longrightarrow>
    submitted t = submitted (dev s) \<Longrightarrow> \<forall>w. w \<noteq> 0 \<longrightarrow> writers t w = Outside \<Longrightarrow>
    producer_step n s (s\<lparr>dev := t,
      bytes_written := count_byte (writers (dev s) 0) (writers t 0) (bytes_written s)\<rparr>)"
| p_return: "prod s = P_write i \<Longrightarrow> writers (dev s) 0 = Outside \<Longrightarrow>
    producer_step n s (s\<lparr>prod := P_loop (i + 1),
      writer_count := (if 0 < bytes_written s then writer_count s + bytes_written s else writer_count s),
      total_bytes := total_bytes s + int (length (producer_msg i))\<rparr>)"
| p_finish: "prod s = P_loop i \<Longrightarrow> \<not> i < n \<Longrightarrow>
    producer_step n s (s\<lparr>prod := P_done, writer_is_finished_flag := True\<rparr>)"

inductive stress_step :: "nat \<Rightarrow> stress \<Rightarrow> stress \<Rightarrow> bool" for n where
  producer: "producer_step n s s' \<Longrightarrow> stress_step n s s'"
| c_step: "cons s = K_run \<Longrightarrow> consumer_step (dev s) t \<Longrightarrow>
    stress_step n s (s\<lparr>dev := t, cons := (case consumer (dev s) of
      C_have rd \<Rightarrow> K_count | C_empty \<Rightarrow> K_check | _ \<Rightarrow> K_run)\<rparr>)"
| c_count: "cons s = K_count \<Longrightarrow>
    stress_step n s (s\<lparr>stress_reader_count := stress_reader_count s + 1, cons := K_run\<rparr>)"
| c_check: "cons s = K_check \<Longrightarrow>
    stress_step n s (s\<lparr>cons := (if writer_is_finished_flag s then K_left else K_run)\<rparr>)"

inductive stress_reach :: "nat \<Rightarrow> stress \<Rightarrow> bool" for n where
  start: "stress_reach n stress_start"
| step: "stress_reach n s \<Longrightarrow> stress_step n s s' \<Longrightarrow> stress_reach n s'"

section \<open>The invariant\<close>

definition messages :: "nat \<Rightarrow> u8 list" where
  "messages i = concat (map producer_msg [0..<i])"

lemma messages_0 [simp]: "messages 0 = []"
  by (simp add: messages_def)

lemma messages_Suc [simp]: "messages (Suc i) = messages i @ producer_msg i"
  by (simp add: messages_def)

lemma messages_mono: "i \<le> n \<Longrightarrow> length (messages i) \<le> length (messages n)"
  by (induction n) (auto simp: le_Suc_eq)

text \<open>
  Where the producer is, by what was submitted and counted: in a write, the bytes that are
  counted and those that are left are those of the message.
\<close>

fun in_write :: "writer_pc \<Rightarrow> bool" where
  "in_write (Push_acquire bs) = False"
| "in_write (Push bs) = False"
| "in_write (Push_stored bs) = False"
| "in_write pc = True"

fun prod_ok :: "nat \<Rightarrow> stress \<Rightarrow> prod_pc \<Rightarrow> bool" where
  "prod_ok n s (P_loop i) = (i \<le> n \<and> writers (dev s) 0 = Outside \<and> \<not> writer_is_finished_flag s
     \<and> submitted (dev s) 0 = messages i \<and> total_bytes s = int (length (messages i)))"
| "prod_ok n s (P_write i) = (i < n \<and> \<not> writer_is_finished_flag s
     \<and> submitted (dev s) 0 = messages (Suc i) \<and> total_bytes s = int (length (messages i))
     \<and> in_write (writers (dev s) 0)
     \<and> bytes_written s + int (length (pending (writers (dev s) 0))) = int (length (producer_msg i)))"
| "prod_ok n s P_done = (writers (dev s) 0 = Outside
     \<and> submitted (dev s) 0 = messages n \<and> total_bytes s = int (length (messages n)))"

text \<open>A writer on the wait queue has the flag up: there is no second writer to take it down.\<close>

fun flag_ok :: "shared_ring \<Rightarrow> writer_pc \<Rightarrow> bool" where
  "flag_ok r (Waiting bs) = writer_asleep r"
| "flag_ok r (Sleeping bs) = writer_asleep r"
| "flag_ok r (Clearing bs) = writer_asleep r"
| "flag_ok r p = True"

definition producer_inv :: "nat \<Rightarrow> stress \<Rightarrow> bool" where
  "producer_inv n s \<longleftrightarrow> (\<forall>w. w \<noteq> 0 \<longrightarrow> writers (dev s) w = Outside \<and> submitted (dev s) w = [])
     \<and> prod_ok n s (prod s) \<and> writer_count s = total_bytes s
     \<and> flag_ok (kring (dev s)) (writers (dev s) 0)
     \<and> (writer_is_finished_flag s \<longrightarrow> prod s = P_done)"

definition stress_inv :: "nat \<Rightarrow> stress \<Rightarrow> bool" where
  "stress_inv n s \<longleftrightarrow> char_reach (dev s) \<and> producer_inv n s \<and> (cons s = K_left \<longrightarrow> prod s = P_done)
     \<and> stress_reader_count s + (if cons s = K_count then 1 else 0) = int (length (received (dev s)))
     \<and> 0 \<le> stress_reader_count s"

lemma writer_asleep_frame [simp]:
  "writer_asleep (set_char_wr i r) = writer_asleep r"
  "writer_asleep (store_char i b r) = writer_asleep r"
  by (simp_all add: writer_asleep_def page_update_defs)

lemma flag_ok_writer:
  assumes "writer_step t t'" "\<forall>w. w \<noteq> 0 \<longrightarrow> writers t w = Outside"
    and "flag_ok (kring t) (writers t 0)"
  shows "flag_ok (kring t') (writers t' 0)"
  using assms
proof (cases rule: writer_step.cases)
  case (empty_write w)
  then show ?thesis using assms(3) by (cases "writers t 0") (simp_all add: wake_all_def)
qed (use assms(2,3) in \<open>auto split: if_splits\<close>)

lemma flag_ok_consumer:
  assumes "consumer_step t t'" "flag_ok (kring t) (writers t 0)"
  shows "flag_ok (kring t') (writers t' 0)"
  using assms
  by (cases rule: consumer_step.cases; cases "writers t 0") (simp_all add: wake_all_def)

lemma consumer_step_writers:
  "consumer_step t t' \<Longrightarrow> submitted t' = submitted t
    \<and> (\<forall>w. (writers t' w = Outside) = (writers t w = Outside))
    \<and> pending (writers t' 0) = pending (writers t 0) \<and> in_write (writers t' 0) = in_write (writers t 0)"
  by (erule consumer_stepE) (auto simp: wake_all_def split: writer_pc.splits)

lemma producer_msg_nonempty [simp]: "producer_msg i \<noteq> []"
  by (simp add: producer_msg_def)

text \<open>
  A step of the device inside \<open>write\<close>, with no signal and no fault: a byte leaves the remaining
  ones exactly when it is counted.
\<close>

lemma write_step_counts:
  assumes "writer_step t t'" "char_smp_inv t" "\<forall>w. w \<noteq> 0 \<longrightarrow> writers t w = Outside"
    and "\<forall>w. w \<noteq> 0 \<longrightarrow> writers t' w = Outside"
    and "submitted t' = submitted t" "in_write (writers t 0)" "writers t 0 \<noteq> Outside"
  shows "in_write (writers t' 0) \<and> count_byte (writers t 0) (writers t' 0) k
      + int (length (pending (writers t' 0))) = k + int (length (pending (writers t 0)))"
proof -
  have pend: "bytes_of 0 (committed t) @ pending (writers t 0) = submitted t 0"
    "writer_ok (kring t) (writers t 0)"
    using char_smp_invD(3,4) [OF assms(2), of 0] by blast+
  have only: "w = 0" if "writers t w \<noteq> Outside" for w using assms(3) that by blast
  have out: "w \<noteq> 0 \<Longrightarrow> writers t w = Outside" for w using assms(3) by blast
  show ?thesis using assms(1)
  proof (cases rule: writer_step.cases)
    case (signal w bs)
    then have "w = 0" using only by simp
    then show ?thesis using signal pend assms(5) by (auto dest: fun_cong [of _ _ 0])
  next
    case (fault w b bs snap)
    then have "w = 0" using only by simp
    then show ?thesis using fault pend assms(5) by (auto dest: fun_cong [of _ _ 0])
  next
    case (empty_write w)
    then show ?thesis using assms(6) by (cases "writers t 0") (simp_all add: wake_all_def)
  next
    case (call w bs)
    then show ?thesis using spec [OF assms(4), of w] assms(6,7) by (cases "w = 0") auto
  next
    case (push_call w m)
    then show ?thesis using spec [OF assms(4), of w] assms(6,7) by (cases "w = 0") auto
  qed (use assms(6,7) in \<open>auto simp: out intro!: gr0I split: if_splits\<close>)
qed

lemma writer_step_received: "writer_step t t' \<Longrightarrow> received t' = received t"
  by (erule writer_step.cases) simp_all

lemma producer_inv_start: "producer_inv n stress_start"
  by (simp add: producer_inv_def stress_start_def
      char_smp_start_def [THEN arg_cong [where f = writers]]
      char_smp_start_def [THEN arg_cong [where f = submitted]])

lemma producer_inv_step:
  assumes "producer_step n s s'" "producer_inv n s" "char_smp_inv (dev s)"
  shows "producer_inv n s'"
  using assms
proof (induction rule: producer_step.induct)
  case (p_run s i t)
  then have flag: "flag_ok (kring t) (writers t 0)" using flag_ok_writer unfolding producer_inv_def by blast
  have out: "\<forall>w. w \<noteq> 0 \<longrightarrow> writers (dev s) w = Outside" "in_write (writers (dev s) 0)"
    using p_run by (simp_all add: producer_inv_def)
  note count = write_step_counts [OF p_run(3,7) out(1) p_run(5,4) out(2) p_run(2)]
  then show ?case using p_run flag by (auto simp: producer_inv_def)
qed (auto simp: producer_inv_def write_call_def)

text \<open>What the producer does to the device are steps of a writer.\<close>

lemma producer_step_dev:
  assumes "producer_step n s s'" "producer_inv n s"
  shows "dev s' = dev s \<or> writer_step (dev s) (dev s')"
  using assms
proof (induction rule: producer_step.induct)
  case (p_call s i)
  then have "writers (dev s) 0 = Outside" by (simp add: producer_inv_def)
  from writer_step.call [OF this producer_msg_nonempty] show ?case by (simp add: write_call_def)
qed simp_all

lemma producer_step_cons: "producer_step n s s' \<Longrightarrow> cons s' = cons s \<and> prod s \<noteq> P_done
    \<and> stress_reader_count s' = stress_reader_count s \<and> received (dev s') = received (dev s)"
  by (induction rule: producer_step.induct) (auto simp: write_call_def writer_step_received)

lemma stress_inv_start: "stress_inv n stress_start"
  using producer_inv_start
  by (simp add: stress_inv_def stress_start_def char_reach.start)
    (simp add: char_smp_start_def [THEN arg_cong [where f = received]])

lemma stress_inv_step:
  assumes "stress_step n s s'" "stress_inv n s"
  shows "stress_inv n s'"
  using assms
proof (induction rule: stress_step.induct)
  case (producer s s')
  then have "char_reach (dev s')"
    using producer_step_dev char_reach.writer unfolding stress_inv_def by metis
  then show ?case
    using producer producer_inv_step [OF producer(1)] producer_step_cons [OF producer(1)] char_smp_reach_inv
    by (simp add: stress_inv_def)
next
  case (c_step s t)
  then have "char_reach t" "flag_ok (kring t) (writers t 0)"
    using char_reach.consumer flag_ok_consumer unfolding stress_inv_def producer_inv_def by blast+
  moreover have "int (length (received t))
      = int (length (received (dev s))) + (case consumer (dev s) of C_have rd \<Rightarrow> 1 | _ \<Rightarrow> 0)"
    using c_step(2) by (cases rule: consumer_step.cases) simp_all
  moreover have "(\<forall>w. (writers t w = Outside) = (writers (dev s) w = Outside))" "submitted t = submitted (dev s)"
    "pending (writers t 0) = pending (writers (dev s) 0)" "in_write (writers t 0) = in_write (writers (dev s) 0)"
    using consumer_step_writers [OF c_step(2)] by blast+
  ultimately show ?case
    using c_step by (cases "prod s") (auto simp: stress_inv_def producer_inv_def split: consumer_pc.split)
next
  case (c_count s)
  then show ?case by (cases "prod s") (auto simp: stress_inv_def producer_inv_def)
next
  case (c_check s)
  then show ?case by (cases "prod s") (auto simp: stress_inv_def producer_inv_def)
qed

lemma stress_reach_inv: "stress_reach n s \<Longrightarrow> stress_inv n s"
  by (induction rule: stress_reach.induct) (auto intro: stress_inv_start stress_inv_step)

text \<open>All published bytes are those of the only writer.\<close>

lemma bytes_of_only:
  assumes "\<forall>w. w \<noteq> 0 \<longrightarrow> bytes_of w cs = []"
  shows "bytes_of 0 cs = map snd cs"
proof -
  have "fst c = 0" if "c \<in> set cs" for c
  proof (rule ccontr)
    assume "fst c \<noteq> 0"
    then have "filter (\<lambda>d. fst d = fst c) cs = []" using assms by (simp add: bytes_of_def)
    then show False using that by (auto simp: filter_empty_conv)
  qed
  then show ?thesis by (simp add: bytes_of_def)
qed

lemma producer_stream:
  assumes "char_smp_inv (dev s)" "producer_inv n s"
  shows "received (dev s) @ char_content (kring (dev s)) @ pending (writers (dev s) 0)
    = submitted (dev s) 0"
proof -
  have "bytes_of w (committed (dev s)) = []" if "w \<noteq> 0" for w
    using char_smp_invD(4) [OF assms(1), of w] assms(2) that by (simp add: producer_inv_def)
  then have "bytes_of 0 (committed (dev s)) = map snd (committed (dev s))"
    using bytes_of_only by blast
  then show ?thesis
    using char_smp_invD(4) [OF assms(1), of 0] assms(1) unfolding char_smp_inv_def by (metis append_assoc)
qed

lemma stress_stream:
  "stress_inv n s \<Longrightarrow> received (dev s) @ char_content (kring (dev s)) @ pending (writers (dev s) 0)
    = submitted (dev s) 0"
  using producer_stream [OF char_smp_reach_inv] unfolding stress_inv_def by blast

text \<open>The counters against the stream, and their range.\<close>

lemma stress_counted:
  assumes "stress_inv n s"
  shows "stress_reader_count s + (if cons s = K_count then 1 else 0) = int (length (received (dev s)))"
    "0 \<le> stress_reader_count s"
  using assms by (simp_all add: stress_inv_def)

lemma stress_range:
  assumes "stress_inv n s"
  shows "length (received (dev s)) \<le> length (messages n)"
    "0 \<le> total_bytes s" "total_bytes s \<le> int (length (messages n))" "writer_count s = total_bytes s"
proof -
  have inv: "producer_inv n s" using assms by (simp add: stress_inv_def)
  have "\<exists>i\<le>n. \<exists>j\<le>n. submitted (dev s) 0 = messages i \<and> total_bytes s = int (length (messages j))"
  proof (cases "prod s")
    case (P_write i)
    then show ?thesis
      using inv by (intro exI [of _ "Suc i"] conjI exI [of _ i]) (simp_all add: producer_inv_def)
  qed (use inv in \<open>auto simp: producer_inv_def\<close>)
  then show "length (received (dev s)) \<le> length (messages n)"
    "0 \<le> total_bytes s" "total_bytes s \<le> int (length (messages n))"
    using arg_cong [OF stress_stream [OF assms], of length] messages_mono by fastforce+
  show "writer_count s = total_bytes s" using inv by (simp add: producer_inv_def)
qed

section \<open>Runs of the producer\<close>

text \<open>Between its bytes: nobody holds the lock and only the producer is in the device.\<close>

definition undisturbed :: "stress \<Rightarrow> stress \<Rightarrow> bool" where
  "undisturbed s s' \<longleftrightarrow> cons s' = cons s \<and> consumer (dev s') = consumer (dev s)
     \<and> received (dev s') = received (dev s) \<and> spinlock (dev s') = None
     \<and> (\<forall>w. w \<noteq> 0 \<longrightarrow> writers (dev s') w = Outside)
     \<and> writer_asleep (kring (dev s')) = writer_asleep (kring (dev s))"

lemma undisturbed_trans: "undisturbed s t \<Longrightarrow> undisturbed t u \<Longrightarrow> undisturbed s u"
  by (simp add: undisturbed_def)

lemma undisturbed_self: "undisturbed s t \<Longrightarrow> undisturbed t t"
  by (simp add: undisturbed_def)

locale producer_runs =
  fixes n :: nat and R :: "stress \<Rightarrow> bool"
  assumes closed: "R s \<Longrightarrow> producer_step n s s' \<Longrightarrow> R s'"
    and ring: "R s \<Longrightarrow> char_inv (kring (dev s))"
begin

text \<open>A step of the device inside \<open>write\<close>.\<close>

lemma write_run:
  assumes "R s" "prod s = P_write i" "writers (dev s) 0 \<noteq> Outside" "writer_step (dev s) t"
    and "submitted t = submitted (dev s)" "\<forall>w. w \<noteq> 0 \<longrightarrow> writers t w = Outside"
  obtains u where "R u" "dev u = t" "prod u = P_write i" "cons u = cons s"
  using closed [OF assms(1) producer_step.p_run [OF assms(2,3,4,5,6)]] assms(2) that by simp

lemma stress_byte:
  assumes reach: "R s" and p: "prod s = P_write i" "writers (dev s) 0 = Acquire (b # bs)"
    and q: "undisturbed s s" and room: "has_room (kring (dev s))"
  shows "\<exists>s'. R s' \<and> undisturbed s s' \<and> prod s' = P_write i
    \<and> writers (dev s') 0 = (if bs = [] then Outside else Acquire bs)
    \<and> char_content (kring (dev s')) = char_content (kring (dev s)) @ [b]"
proof -
  let ?t = "dev s"
  define t1 where "t1 = ?t\<lparr>spinlock := Some 0, writers := (writers ?t)(0 := Locked (b # bs) (char_rd (kring ?t)))\<rparr>"
  define t2 where "t2 = t1\<lparr>kring := store_char (char_wr (kring t1)) b (kring t1),
    writers := (writers t1)(0 := Stored (b # bs))\<rparr>"
  define t3 where "t3 = t2\<lparr>kring := set_char_wr (char_next (char_wr (kring t2))) (kring t2), spinlock := None,
    writers := (writers t2)(0 := (if bs = [] then Outside else Acquire bs)),
    committed := committed t2 @ [(0, b)]\<rparr>"
  note ts = t1_def t2_def t3_def
  have others: "\<forall>w. w \<noteq> 0 \<longrightarrow> writers ?t w = Outside" "spinlock ?t = None"
    using q by (auto simp: undisturbed_def)
  have step1: "writer_step ?t t1"
    unfolding t1_def by (rule writer_step.acquire [OF p(2) others(2)])
  have step2: "writer_step t1 t2"
    unfolding t2_def by (rule writer_step.store [where snap = "char_rd (kring ?t)"])
      (use room in \<open>simp_all add: t1_def has_room_def\<close>)
  have step3: "writer_step t2 t3"
    unfolding t3_def by (rule writer_step.publish) (simp add: t2_def)
  obtain s1 where s1: "R s1" "dev s1 = t1" "prod s1 = P_write i" "cons s1 = cons s"
    by (rule write_run [OF reach p(1) _ step1]) (use p(2) others in \<open>simp_all add: ts\<close>)
  obtain s2 where s2: "R s2" "dev s2 = t2" "prod s2 = P_write i" "cons s2 = cons s1"
    by (rule write_run [OF s1(1,3), of t2]) (use s1(2) step2 others in \<open>simp_all add: ts\<close>)
  obtain s3 where s3: "R s3" "dev s3 = t3" "prod s3 = P_write i" "cons s3 = cons s2"
    by (rule write_run [OF s2(1,3), of t3]) (use s2(2) step3 others in \<open>simp_all add: ts\<close>)
  have "char_inv (kring ?t)"
    by (rule ring [OF reach])
  then have "char_content (kring t3) = char_content (kring ?t) @ [b]"
    using publish_stored(2) [of "kring t2" b] store_at_write_index [of "kring ?t" b] room
    by (simp add: ts store_char_def has_room_def)
  then show ?thesis
    using s1(4) s2(4) s3 others q by (intro exI [of _ s3]) (simp add: ts undisturbed_def)
qed

lemma stress_bytes:
  assumes "R s" "prod s = P_write i" "writers (dev s) 0 = Acquire bs" "bs \<noteq> []"
    and "undisturbed s s"
    and "length (char_content (kring (dev s))) + length bs \<le> TELEMETRY_RING_BUFFER_CAPACITY - 1"
  shows "\<exists>s'. R s' \<and> undisturbed s s' \<and> prod s' = P_write i
    \<and> writers (dev s') 0 = Outside
    \<and> length (char_content (kring (dev s'))) = length (char_content (kring (dev s))) + length bs"
  using assms
proof (induction bs arbitrary: s)
  case Nil
  then show ?case by simp
next
  case (Cons b bs)
  have "char_inv (kring (dev s))"
    by (rule ring [OF Cons.prems(1)])
  then have "has_room (kring (dev s))" using Cons.prems(6) by (simp add: has_room_iff)
  then obtain t where t: "R t" "undisturbed s t" "prod t = P_write i"
    "writers (dev t) 0 = (if bs = [] then Outside else Acquire bs)"
    "char_content (kring (dev t)) = char_content (kring (dev s)) @ [b]"
    using stress_byte [OF Cons.prems(1-3,5)] by blast
  show ?case
  proof (cases "bs = []")
    case True
    then show ?thesis using t by (intro exI [of _ t]) simp
  next
    case False
    then obtain u where "R u" "undisturbed t u" "prod u = P_write i"
      "writers (dev u) 0 = Outside"
      "length (char_content (kring (dev u))) = length (char_content (kring (dev t))) + length bs"
      using Cons.IH [OF t(1,3) _ False undisturbed_self [OF t(2)]] t(4,5) Cons.prems(6)
      by (auto simp: Suc_le_eq)
    then show ?thesis using t undisturbed_trans by (intro exI [of _ u]) simp
  qed
qed

lemma stress_message:
  assumes "R s" "prod s = P_loop i" "i < n" "undisturbed s s"
    and "length (char_content (kring (dev s))) + length (producer_msg i)
      \<le> TELEMETRY_RING_BUFFER_CAPACITY - 1"
  shows "\<exists>s'. R s' \<and> undisturbed s s' \<and> prod s' = P_loop (i + 1)
    \<and> length (char_content (kring (dev s')))
        = length (char_content (kring (dev s))) + length (producer_msg i)"
proof -
  define a where "a = s\<lparr>dev := write_call 0 (producer_msg i) (dev s), prod := P_write i, bytes_written := 0\<rparr>"
  have a: "R a" "undisturbed s a" "prod a = P_write i"
    "writers (dev a) 0 = Acquire (producer_msg i)" "kring (dev a) = kring (dev s)"
    using closed [OF assms(1) producer_step.p_call [OF assms(2,3)]] assms(4)
    by (simp_all add: a_def write_call_def undisturbed_def)
  obtain b where b: "R b" "undisturbed a b" "prod b = P_write i"
    "writers (dev b) 0 = Outside" "length (char_content (kring (dev b)))
      = length (char_content (kring (dev s))) + length (producer_msg i)"
    using stress_bytes [OF a(1,3,4) _ undisturbed_self [OF a(2)]] assms(5) a(5) by auto
  from closed [OF b(1) producer_step.p_return [OF b(3,4)]] b(5)
    undisturbed_trans [OF a(2) b(2)]
  show ?thesis by (auto simp: undisturbed_def)
qed

lemma stress_messages:
  assumes "R s" "prod s = P_loop 0" "undisturbed s s" "char_content (kring (dev s)) = []"
    and "i \<le> n" "length (messages n) \<le> TELEMETRY_RING_BUFFER_CAPACITY - 1"
  shows "\<exists>s'. R s' \<and> undisturbed s s' \<and> prod s' = P_loop i
    \<and> length (char_content (kring (dev s'))) = length (messages i)"
  using assms(5)
proof (induction i)
  case 0
  then show ?case using assms(1-4) by (intro exI [of _ s]) simp
next
  case (Suc i)
  then obtain t where t: "R t" "undisturbed s t" "prod t = P_loop i"
    "length (char_content (kring (dev t))) = length (messages i)" by auto
  have "messages n = messages (Suc i) @ concat (map producer_msg [Suc i..<n])"
    using Suc.prems upt_add_eq_append [of 0 "Suc i" "n - Suc i"]
    by (simp add: messages_def del: upt_Suc)
  then have "length (messages (Suc i)) \<le> TELEMETRY_RING_BUFFER_CAPACITY - 1"
    using assms(6) by simp
  then obtain u where "R u" "undisturbed t u" "prod u = P_loop (i + 1)"
    "length (char_content (kring (dev u))) = length (messages i) + length (producer_msg i)"
    using stress_message [OF t(1,3) _ undisturbed_self [OF t(2)]] t(4) Suc.prems by auto
  then show ?case using undisturbed_trans [OF t(2)] by auto
qed

end

lemma stress_producer: "stress_reach n s \<Longrightarrow> producer_step n s s' \<Longrightarrow> stress_reach n s'"
  by (rule stress_reach.step [OF _ stress_step.producer])

interpretation zero_copy_run: producer_runs n "stress_reach n" for n
proof unfold_locales
  show "stress_reach n s'" if "stress_reach n s" "producer_step n s s'" for s s'
    by (rule stress_producer [OF that])
  show "char_inv (kring (dev s))" if "stress_reach n s" for s
    using stress_reach_inv [OF that] char_smp_reach_inv by (simp add: stress_inv_def char_smp_inv_def)
qed

text \<open>The consumer that has seen the empty ring before anything was written.\<close>

lemma consumer_saw_empty:
  "\<exists>s. stress_reach n s \<and> prod s = P_loop 0 \<and> cons s = K_check \<and> undisturbed s s
     \<and> char_content (kring (dev s)) = [] \<and> received (dev s) = []"
proof -
  let ?s = stress_start
  let ?t = "char_smp_start\<lparr>consumer := C_empty\<rparr>"
  have "consumer_step (dev ?s) ?t"
    unfolding stress_start_def stress.simps
    by (rule consumer_step.load_none) (simp_all add: char_smp_start_def zeroed_page_def zero_lane_def)
  from stress_reach.step [OF stress_reach.start stress_step.c_step [OF _ this]]
  have r1: "stress_reach n (?s\<lparr>dev := ?t\<rparr>)"
    by (simp add: stress_start_def char_smp_start_def)
  have "consumer_step ?t (?t\<lparr>consumer := C_top\<rparr>)"
    by (rule consumer_step.empty_wait)
      (simp_all add: char_smp_start_def writer_asleep_def zeroed_page_def zero_lane_def)
  from stress_reach.step [OF r1 stress_step.c_step [of _ "?t\<lparr>consumer := C_top\<rparr>"]] this
  have "stress_reach n (?s\<lparr>dev := ?t\<lparr>consumer := C_top\<rparr>, cons := K_check\<rparr>)" (is "stress_reach n ?u")
    by (simp add: stress_start_def)
  moreover have "prod ?u = P_loop 0" "cons ?u = K_check" "undisturbed ?u ?u"
    "char_content (kring (dev ?u)) = []" "received (dev ?u) = []"
    by (simp_all add: stress_start_def undisturbed_def char_smp_start_def)
  ultimately show ?thesis by blast
qed

text \<open>A message fits its buffer of 32 bytes, for every value of the counter.\<close>

lemma producer_msg_fits: "i < 2 ^ 31 \<Longrightarrow> length (producer_msg i) + 1 \<le> 32"
  using length_decimal [of i 9] by (simp add: producer_msg_def)

section \<open>Properties of the stress program\<close>

text \<open>
  C18. The three counters of the stress program with the zero-copy consumer, under every
  interleaving of the two threads in which no signal arrives, for messages of fewer than
  \<open>2 ^ 31\<close> bytes together. Each counter stays in the range of the C type \<open>int\<close>. The results of
  \<open>write\<close> that the producer added up are the lengths of the messages it meant to write. The
  consumer has counted the bytes that it took, but for one between the store of the read index and
  the increment. Once the producer is done, the bytes taken followed by those in the ring are the
  messages in order, and the counters of both sides differ by what is still in the ring and that
  one byte. A producer that sleeps has the sleep flag raised, so its wake-up cannot be lost.
\<close>

theorem stress_accounting:
  assumes "stress_reach n s" "length (messages n) < 2 ^ 31"
  shows "(\<forall>c \<in> {writer_count s, stress_reader_count s, total_bytes s}. 0 \<le> c \<and> c < 2 ^ 31)
    \<and> writer_count s = total_bytes s
    \<and> stress_reader_count s + (if cons s = K_count then 1 else 0) = int (length (received (dev s)))
    \<and> (prod s = P_done \<longrightarrow> received (dev s) @ char_content (kring (dev s)) = messages n
      \<and> writer_count s = int (length (messages n))
      \<and> stress_reader_count s + (if cons s = K_count then 1 else 0)
          + int (length (char_content (kring (dev s)))) = writer_count s)
    \<and> (\<forall>bs. writers (dev s) 0 = Sleeping bs \<longrightarrow> writer_asleep (kring (dev s)))"
proof -
  have inv: "stress_inv n s" by (rule stress_reach_inv [OF assms(1)])
  have counted: "stress_reader_count s + (if cons s = K_count then 1 else 0) = int (length (received (dev s)))"
    "0 \<le> stress_reader_count s"
    using stress_counted [OF inv] by blast+
  have range: "length (received (dev s)) \<le> length (messages n)" "0 \<le> total_bytes s"
    "total_bytes s \<le> int (length (messages n))" "writer_count s = total_bytes s"
    using stress_range [OF inv] by blast+
  have "received (dev s) @ char_content (kring (dev s)) = messages n"
    "writer_count s = int (length (messages n))" if "prod s = P_done"
    using stress_stream [OF inv] inv that by (simp_all add: stress_inv_def producer_inv_def)
  moreover have "writer_asleep (kring (dev s))" if "writers (dev s) 0 = Sleeping bs" for bs
    using inv that by (simp add: stress_inv_def producer_inv_def)
  moreover have "stress_reader_count s + (if cons s = K_count then 1 else 0)
      + int (length (char_content (kring (dev s)))) = writer_count s" if fin: "prod s = P_done"
    using counted(1) arg_cong [OF calculation(1) [OF fin], of length] calculation(2) [OF fin] by simp
  moreover have "writer_count s < 2 ^ 31" "stress_reader_count s < 2 ^ 31"
    using range counted assms(2) by (simp_all split: if_splits)
  ultimately show ?thesis using range counted by simp
qed

text \<open>
  The consumer may leave before it has read anything. It tests the finish flag after it has
  found the ring empty, not before: if the producer writes all its messages in between (as many
  as fit the ring) and finishes, both threads end with nothing read.
\<close>

theorem stress_early_exit:
  assumes "length (messages n) \<le> TELEMETRY_RING_BUFFER_CAPACITY - 1"
  shows "\<exists>s. stress_reach n s \<and> prod s = P_done \<and> cons s = K_left
    \<and> stress_reader_count s = 0 \<and> writer_count s = int (length (messages n))"
proof -
  obtain a where a: "stress_reach n a" "prod a = P_loop 0" "cons a = K_check" "undisturbed a a"
    "char_content (kring (dev a)) = []" "received (dev a) = []" using consumer_saw_empty by blast
  obtain b where b: "stress_reach n b" "undisturbed a b" "prod b = P_loop n"
    using zero_copy_run.stress_messages [OF a(1,2,4,5) le_refl assms] by blast
  define c where "c = b\<lparr>prod := P_done, writer_is_finished_flag := True\<rparr>"
  define d where "d = c\<lparr>cons := K_left\<rparr>"
  have c: "stress_reach n c"
    unfolding c_def by (rule stress_producer [OF b(1) producer_step.p_finish [OF b(3)]]) simp
  have "cons c = K_check" using a(3) b(2) by (simp add: c_def undisturbed_def)
  then have d: "stress_reach n d"
    using stress_reach.step [OF c stress_step.c_check] by (simp add: d_def c_def)
  moreover have "stress_reader_count d = 0"
    using stress_counted [OF stress_reach_inv [OF d]] a(6) b(2) by (simp add: d_def c_def undisturbed_def)
  moreover have "writer_count d = int (length (messages n))"
    using stress_reach_inv [OF d] by (simp add: stress_inv_def producer_inv_def d_def c_def)
  ultimately show ?thesis by (intro exI [of _ d]) (simp add: d_def c_def)
qed

lemma producer_msg_0: "producer_msg 0 = [86, 65, 76, 95, 48]"
proof -
  have "decimal 0 = ''0''" by code_simp
  then show ?thesis by (simp add: producer_msg_def)
qed

theorem stress_early_exit_witness:
  "\<exists>s. stress_reach 1 s \<and> prod s = P_done \<and> cons s = K_left
     \<and> stress_reader_count s = 0 \<and> writer_count s = 5"
  using stress_early_exit [of 1] by (simp add: producer_msg_0 layout_simps)

theorem stress_accounting_witness:
  "\<exists>s. stress_reach 1 s \<and> prod s = P_done \<and> received (dev s) = []
     \<and> char_content (kring (dev s)) = [86, 65, 76, 95, 48]"
proof -
  obtain b where b: "stress_reach 1 b" "prod b = P_loop 1" "received (dev b) = []"
  proof -
    obtain a where a: "stress_reach 1 a" "prod a = P_loop 0" "undisturbed a a"
      "char_content (kring (dev a)) = []" "received (dev a) = []" using consumer_saw_empty by blast
    obtain b where "stress_reach 1 b" "undisturbed a b" "prod b = P_loop 1"
      using zero_copy_run.stress_messages [OF a(1-4) le_refl] by (auto simp: producer_msg_0 layout_simps)
    then show thesis using that a(5) by (simp add: undisturbed_def)
  qed
  let ?c = "b\<lparr>prod := P_done, writer_is_finished_flag := True\<rparr>"
  have "stress_reach 1 ?c"
    by (rule stress_producer [OF b(1) producer_step.p_finish [OF b(2)]]) simp
  from stress_accounting [OF this] this b(3) show ?thesis
    by (intro exI [of _ ?c]) (simp add: producer_msg_0)
qed

text \<open>An argument that is 0, or no number, divides by zero in \<open>main\<close> itself.\<close>

lemma stress_args_zero:
  "length argv > 2 \<Longrightarrow> atoi (argv ! 2) = 0 \<Longrightarrow> stress_args argv = DivideByZero"
  by (simp add: stress_args_def)

lemma stress_args_large:
  assumes "length argv > 2" "modulo_divisor < \<bar>atoi (argv ! 2)\<bar>"
  shows "\<exists>n c. stress_args argv = Return (n, 0, c)"
proof -
  have "0 < modulo_divisor" by (simp add: modulo_divisor_def layout_simps)
  then have "atoi (argv ! 2) \<noteq> 0" "c_div modulo_divisor (atoi (argv ! 2)) = 0"
    using assms(2) by (auto simp: c_div_def)
  then show ?thesis using assms(1) by (simp add: stress_args_def)
qed

text \<open>The second pass over a ring with a sleeping writer divides.\<close>

lemma zero_copy_divides:
  assumes "char_inv r" "writer_asleep r" "2 \<le> length (char_content r)"
  shows "zero_copy_loop 0 ((\<lambda>r. r, fin) # (\<lambda>r. r, fin') # envs) zc_start r = DivideByZero"
proof -
  let ?r = "set_char_rd (char_next (char_rd r)) r"
  have some: "char_rd r \<noteq> char_wr r"
    using assms(3) char_content_nil_iff [OF assms(1)] by auto
  note take = take_oldest [OF assms(1) some]
  have "char_content ?r \<noteq> []" using assms(3) take(2) by auto
  then have "char_rd ?r \<noteq> char_wr ?r" using char_content_nil_iff [OF take(1)] by simp
  then show ?thesis
    using some assms(2) char_inv_bounds [OF assms(1)] char_inv_bounds [OF take(1)]
    by (simp add: zero_copy_iter_def Let_def zc_start_def)
qed

text \<open>
  The second argument of the stress program is not checked. A value above the capacity of
  the ring makes the divisor of the kick counter 0, and the zero-copy consumer then divides by
  zero at its second byte if a writer is asleep.
\<close>

theorem stress_divisor_zero:
  assumes "length argv > 2" "modulo_divisor < \<bar>atoi (argv ! 2)\<bar>"
    and "char_inv r" "writer_asleep r" "2 \<le> length (char_content r)"
  shows "\<exists>n d c. stress_args argv = Return (n, d, c)
    \<and> zero_copy_loop d ((\<lambda>r. r, fin) # (\<lambda>r. r, fin') # envs) zc_start r = DivideByZero"
  using stress_args_large [OF assms(1,2)] zero_copy_divides [OF assms(3-5)] by blast

theorem stress_divisor_zero_witness:
  "\<exists>n d c. stress_args [''stress'', ''10'', ''2000''] = Return (n, d, c)
     \<and> zero_copy_loop d [(\<lambda>r. r, False), (\<lambda>r. r, False)] zc_start
         (set_char_flags TELEMETRY_FLAG_WRITER_ASLEEP two_byte_page) = DivideByZero"
proof -
  let ?r = "set_char_flags TELEMETRY_FLAG_WRITER_ASLEEP two_byte_page"
  have "atoi ''2000'' = 2000" by code_simp
  moreover have "char_inv ?r" "char_content ?r = [65, 66]"
    using two_byte_page by simp_all
  moreover have "writer_asleep ?r" by (simp add: writer_asleep_def set_char_flags_def flag_defs)
  ultimately show ?thesis
    using stress_divisor_zero [of "[''stress'', ''10'', ''2000'']" ?r False False "[]"]
    by (simp add: modulo_divisor_def layout_simps numeral_2_eq_2)
qed

section \<open>The thread releases what it acquired\<close>

lemma zero_copy_consumer_releases:
  assumes "zero_copy_consumer page_size k d envs r = Return (evs, res)"
    and "\<forall>z r' out left. res = Some (z, r', out, left) \<longrightarrow> left"
  shows "evs = [] \<or> evs = [Open (open_ret k), Close (open_ret k)]
    \<or> (\<exists>m. evs = [Open (open_ret k), Map m, Unmap m, Close (open_ret k)])"
  using assms
  by (auto simp: zero_copy_consumer_def bind_outcome_Return split: if_splits option.splits)

end
