(* ===== verification/ReadWake.thy ===== *)
theory ReadWake
  imports ReadSMP
begin

text \<open>
  The sleep of a writer against \<open>dev_read\<close> (\<open>kernel/telemetry_core.c\<close>). A read wakes the
  wait queue whenever it has taken a byte; it does not look at the sleep flag that the zero-copy
  consumer goes by. With one reader whose buffer is writable no wake-up is lost.
\<close>

section \<open>Runs without a fault\<close>

text \<open>How many bytes a read has taken out of the ring so far.\<close>

fun bytes_done :: "reader_pc \<Rightarrow> nat" where
  "bytes_done R_idle = 0"
| "bytes_done (R_top len n) = n"
| "bytes_done (R_snap len n snap) = n"
| "bytes_done (R_more len n) = n"
| "bytes_done (R_put len n) = n"
| "bytes_done (R_advance len n rd) = n"

text \<open>A read whose \<open>put_user\<close> fails returns at once and wakes nobody.\<close>

definition read_fault :: "char_sys \<Rightarrow> char_sys \<Rightarrow> bool" where
  "read_fault s s' \<longleftrightarrow> (\<exists>len n. readers s 0 = R_more len n) \<and> readers s' 0 = R_idle"

inductive sound_read_reach :: "char_sys \<Rightarrow> bool" where
  start: "sound_read_reach char_sys_start"
| writer: "sound_read_reach s \<Longrightarrow> writer_step (smp s) t \<Longrightarrow> sound_read_reach (s\<lparr>smp := t\<rparr>)"
| reader: "sound_read_reach s \<Longrightarrow> reader_step 0 s s' \<Longrightarrow> \<not> read_fault s s' \<Longrightarrow> sound_read_reach s'"

lemma sound_one_reader: "sound_read_reach s \<Longrightarrow> one_reader_reach s"
  by (induction rule: sound_read_reach.induct) (auto intro: one_reader_reach.intros)

lemma sound_inv: "sound_read_reach s \<Longrightarrow> reader_inv s"
  by (rule reader_inv_reach [OF sound_one_reader])

text \<open>The writers alone, before the first read.\<close>

interpretation reading: writer_runs "\<lambda>t. sound_read_reach (char_sys_start\<lparr>smp := t\<rparr>)"
proof unfold_locales
  have "char_sys_start\<lparr>smp := char_smp_start\<rparr> = char_sys_start" by (simp add: char_sys_start_def)
  then show "sound_read_reach (char_sys_start\<lparr>smp := char_smp_start\<rparr>)" using sound_read_reach.start by simp
  show "sound_read_reach (char_sys_start\<lparr>smp := t'\<rparr>)"
    if "sound_read_reach (char_sys_start\<lparr>smp := t\<rparr>)" "writer_step t t'" for t t'
    using sound_read_reach.writer [OF that(1), of t'] that(2) by simp
  show "char_smp_inv t" if "sound_read_reach (char_sys_start\<lparr>smp := t\<rparr>)" for t
    using sound_inv [OF that] by (simp add: reader_inv_def)
qed

section \<open>Who sleeps has a reason\<close>

definition sleep_ok :: "char_sys \<Rightarrow> bool" where
  "sleep_ok s \<longleftrightarrow> (\<forall>w bs. writers (smp s) w = Sleeping bs \<longrightarrow>
     \<not> has_room (kring (smp s)) \<or> 0 < bytes_done (readers s 0))"

lemma sleeping_wake_all [simp]: "wake_all ws w \<noteq> Sleeping bs"
  by (simp add: wake_all_def split: writer_pc.split)

lemma has_room_frame [simp]:
  "has_room (store_char i b r) = has_room r" "has_room (raise_asleep r) = has_room r"
  "has_room (clear_asleep r) = has_room r"
  by (simp_all add: has_room_def store_char_def raise_asleep_def clear_asleep_def set_char_flags_def)

text \<open>A writer falls asleep at a full ring only, and only a full ring stays without room.\<close>

lemma writer_step_sleep:
  assumes "writer_step t t'" "char_smp_inv t" "writers t' w = Sleeping bs" "has_room (kring t')"
  shows "writers t w = Sleeping bs \<and> has_room (kring t)"
  using assms(1)
proof (cases rule: writer_step.cases)
  case (publish v b cs)
  then show ?thesis
    using assms(3) char_smp_invD(3) [OF assms(2), of v] by (auto split: if_splits)
next
  case (push_publish v b cs)
  then show ?thesis
    using assms(3) char_smp_invD(3) [OF assms(2), of v] by (auto split: if_splits)
qed (use assms(3,4) in \<open>auto split: if_splits\<close>)

lemma sleep_ok_writer:
  assumes "writer_step (smp s) t" "char_smp_inv (smp s)" "sleep_ok s"
  shows "sleep_ok (s\<lparr>smp := t\<rparr>)"
  using writer_step_sleep [OF assms(1,2)] assms(3) unfolding sleep_ok_def by auto

lemma sleep_ok_reader:
  assumes "reader_step 0 s s'" "\<not> read_fault s s'" "sleep_ok s"
  shows "sleep_ok s'"
  using assms
proof (induction "0 :: nat" s s' rule: reader_step.induct)
  case (r_done s n)
  then show ?case by (cases n) (simp_all add: sleep_ok_def read_return_def)
next
  case (r_empty s len n snap)
  then show ?case by (cases n) (simp_all add: sleep_ok_def read_return_def)
qed (auto simp: sleep_ok_def read_fault_def)

lemma sleep_ok_reach: "sound_read_reach s \<Longrightarrow> sleep_ok s"
proof (induction rule: sound_read_reach.induct)
  case start
  show ?case by (simp add: sleep_ok_def char_sys_start_def) (simp add: char_smp_start_def)
next
  case (writer s t)
  then show ?case using sleep_ok_writer sound_inv unfolding reader_inv_def by blast
next
  case (reader s s')
  then show ?case using sleep_ok_reader by blast
qed

text \<open>An undisturbed read of one byte from a ring that is not empty.\<close>

lemma read_one_byte:
  assumes "reader_inv s" "readers s 0 = R_idle" "char_content (kring (smp s)) \<noteq> []"
  shows "\<exists>t. (reader_step 0)\<^sup>*\<^sup>* s t \<and> readers t 0 = R_idle
    \<and> got t 0 = got s 0 @ [hd (char_content (kring (smp s)))]
    \<and> writers (smp t) = wake_all (writers (smp s))
    \<and> char_content (kring (smp t)) = tl (char_content (kring (smp s))) \<and> char_inv (kring (smp t))"
proof -
  let ?r = "kring (smp s)"
  have inv: "char_inv ?r" using assms(1) by (simp add: reader_inv_def char_smp_inv_def)
  have some: "char_rd ?r \<noteq> char_wr ?r" using assms(3) char_content_nil_iff [OF inv] by simp
  note take = take_oldest [OF inv some]
  let ?a = "s\<lparr>readers := (readers s)(0 := R_put 0 0), got := (got s)(0 := got s 0 @ [hd (char_content ?r)])\<rparr>"
  let ?t = "?a\<lparr>smp := read_return 1 (advance_rd (char_rd ?r) (smp s)), readers := (readers s)(0 := R_idle)\<rparr>"
  have "(reader_step 0)\<^sup>*\<^sup>* s ?a"
    using read_to_put [OF assms(2) some] char_inv_bounds [OF inv] take(2) by simp
  moreover have "(reader_step 0)\<^sup>*\<^sup>* ?a ?t" using read_from_put [of ?a 0] by simp
  ultimately have "(reader_step 0)\<^sup>*\<^sup>* s ?t" by simp
  then show ?thesis
    using take by (intro exI [of _ ?t]) (simp add: read_return_def advance_rd_def)
qed

section \<open>Properties of sleeping writers and reads\<close>

text \<open>
  C14. With one reader no wake-up is lost as long as its buffer is writable, that is, no
  \<open>put_user\<close> fails, under every interleaving of its loads and stores with any number of writers and
  pushers. A writer sleeps only while the ring is full or the current read has taken a byte and is
  still to wake it; and if it sleeps between two reads, the next read of a byte succeeds, makes
  room and wakes it. (A read that faults after a byte wakes nobody, as \<open>dev_read_fault\<close> shows.)
\<close>

theorem read_wakes_writers:
  assumes "sound_read_reach s" "writers (smp s) w = Sleeping bs"
  shows "(\<not> has_room (kring (smp s)) \<or> 0 < bytes_done (readers s 0))
    \<and> (readers s 0 = R_idle \<longrightarrow> (\<exists>t. (reader_step 0)\<^sup>*\<^sup>* s t \<and> readers t 0 = R_idle
         \<and> got t 0 = got s 0 @ [hd (char_content (kring (smp s)))]
         \<and> has_room (kring (smp t)) \<and> writers (smp t) w = Waiting bs))"
proof -
  have inv: "reader_inv s" by (rule sound_inv [OF assms(1)])
  then have ring: "char_inv (kring (smp s))" by (simp add: reader_inv_def char_smp_inv_def)
  have awake: "\<not> has_room (kring (smp s)) \<or> 0 < bytes_done (readers s 0)"
    by (rule sleep_ok_reach [OF assms(1), unfolded sleep_ok_def, rule_format, OF assms(2)])
  have "\<exists>t. (reader_step 0)\<^sup>*\<^sup>* s t \<and> readers t 0 = R_idle
      \<and> got t 0 = got s 0 @ [hd (char_content (kring (smp s)))]
      \<and> has_room (kring (smp t)) \<and> writers (smp t) w = Waiting bs" if idle: "readers s 0 = R_idle"
  proof -
    have "length (char_content (kring (smp s))) = TELEMETRY_RING_BUFFER_CAPACITY - 1"
      using awake idle char_fifo.content_le [OF ring] by (simp add: has_room_iff [OF ring])
    then have len: "length (char_content (kring (smp s))) = 1023" by (simp add: layout_simps)
    then have "char_content (kring (smp s)) \<noteq> []" by auto
    from read_one_byte [OF inv idle this] obtain t where t: "(reader_step 0)\<^sup>*\<^sup>* s t" "readers t 0 = R_idle"
      "got t 0 = got s 0 @ [hd (char_content (kring (smp s)))]" "writers (smp t) = wake_all (writers (smp s))"
      "char_content (kring (smp t)) = tl (char_content (kring (smp s)))" "char_inv (kring (smp t))" by blast
    have "has_room (kring (smp t))" using t(5) len by (simp add: has_room_iff [OF t(6)] layout_simps)
    moreover have "writers (smp t) w = Waiting bs" using t(4) assms(2) by (simp add: wake_all_def)
    ultimately show ?thesis using t(1-3) by blast
  qed
  then show ?thesis using awake by blast
qed

theorem read_wakes_writers_witness:
  "\<exists>s t. sound_read_reach s \<and> writers (smp s) 2 = Sleeping [9] \<and> (reader_step 0)\<^sup>*\<^sup>* s t
     \<and> writers (smp t) 2 = Waiting [9]"
proof -
  obtain u where u: "sound_read_reach (char_sys_start\<lparr>smp := u\<rparr>)"
    "writers u = (\<lambda>w. Outside)(1 := Sleeping [7], 2 := Sleeping [9])"
    using reading.two_asleep [of 7 9] by blast
  let ?s = "char_sys_start\<lparr>smp := u\<rparr>"
  have "writers (smp ?s) 2 = Sleeping [9]" "readers ?s 0 = R_idle"
    using u(2) by (simp_all add: char_sys_start_def)
  then show ?thesis using read_wakes_writers [OF u(1), of 2 "[9]"] u(1) by blast
qed

end
