(* ===== verification/StressRead.thy ===== *)
theory StressRead
  imports Stress ReadWake
begin

text \<open>
  The stress program of \<open>user/telemetry_user.c\<close> with its other consumer, the thread
  \<open>consumer\<close> that reads the device into a buffer of 32 bytes: first each thread by itself with
  its error paths, then both on the concurrent device.
\<close>

section \<open>The thread consumer by itself\<close>

text \<open>
  The loop: before each pass something may have happened to the page, and the finish flag has some
  value at its end. The result of \<open>open\<close> is not checked, so the descriptor may be negative. The
  last component says whether the loop was left (or the schedule ended first).
\<close>

fun consumer_loop ::
  "int \<Rightarrow> ((shared_ring \<Rightarrow> shared_ring) \<times> bool) list \<Rightarrow> int \<Rightarrow> shared_ring \<Rightarrow>
     (shared_ring \<times> u8 list \<times> int \<times> bool) outcome" where
  "consumer_loop fildes [] count r = Return (r, [], count, False)"
| "consumer_loop fildes ((env, fin) # envs) count r =
     bind_outcome (consumer_iter fildes fin count (env r)) (\<lambda>(r1, out1, count1, left).
       if left then Return (r1, out1, count1, True)
       else bind_outcome (consumer_loop fildes envs count1 r1) (\<lambda>(r2, out2, count2, left2).
         Return (r2, out1 @ out2, count2, left2)))"

definition consumer_thread ::
  "int \<Rightarrow> ((shared_ring \<Rightarrow> shared_ring) \<times> bool) list \<Rightarrow> shared_ring \<Rightarrow>
     (unit event list \<times> shared_ring \<times> u8 list \<times> int \<times> bool) outcome" where
  "consumer_thread fildes envs r =
     bind_outcome (consumer_loop fildes envs 0 r) (\<lambda>result.
       Return ((if fildes < 0 then [] else [Open fildes])
         @ (case result of (r', out, count, left) \<Rightarrow> if left then [Close fildes] else []), result))"

text \<open>Without a device every read returns -1, and the pass does nothing and goes on.\<close>

lemma consumer_iter_no_device:
  "fildes < 0 \<Longrightarrow> consumer_iter fildes fin count r = Return (r, [], count, False)"
  by (simp add: consumer_iter_def read_call_def)

lemma consumer_loop_no_device:
  "fildes < 0 \<Longrightarrow> \<exists>r'. consumer_loop fildes envs count r = Return (r', [], count, False)"
proof (induction envs arbitrary: r)
  case (Cons e envs)
  obtain r' where "consumer_loop fildes envs count (fst e r) = Return (r', [], count, False)"
    using Cons by blast
  then show ?case using Cons.prems by (cases e) (simp add: consumer_iter_no_device)
qed simp

text \<open>One pass over a ring that nobody else touches.\<close>

lemma consumer_iter_undisturbed:
  assumes "0 \<le> fildes" "char_inv r"
  shows "\<exists>r'. consumer_iter fildes fin count r = Return (r', take 31 (char_content r),
      count + int (min 31 (length (char_content r))), char_content r = [] \<and> fin)
    \<and> char_inv r' \<and> char_content r' = drop 31 (char_content r)"
  using dev_read_oldest [OF assms(2), of 31 "\<lambda>_. True"] assms(1)
  by (auto simp: consumer_iter_def read_call_def min.commute)

lemma consumer_loop_drains:
  assumes "0 \<le> fildes" "char_inv r" "length (char_content r) \<le> 31 * k"
  shows "\<exists>r'. consumer_loop fildes (replicate (Suc k) (\<lambda>r. r, True)) count r
    = Return (r', char_content r, count + int (length (char_content r)), True)
    \<and> char_inv r' \<and> char_content r' = []"
  using assms(2,3)
proof (induction k arbitrary: r count)
  case 0
  then show ?case
    using consumer_iter_undisturbed [OF assms(1) "0.prems"(1), of True count] by auto
next
  case (Suc k)
  obtain r1 where r1: "consumer_iter fildes True count r = Return (r1, take 31 (char_content r),
      count + int (min 31 (length (char_content r))), char_content r = [])"
    "char_inv r1" "char_content r1 = drop 31 (char_content r)"
    using consumer_iter_undisturbed [OF assms(1) Suc.prems(1), of True count] by auto
  show ?case
  proof (cases "char_content r = []")
    case True
    then show ?thesis using r1 by (auto simp: replicate_Suc)
  next
    case False
    have "length (char_content r1) \<le> 31 * k" using r1(3) Suc.prems(2) by simp
    from Suc.IH [OF r1(2) this, of "count + int (min 31 (length (char_content r)))"] r1 False
    show ?thesis by (auto simp: min_def)
  qed
qed

text \<open>What a pass counts is what it was given, on any page.\<close>

lemma dev_read_loop_count:
  "dev_read_loop (\<lambda>_. True) len k ready r out = Return (ret, woke, r', out') \<Longrightarrow>
     \<exists>m. ret = Inr m \<and> m + length out = k + length out'"
proof (induction len arbitrary: k ready r out)
  case 0
  then show ?case by simp
next
  case (Suc len)
  show ?case
  proof (cases "char_rd r = char_wr r")
    case True
    then show ?thesis using Suc.prems by simp
  next
    case False
    then show ?thesis using Suc.prems Suc.IH by (fastforce simp: Let_def split: if_splits)
  qed
qed

lemma consumer_iter_count:
  assumes "consumer_iter fildes fin count r = Return (r', out, count', left)"
  shows "count' = count + int (length out)"
proof (cases "fildes < 0")
  case True
  then show ?thesis using assms by (simp add: consumer_iter_no_device)
next
  case False
  then obtain ret woke r1 xs where read: "dev_read (\<lambda>_. True) 31 r = Return (ret, woke, r1, xs)"
    using assms by (auto simp: consumer_iter_def read_call_def bind_outcome_Return)
  then obtain m where "ret = Inr m" "m = length xs"
    using dev_read_loop_count [of 31 0 False r "[]"] by (auto simp: dev_read_def)
  then show ?thesis
    using assms read False by (auto simp: consumer_iter_def read_call_def split: if_splits)
qed

lemma consumer_loop_count:
  "consumer_loop fildes envs count r = Return (r', out, count', left) \<Longrightarrow>
     count' = count + int (length out)"
proof (induction envs arbitrary: count r out)
  case Nil
  then show ?case by simp
next
  case (Cons e envs)
  then show ?case
    by (cases e) (fastforce simp: bind_outcome_Return dest: consumer_iter_count split: if_splits prod.splits)
qed

section \<open>The thread producer by itself\<close>

text \<open>
  The loop of \<open>producer\<close> over the answers of its writes, \<open>writer_count\<close> and
  \<open>total_bytes\<close>: a write that failed or was cut short is not repeated.
\<close>

fun producer_loop :: "(nat \<Rightarrow> int) \<Rightarrow> nat \<Rightarrow> int \<times> int" where
  "producer_loop answer 0 = (0, 0)"
| "producer_loop answer (Suc i) =
     (let (written, total) = producer_loop answer i;
          bytes_written = answer i
      in (if 0 < bytes_written then written + bytes_written else written,
          total + int (length (producer_msg i))))"

lemma producer_loop_total: "snd (producer_loop answer n) = int (length (messages n))"
  by (induction n) (auto simp: Let_def split: prod.splits)

lemma producer_loop_written: "fst (producer_loop answer n) = (\<Sum>i<n. max 0 (answer i))"
  by (induction n) (auto simp: Let_def split: prod.splits)

lemma messages_length: "int (length (messages n)) = (\<Sum>i<n. int (length (producer_msg i)))"
  by (induction n) simp_all

section \<open>Both threads on the device\<close>

text \<open>
  Where the consumer is: before its \<open>read\<close>, inside it, past a read that returned 0, or out of
  its loop. \<open>side\<close> has the device and the producer, \<open>given\<close> what the reads have put into
  the buffers of the consumer, \<open>read_count\<close> its counter.
\<close>

datatype user_pc = U_loop | U_read | U_test | U_left

record read_stress =
  side :: stress
  reading :: reader_pc
  given :: "u8 list"
  user_pc :: user_pc
  read_count :: int

definition read_stress_start :: read_stress where
  "read_stress_start = \<lparr>side = stress_start, reading = R_idle, given = [], user_pc = U_loop, read_count = 0\<rparr>"

definition sys_of :: "read_stress \<Rightarrow> char_sys" where
  "sys_of s = \<lparr>smp = dev (side s), readers = (\<lambda>i. R_idle)(0 := reading s), got = (\<lambda>i. [])(0 := given s)\<rparr>"

definition with_sys :: "char_sys \<Rightarrow> read_stress \<Rightarrow> read_stress" where
  "with_sys t s = s\<lparr>side := (side s)\<lparr>dev := smp t\<rparr>, reading := readers t 0, given := got t 0\<rparr>"

text \<open>
  The steps: those of the producer and those of the reads, undisturbed by faults, as the buffer of
  the consumer is its own. The buffer has 32 bytes, of which 31 are asked for.
\<close>

inductive read_stress_step :: "nat \<Rightarrow> read_stress \<Rightarrow> read_stress \<Rightarrow> bool" for n where
  producer: "producer_step n (side s) b \<Longrightarrow> read_stress_step n s (s\<lparr>side := b\<rparr>)"
| u_call: "user_pc s = U_loop \<Longrightarrow> reader_step 0 (sys_of s) t \<Longrightarrow> readers t 0 = R_top (32 - 1) 0 \<Longrightarrow>
    read_stress_step n s ((with_sys t s)\<lparr>user_pc := U_read\<rparr>)"
| u_run: "user_pc s = U_read \<Longrightarrow> reader_step 0 (sys_of s) t \<Longrightarrow> readers t 0 \<noteq> R_idle \<Longrightarrow>
    read_stress_step n s (with_sys t s)"
| u_return: "user_pc s = U_read \<Longrightarrow> reader_step 0 (sys_of s) t \<Longrightarrow> readers t 0 = R_idle \<Longrightarrow>
    \<not> read_fault (sys_of s) t \<Longrightarrow> bytes_done (reading s) = bytes_read \<Longrightarrow>
    read_stress_step n s ((with_sys t s)\<lparr>read_count := read_count s + int bytes_read,
      user_pc := (if 0 < bytes_read then U_loop else U_test)\<rparr>)"
| u_test: "user_pc s = U_test \<Longrightarrow>
    read_stress_step n s (s\<lparr>user_pc := (if writer_is_finished_flag (side s) then U_left else U_loop)\<rparr>)"

inductive read_stress_reach :: "nat \<Rightarrow> read_stress \<Rightarrow> bool" for n where
  start: "read_stress_reach n read_stress_start"
| step: "read_stress_reach n s \<Longrightarrow> read_stress_step n s s' \<Longrightarrow> read_stress_reach n s'"

section \<open>The invariant of both threads\<close>

text \<open>How many bytes the current read has put into the buffer, and how many may still come.\<close>

fun bytes_put :: "reader_pc \<Rightarrow> nat" where
  "bytes_put (R_put len n) = n + 1"
| "bytes_put (R_advance len n rd) = n + 1"
| "bytes_put p = bytes_done p"

fun bytes_left :: "reader_pc \<Rightarrow> nat" where
  "bytes_left R_idle = 31"
| "bytes_left (R_top len n) = len"
| "bytes_left (R_snap len n snap) = len + 1"
| "bytes_left (R_more len n) = len + 1"
| "bytes_left (R_put len n) = len"
| "bytes_left (R_advance len n rd) = len"

definition read_stress_inv :: "nat \<Rightarrow> read_stress \<Rightarrow> bool" where
  "read_stress_inv n s \<longleftrightarrow> sound_read_reach (sys_of s) \<and> producer_inv n (side s)
     \<and> (user_pc s = U_read \<longleftrightarrow> reading s \<noteq> R_idle)
     \<and> int (length (given s)) = read_count s + int (bytes_put (reading s))
     \<and> bytes_put (reading s) + bytes_left (reading s) = 31
     \<and> (user_pc s = U_left \<longrightarrow> prod (side s) = P_done)"

text \<open>A step of the reader by itself.\<close>

lemma sys_of_with_sys:
  "reader_step 0 (sys_of s) t \<Longrightarrow> sys_of (with_sys t s) = t"
  by (erule reader_step.cases) (auto simp: sys_of_def with_sys_def fun_upd_idem)

lemma sys_of_simps [simp]:
  "readers (sys_of s) 0 = reading s" "got (sys_of s) 0 = given s" "smp (sys_of s) = dev (side s)"
  "sys_of (s\<lparr>user_pc := p\<rparr>) = sys_of s" "sys_of (s\<lparr>read_count := c\<rparr>) = sys_of s"
  "sys_of (s\<lparr>side := b\<rparr>) = (sys_of s)\<lparr>smp := dev b\<rparr>"
  by (simp_all add: sys_of_def)

lemma reader_step_counts:
  assumes "reader_step 0 s t"
  shows "readers s 0 \<noteq> R_idle \<Longrightarrow> readers t 0 \<noteq> R_idle \<Longrightarrow>
      bytes_put (readers t 0) + length (got s 0) = bytes_put (readers s 0) + length (got t 0)
      \<and> bytes_put (readers t 0) + bytes_left (readers t 0) = bytes_put (readers s 0) + bytes_left (readers s 0)"
    and "readers t 0 = R_idle \<Longrightarrow> got t 0 = got s 0 \<and> bytes_put (readers s 0) = bytes_done (readers s 0)"
    and "readers s 0 = R_idle \<Longrightarrow> got t 0 = got s 0"
  using assms by (cases rule: reader_step.cases; simp)+

lemma reader_step_device:
  "reader_step 0 s t \<Longrightarrow> submitted (smp t) = submitted (smp s)
    \<and> (\<forall>w. (writers (smp t) w = Outside) = (writers (smp s) w = Outside))
    \<and> pending (writers (smp t) 0) = pending (writers (smp s) 0)
    \<and> in_write (writers (smp t) 0) = in_write (writers (smp s) 0)
    \<and> (flag_ok (kring (smp s)) (writers (smp s) 0) \<longrightarrow> flag_ok (kring (smp t)) (writers (smp t) 0))"
  by (erule reader_step.cases; cases "writers (smp s) 0")
    (auto simp: read_return_def advance_rd_def wake_all_def split: writer_pc.splits)

lemma producer_inv_reader:
  assumes "reader_step 0 (sys_of s) t" "producer_inv n (side s)"
  shows "producer_inv n (side (with_sys t s))"
  using reader_step_device [OF assms(1)] assms(2)
  by (cases "prod (side s)") (auto simp: producer_inv_def with_sys_def)

lemma sound_read_producer:
  assumes "producer_step n (side s) b" "producer_inv n (side s)" "sound_read_reach (sys_of s)"
  shows "sound_read_reach ((sys_of s)\<lparr>smp := dev b\<rparr>)"
  using producer_step_dev [OF assms(1,2)]
proof
  assume "dev b = dev (side s)"
  then have "(sys_of s)\<lparr>smp := dev b\<rparr> = sys_of s" by (simp add: sys_of_def)
  then show ?thesis using assms(3) by simp
next
  assume "writer_step (dev (side s)) (dev b)"
  then show ?thesis using sound_read_reach.writer [OF assms(3)] by simp
qed

lemma read_stress_inv_step:
  assumes "read_stress_step n s s'" "read_stress_inv n s"
  shows "read_stress_inv n s'"
  using assms
proof (induction rule: read_stress_step.induct)
  case (producer s b)
  have "char_smp_inv (dev (side s))"
    using producer(2) sound_inv [of "sys_of s"] by (simp add: read_stress_inv_def reader_inv_def)
  then show ?case
    using producer producer_inv_step [OF producer(1)] producer_step_cons [OF producer(1)] sound_read_producer
    by (auto simp: read_stress_inv_def)
next
  case (u_call s t)
  then have idle: "reading s = R_idle" by (simp add: read_stress_inv_def)
  have "\<not> read_fault (sys_of s) t" using u_call(3) by (simp add: read_fault_def)
  then have "sound_read_reach t"
    using u_call sound_read_reach.reader unfolding read_stress_inv_def by blast
  then show ?case
    using u_call idle sys_of_with_sys [OF u_call(2)] producer_inv_reader [OF u_call(2)]
      reader_step_counts(3) [OF u_call(2)]
    by (simp add: read_stress_inv_def) (simp add: with_sys_def)
next
  case (u_run s t)
  then have busy: "reading s \<noteq> R_idle" by (simp add: read_stress_inv_def)
  have "\<not> read_fault (sys_of s) t" using u_run(3) by (simp add: read_fault_def)
  then have "sound_read_reach t"
    using u_run sound_read_reach.reader unfolding read_stress_inv_def by blast
  then show ?case
    using u_run busy sys_of_with_sys [OF u_run(2)] producer_inv_reader [OF u_run(2)]
      reader_step_counts(1) [OF u_run(2)]
    by (simp add: read_stress_inv_def) (simp add: with_sys_def)
next
  case (u_return s t bytes_read)
  have "sound_read_reach t"
    using u_return sound_read_reach.reader unfolding read_stress_inv_def by blast
  then show ?case
    using u_return sys_of_with_sys [OF u_return(2)] producer_inv_reader [OF u_return(2)]
      reader_step_counts(2) [OF u_return(2)]
    by (simp add: read_stress_inv_def) (simp add: with_sys_def)
next
  case (u_test s)
  then show ?case by (auto simp: read_stress_inv_def producer_inv_def)
qed

lemma read_stress_inv_start: "read_stress_inv n read_stress_start"
proof -
  have "sys_of read_stress_start = char_sys_start"
    by (auto simp: sys_of_def read_stress_start_def char_sys_start_def stress_start_def)
  then show ?thesis
    using sound_read_reach.start producer_inv_start
    by (simp add: read_stress_inv_def) (simp add: read_stress_start_def)
qed

lemma read_stress_reach_inv: "read_stress_reach n s \<Longrightarrow> read_stress_inv n s"
  by (induction rule: read_stress_reach.induct) (auto intro: read_stress_inv_start read_stress_inv_step)

section \<open>Runs of both threads\<close>

text \<open>The consumer whose first read returned 0, with the producer anywhere.\<close>

definition tested :: "stress \<Rightarrow> read_stress" where
  "tested b = \<lparr>side = b, reading = R_idle, given = [], user_pc = U_test, read_count = 0\<rparr>"

lemma first_read_empty: "read_stress_reach n (tested stress_start)"
proof -
  let ?s = "\<lambda>p u. \<lparr>side = stress_start, reading = p, given = [], user_pc = u, read_count = 0\<rparr>"
  let ?sys = "\<lambda>p. char_sys_start\<lparr>readers := (\<lambda>i. R_idle)(0 := p)\<rparr>"
  have sys: "sys_of (?s p u) = ?sys p" "with_sys (?sys q) (?s p u) = ?s q u" for p q u
    by (auto simp: sys_of_def with_sys_def char_sys_start_def stress_start_def)
  have empty: "char_wr (kring (smp (?sys p))) = 0" "char_rd (kring (smp (?sys p))) = 0" for p
    by (simp_all add: char_sys_start_def char_smp_start_def zeroed_page_def zero_lane_def)
  have "reader_step 0 (?sys R_idle) (?sys (R_top 31 0))"
    using reader_step.r_call [of "?sys R_idle" 0 31] by simp
  from read_stress_step.u_call [where s = "?s R_idle U_loop" and n = n, unfolded sys, OF _ this]
  have "read_stress_step n (?s R_idle U_loop) (?s (R_top 31 0) U_read)" by (simp add: sys)
  moreover have "read_stress_reach n (?s R_idle U_loop)"
    using read_stress_reach.start by (simp add: read_stress_start_def)
  ultimately have a: "read_stress_reach n (?s (R_top 31 0) U_read)" using read_stress_reach.step by blast
  have "reader_step 0 (?sys (R_top 31 0)) (?sys (R_snap 30 0 0))"
    using reader_step.r_load [of "?sys (R_top 31 0)" 0 30 0] empty(1) by (simp add: numeral_eq_Suc)
  from read_stress_step.u_run [where s = "?s (R_top 31 0) U_read" and n = n, unfolded sys, OF _ this]
  have "read_stress_step n (?s (R_top 31 0) U_read) (?s (R_snap 30 0 0) U_read)" by (simp add: sys)
  then have b: "read_stress_reach n (?s (R_snap 30 0 0) U_read)" using a read_stress_reach.step by blast
  have "read_return 0 t = t" for t by (simp add: read_return_def)
  then have "reader_step 0 (?sys (R_snap 30 0 0)) (?sys R_idle)"
    using reader_step.r_empty [of "?sys (R_snap 30 0 0)" 0 30 0 0] empty(2)
    by (simp add: char_sys_start_def)
  from read_stress_step.u_return [where s = "?s (R_snap 30 0 0) U_read" and n = n, unfolded sys, OF _ this]
  have "read_stress_step n (?s (R_snap 30 0 0) U_read) (?s R_idle U_test)" by (simp add: read_fault_def sys)
  then show ?thesis using b read_stress_reach.step unfolding tested_def by blast
qed

interpretation copying_run: producer_runs n "\<lambda>b. read_stress_reach n (tested b)" for n
proof unfold_locales
  show "read_stress_reach n (tested b)" if "read_stress_reach n (tested a)" "producer_step n a b" for a b
    using read_stress_reach.step [OF that(1) read_stress_step.producer [of n "tested a" b]] that(2)
    by (simp add: tested_def)
  show "char_inv (kring (dev b))" if "read_stress_reach n (tested b)" for b
  proof -
    have "sound_read_reach (sys_of (tested b))"
      using read_stress_reach_inv [OF that] by (simp add: read_stress_inv_def)
    from sound_inv [OF this] show ?thesis by (simp add: reader_inv_def char_smp_inv_def tested_def)
  qed
qed

lemma copying_all_written:
  assumes "length (messages n) \<le> TELEMETRY_RING_BUFFER_CAPACITY - 1"
  shows "\<exists>b. read_stress_reach n (tested b) \<and> prod b = P_done \<and> writer_is_finished_flag b"
proof -
  have "undisturbed stress_start stress_start" "prod stress_start = P_loop 0"
    "char_content (kring (dev stress_start)) = []"
    by (simp_all add: undisturbed_def stress_start_def char_smp_start_def)
  then obtain b where b: "read_stress_reach n (tested b)" "prod b = P_loop n"
    using copying_run.stress_messages [OF first_read_empty _ _ _ le_refl assms] by blast
  from copying_run.closed [OF b(1) producer_step.p_finish [OF b(2)]]
  have "read_stress_reach n (tested (b\<lparr>prod := P_done, writer_is_finished_flag := True\<rparr>))" by simp
  then show ?thesis by (intro exI [of _ "b\<lparr>prod := P_done, writer_is_finished_flag := True\<rparr>"]) simp
qed

section \<open>Properties of the copying consumer\<close>

text \<open>
  C40. The thread \<open>consumer\<close> by itself. With the device open, after the producer has finished and
  while nobody else touches the ring, it takes all that is in the ring in order, 31 bytes at a
  time, counts it and leaves at the first read that returns 0, having closed the device. If
  \<open>open\<close> failed it never leaves, whatever happens to the page and the finish flag meanwhile: every
  read returns -1, which passes both branches of the loop, and the finish flag is tested after a 0
  only. In either case, and under any schedule, the counter is the number of bytes that it was given.
\<close>

theorem copying_consumer_ends:
  assumes "char_inv r" "length (char_content r) \<le> 31 * k"
  shows "(0 \<le> fildes \<longrightarrow> (\<exists>r'. consumer_thread fildes (replicate (Suc k) (\<lambda>r. r, True)) r
        = Return ([Open fildes, Close fildes], r', char_content r, int (length (char_content r)), True)
      \<and> char_content r' = []))
    \<and> (fildes < 0 \<longrightarrow> (\<forall>envs. \<exists>r'. consumer_thread fildes envs r = Return ([], r', [], 0, False)))
    \<and> (\<forall>envs s evs s' out c left. consumer_thread fildes envs s = Return (evs, s', out, c, left) \<longrightarrow>
        c = int (length out))"
proof (intro conjI impI allI)
  assume "0 \<le> fildes"
  from consumer_loop_drains [OF this assms, of 0]
  show "\<exists>r'. consumer_thread fildes (replicate (Suc k) (\<lambda>r. r, True)) r
      = Return ([Open fildes, Close fildes], r', char_content r, int (length (char_content r)), True)
      \<and> char_content r' = []"
    using \<open>0 \<le> fildes\<close> by (auto simp: consumer_thread_def)
next
  fix envs assume "fildes < 0"
  then show "\<exists>r'. consumer_thread fildes envs r = Return ([], r', [], 0, False)"
    using consumer_loop_no_device [of fildes envs 0 r] by (auto simp: consumer_thread_def)
next
  fix envs s evs s' out c left
  assume "consumer_thread fildes envs s = Return (evs, s', out, c, left)"
  then show "c = int (length out)"
    using consumer_loop_count [of fildes envs 0 s s' out c left]
    by (auto simp: consumer_thread_def bind_outcome_Return)
qed

theorem copying_consumer_ends_witness:
  "(\<exists>r'. consumer_thread 3 (replicate 2 (\<lambda>r. r, True)) two_byte_page
      = Return ([Open 3, Close 3], r', [65, 66], 2, True))
   \<and> (\<exists>r'. consumer_thread (-1) (replicate 50 (\<lambda>r. r, True)) two_byte_page = Return ([], r', [], 0, False))"
  using copying_consumer_ends [OF two_byte_page(1), of 1 3] copying_consumer_ends [OF two_byte_page(1), of 1 "-1"]
  by (auto simp: two_byte_page numeral_2_eq_2)

text \<open>
  The two counters of the producer. \<open>total_bytes\<close> is the length of all messages, whatever
  the writes answer; \<open>writer_count\<close> is the sum of the positive answers, at most that, and equal
  to it exactly if every write took its whole message. With a device that did not open it is 0,
  and the thread ends all the same.
\<close>

theorem producer_counts:
  assumes "\<forall>i<n. answer i \<le> int (length (producer_msg i))"
  shows "producer_loop answer n = (\<Sum>i<n. max 0 (answer i), int (length (messages n)))
    \<and> fst (producer_loop answer n) \<le> snd (producer_loop answer n)
    \<and> (fst (producer_loop answer n) = snd (producer_loop answer n)
        \<longleftrightarrow> (\<forall>i<n. answer i = int (length (producer_msg i))))
    \<and> ((\<forall>i<n. answer i < 0) \<longrightarrow> fst (producer_loop answer n) = 0)"
proof -
  let ?f = "\<lambda>i. max 0 (answer i)" and ?g = "\<lambda>i. int (length (producer_msg i))"
  have le: "?f i \<le> ?g i" if "i < n" for i using assms that by simp
  have pos: "0 < ?g i" for i by simp
  have "(\<Sum>i<n. ?f i) \<le> (\<Sum>i<n. ?g i)" by (rule sum_mono) (use le in simp)
  moreover have "(\<Sum>i<n. ?f i) = (\<Sum>i<n. ?g i) \<longleftrightarrow> (\<forall>i<n. answer i = ?g i)"
  proof
    assume eq: "(\<Sum>i<n. ?f i) = (\<Sum>i<n. ?g i)"
    have "(\<Sum>i<n. ?g i - ?f i) = 0" using eq by (simp add: sum_subtractf)
    then have same: "\<forall>i<n. ?g i - ?f i = 0"
      by (subst (asm) sum_nonneg_eq_0_iff) (use le in auto)
    show "\<forall>i<n. answer i = ?g i"
    proof (intro allI impI)
      fix i assume "i < n"
      then have "?g i = ?f i" using same by simp
      then show "answer i = ?g i" using pos [of i] by (simp add: max_def split: if_splits)
    qed
  qed simp
  moreover have "(\<Sum>i<n. ?f i) = 0" if "\<forall>i<n. answer i < 0"
    using that by (intro sum.neutral) (auto simp: max_def)
  ultimately show ?thesis
    unfolding prod_eq_iff producer_loop_total producer_loop_written messages_length by simp
qed

theorem producer_counts_witness:
  "producer_loop (\<lambda>i. -9) 1 = (0, 5) \<and> producer_loop (\<lambda>i. 5) 1 = (5, 5)"
  using producer_counts [of 1 "\<lambda>i. -9"] producer_counts [of 1 "\<lambda>i. 5"] by (simp add: producer_msg_0)

text \<open>
  C13. Both threads at once. Under every interleaving of the accesses of a write and a read: a read
  puts at most 31 bytes into the buffer of 32; between reads the counter of the consumer is what
  it was given; once the producer is done, that is the messages in order up to what is still in
  the ring, and the counters differ by just that; and the producer sleeps only while the ring is
  full or the current read will wake it, so the two threads cannot block each other.
\<close>

theorem copying_stress_accounting:
  assumes "read_stress_reach n s"
  shows "bytes_put (reading s) \<le> 31
    \<and> (reading s = R_idle \<longrightarrow> read_count s = int (length (given s)))
    \<and> (reading s = R_idle \<and> prod (side s) = P_done \<longrightarrow>
        given s @ char_content (kring (dev (side s))) = messages n
        \<and> read_count s + int (length (char_content (kring (dev (side s))))) = writer_count (side s)
        \<and> writer_count (side s) = total_bytes (side s))
    \<and> (\<forall>bs. writers (dev (side s)) 0 = Sleeping bs \<longrightarrow>
        \<not> has_room (kring (dev (side s))) \<or> 0 < bytes_done (reading s))"
proof -
  have inv: "read_stress_inv n s" by (rule read_stress_reach_inv [OF assms])
  then have sound: "sound_read_reach (sys_of s)" and prod: "producer_inv n (side s)"
    and put: "bytes_put (reading s) + bytes_left (reading s) = 31"
      "int (length (given s)) = read_count s + int (bytes_put (reading s))"
    by (simp_all add: read_stress_inv_def)
  have ring: "char_smp_inv (dev (side s))"
    "reader_ok (kring (dev (side s))) (received (dev (side s))) (given s) (reading s)"
    using sound_inv [OF sound] by (simp_all add: reader_inv_def)
  have all: "given s @ char_content (kring (dev (side s))) = messages n"
    "writer_count (side s) = int (length (messages n))" "writer_count (side s) = total_bytes (side s)"
    if "reading s = R_idle" "prod (side s) = P_done"
    using producer_stream [OF ring(1) prod] ring(2) prod that by (simp_all add: producer_inv_def)
  have "\<not> has_room (kring (dev (side s))) \<or> 0 < bytes_done (reading s)"
    if "writers (dev (side s)) 0 = Sleeping bs" for bs
    using sleep_ok_reach [OF sound] that unfolding sleep_ok_def sys_of_simps by metis
  moreover have count: "read_count s = int (length (given s))" if "reading s = R_idle"
    using put(2) that by simp
  moreover have "read_count s + int (length (char_content (kring (dev (side s))))) = writer_count (side s)"
    if idle: "reading s = R_idle" "prod (side s) = P_done"
  proof -
    have "length (given s) + length (char_content (kring (dev (side s)))) = length (messages n)"
      using arg_cong [OF all(1) [OF idle], of length] by simp
    then show ?thesis using all(2) [OF idle] count [OF idle(1)] by linarith
  qed
  moreover have "bytes_put (reading s) \<le> 31" using put(1) by simp
  ultimately show ?thesis using all by blast
qed

theorem copying_stress_accounting_witness:
  "\<exists>s. read_stress_reach 1 s \<and> prod (side s) = P_done \<and> read_count s = 0
     \<and> char_content (kring (dev (side s))) = [86, 65, 76, 95, 48]"
proof -
  obtain b where b: "read_stress_reach 1 (tested b)" "prod b = P_done"
    using copying_all_written [of 1] by (auto simp: producer_msg_0 layout_simps)
  from copying_stress_accounting [OF b(1)] b show ?thesis
    by (intro exI [of _ "tested b"]) (simp add: tested_def producer_msg_0)
qed

end
