(* ===== verification/DriverVariants.thy ===== *)
theory DriverVariants
  imports Base CharWrite
begin

text \<open>
  The versions of the character driver that \<open>kernel/telemetry_core.c\<close> keeps but does
  not compile: the writer that waits without raising the sleep flag, the simple driver with a
  buffer of its own (\<open>SIMPLE_CHAR_DRIVER\<close>), the base driver that sends a fixed message
  (\<open>BASE_CHAR_DRIVER\<close>), and the old initialisation; and the
  first zero-copy consumer of \<open>user/telemetry_user.c\<close>. The lemmas compare them with the
  driver that is compiled.
\<close>

section \<open>The writer without the sleep flag\<close>

text \<open>
  The disabled \<open>dev_write\<close>: the target index is computed before the wait and before the
  lock; under the lock it is compared once more, the byte goes to the current write index, and
  the index computed before becomes the write index.
\<close>

definition commit_byte :: "u32 \<Rightarrow> u8 \<Rightarrow> shared_ring \<Rightarrow> shared_ring" where
  "commit_byte next_write_index b r = set_char_wr next_write_index (store_char (char_wr r) b r)"

function lock_write_loop ::
  "u8 option list \<Rightarrow> nat \<Rightarrow> wait_event list \<Rightarrow> world
   \<Rightarrow> (write_result \<times> wait_event list \<times> world) outcome" where
  "lock_write_loop [] bytes_written es w = Return (Wrote (Inr bytes_written), es, w)"
| "lock_write_loop (b # bs) bytes_written es w =
     (let next_write_index = char_next (char_wr (page w)) in
      case wait_until env_step is_signal (\<lambda>v. next_write_index \<noteq> char_rd (page v)) es w of
        Return (Woken, es', w') \<Rightarrow>
          (if next_write_index = char_rd (page w') then lock_write_loop (b # bs) bytes_written es' w'
           else if length (char_buffer (page w')) \<le> unat (char_wr (page w')) then OutOfBounds
           else case b of
             None \<Rightarrow> Return (Wrote (Inl EFAULT), es',
               upd_page (store_char (char_wr (page w')) 0) w')
           | Some x \<Rightarrow> lock_write_loop bs (bytes_written + 1) es'
               (upd_page (commit_byte next_write_index x) w'))
      | Return (Interrupted, es', w') \<Rightarrow> Return (Wrote (Inl ERESTARTSYS), es', w')
      | Return (StillAsleep, es', w') \<Rightarrow> Return (Asleep, es', w')
      | OutOfBounds \<Rightarrow> OutOfBounds
      | DivideByZero \<Rightarrow> DivideByZero)"
  by pat_completeness auto
termination
proof (relation "measure (\<lambda>(bs, n, es, w). length bs)", goal_cases)
  case 1
  then show ?case by simp
next
  case (2 b bs n es w nx a x y z w')
  then show ?case using wait_until_Woken(1) by fastforce
next
  case 3
  then show ?case by simp
qed

declare lock_write_loop.simps(2) [simp del]

definition lock_dev_write ::
  "u8 option list \<Rightarrow> wait_event list \<Rightarrow> world
   \<Rightarrow> (bool \<times> write_result \<times> wait_event list \<times> world) outcome" where
  "lock_dev_write bs es w =
     (if bs = [] then Return (True, Wrote (Inr 0), es, w)
      else bind_outcome (lock_write_loop bs 0 es w) (\<lambda>(res, es', w'). Return (False, res, es', w')))"

section \<open>The simple driver\<close>

text \<open>
  Its own buffer from \<open>kmalloc\<close> and two \<open>int\<close> indices. An access with an index
  outside the buffer stops the model; the indices stay below the capacity, so the sums do not
  overflow.
\<close>

record simple_ring =
  kernel_char_buffer :: "u8 list"
  char_read_index :: int
  char_write_index :: int

definition RING_BUFFER_CAPACITY :: int where "RING_BUFFER_CAPACITY = 1024"

definition in_bounds :: "int \<Rightarrow> 'a list \<Rightarrow> bool" where
  "in_bounds i xs \<longleftrightarrow> 0 \<le> i \<and> i < int (length xs)"

definition simple_next :: "int \<Rightarrow> int" where
  "simple_next i = c_rem (i + 1) RING_BUFFER_CAPACITY"

type_synonym simple_read_result = "(errno + nat) \<times> bool \<times> simple_ring \<times> u8 list"

fun simple_read_loop ::
  "(nat \<Rightarrow> bool) \<Rightarrow> nat \<Rightarrow> nat \<Rightarrow> bool \<Rightarrow> simple_ring \<Rightarrow> u8 list \<Rightarrow> simple_read_result outcome" where
  "simple_read_loop ok 0 bytes_read data_ready r out =
     Return (Inr bytes_read, data_ready, r, out)"
| "simple_read_loop ok (Suc len) bytes_read data_ready r out =
     (let snapshot_write_index = char_write_index r in
      if char_read_index r = snapshot_write_index
      then Return (Inr bytes_read, data_ready, r, out)
      else if \<not> in_bounds (char_read_index r) (kernel_char_buffer r) then OutOfBounds
      else if \<not> ok bytes_read then Return (Inl EFAULT, False, r, out)
      else simple_read_loop ok len (bytes_read + 1) True
        (r\<lparr>char_read_index := simple_next (char_read_index r)\<rparr>)
        (out @ [kernel_char_buffer r ! nat (char_read_index r)]))"

definition simple_dev_read :: "(nat \<Rightarrow> bool) \<Rightarrow> nat \<Rightarrow> simple_ring \<Rightarrow> simple_read_result outcome" where
  "simple_dev_read ok len r = simple_read_loop ok len 0 False r []"

text \<open>While its writer sleeps there are readers and signals only.\<close>

record simple_world =
  simple_page :: simple_ring
  simple_delivered :: "u8 list"

datatype simple_event = is_simple_signal: S_signal | S_reader "nat \<Rightarrow> bool" nat

fun simple_env_step :: "simple_event \<Rightarrow> simple_world \<Rightarrow> (bool \<times> simple_world) outcome" where
  "simple_env_step S_signal w = Return (True, w)"
| "simple_env_step (S_reader ok len) w =
     bind_outcome (simple_dev_read ok len (simple_page w)) (\<lambda>(ret, woke, r, out).
       Return (woke, w\<lparr>simple_page := r, simple_delivered := simple_delivered w @ out\<rparr>))"

definition simple_has_room :: "simple_world \<Rightarrow> bool" where
  "simple_has_room w \<longleftrightarrow>
     simple_next (char_write_index (simple_page w)) \<noteq> char_read_index (simple_page w)"

definition simple_store :: "u8 \<Rightarrow> simple_ring \<Rightarrow> simple_ring" where
  "simple_store b r = r\<lparr>kernel_char_buffer := (kernel_char_buffer r)[nat (char_write_index r) := b]\<rparr>"

function simple_write_loop ::
  "u8 option list \<Rightarrow> nat \<Rightarrow> simple_event list \<Rightarrow> simple_world
   \<Rightarrow> (write_result \<times> simple_event list \<times> simple_world) outcome" where
  "simple_write_loop [] bytes_written es w = Return (Wrote (Inr bytes_written), es, w)"
| "simple_write_loop (b # bs) bytes_written es w =
     (let next_write_index = simple_next (char_write_index (simple_page w));
          snapshot_read_index = char_read_index (simple_page w)
      in if next_write_index = snapshot_read_index then
           (case wait_until simple_env_step is_simple_signal simple_has_room es w of
              Return (Woken, es', w') \<Rightarrow> simple_write_loop (b # bs) bytes_written es' w'
            | Return (Interrupted, es', w') \<Rightarrow> Return (Wrote (Inl ERESTARTSYS), es', w')
            | Return (StillAsleep, es', w') \<Rightarrow> Return (Asleep, es', w')
            | OutOfBounds \<Rightarrow> OutOfBounds
            | DivideByZero \<Rightarrow> DivideByZero)
         else if \<not> in_bounds (char_write_index (simple_page w)) (kernel_char_buffer (simple_page w))
         then OutOfBounds
         else case b of
           None \<Rightarrow> Return (Wrote (Inl EFAULT), es, w\<lparr>simple_page := simple_store 0 (simple_page w)\<rparr>)
         | Some x \<Rightarrow> simple_write_loop bs (bytes_written + 1) es
             (w\<lparr>simple_page := (simple_store x (simple_page w))\<lparr>char_write_index := next_write_index\<rparr>\<rparr>))"
  by pat_completeness auto
termination
proof (relation "measure (\<lambda>(bs, n, es, w). length bs + length es)", goal_cases)
  case 1
  then show ?case by simp
next
  case (2 b bs n es w nx sn a x y z w')
  then have "\<not> simple_has_room w" by (simp add: simple_has_room_def)
  with 2 wait_until_Woken(2) show ?case by fastforce
next
  case 3
  then show ?case by simp
qed

declare simple_write_loop.simps(2) [simp del]

definition simple_dev_write ::
  "u8 option list \<Rightarrow> simple_event list \<Rightarrow> simple_world
   \<Rightarrow> (write_result \<times> simple_event list \<times> simple_world) outcome" where
  "simple_dev_write bs es w = simple_write_loop bs 0 es w"

section \<open>The simple driver against the shared page\<close>

text \<open>The same ring, with its indices as \<open>int\<close> and without the flags.\<close>

definition simple_view :: "shared_ring \<Rightarrow> simple_ring" where
  "simple_view r = \<lparr>kernel_char_buffer = char_buffer r, char_read_index = uint (char_rd r),
     char_write_index = uint (char_wr r)\<rparr>"

definition simple_of_world :: "world \<Rightarrow> simple_world" where
  "simple_of_world w = \<lparr>simple_page = simple_view (page w), simple_delivered = delivered w\<rparr>"

fun shared_event :: "simple_event \<Rightarrow> wait_event" where
  "shared_event S_signal = Signal"
| "shared_event (S_reader ok len) = Reader ok len"

lemma simple_next_view: "simple_next (uint i) = uint (char_next i)" for i :: u32
proof -
  have "uint (char_next i) = (uint i + 1) mod 2 ^ 32 mod 1024"
    unfolding char_next_def ring_next_def TELEMETRY_RING_BUFFER_CAPACITY_def uint_mod_distrib
    by (simp add: uint_word_ariths)
  also have "\<dots> = (uint i + 1) mod 1024" by (rule mod_mod_cancel) simp
  also have "\<dots> = c_rem (uint i + 1) 1024"
    using uint_ge_0 [of i] by (simp add: c_rem_def)
  finally show ?thesis by (simp add: simple_next_def RING_BUFFER_CAPACITY_def)
qed

lemma simple_view_simps [simp]:
  "kernel_char_buffer (simple_view r) = char_buffer r"
  "char_read_index (simple_view r) = uint (char_rd r)"
  "char_write_index (simple_view r) = uint (char_wr r)"
  by (simp_all add: simple_view_def)

lemma index_view [simp]:
  "in_bounds (uint i) xs = (unat i < length xs)" "nat (uint i) = unat i" "(uint i = uint j) = (i = j)"
  for i j :: u32
proof -
  show "in_bounds (uint i) xs = (unat i < length xs)"
    unfolding in_bounds_def unat_eq_nat_uint by (simp add: nat_less_iff del: nat_uint_eq)
qed (simp_all add: word_uint_eq_iff)

lemma simple_view_update:
  "simple_view (set_char_rd i r) = (simple_view r)\<lparr>char_read_index := uint i\<rparr>"
  "simple_view (set_char_wr i r) = (simple_view r)\<lparr>char_write_index := uint i\<rparr>"
  "simple_view (store_char (char_wr r) b r) = simple_store b (simple_view r)"
  "simple_view (set_char_flags f r) = simple_view r"
  by (simp_all add: simple_view_def simple_store_def page_update_defs)

lemma simple_read_loop_view:
  "simple_read_loop ok len n ready (simple_view r) out
    = map_outcome (\<lambda>(ret, woke, r', xs). (ret, woke, simple_view r', xs))
        (dev_read_loop ok len n ready r out)"
  by (induction ok len n ready r out rule: dev_read_loop.induct)
    (auto simp: Let_def simple_next_view simple_view_update)

lemma simple_env_step_view:
  "rel_outcome (\<lambda>p q. q = map_prod id simple_of_world p \<and> True)
     (env_step (shared_event e) w) (simple_env_step e (simple_of_world w))"
proof (cases e)
  case (S_reader ok len)
  then show ?thesis
    by (cases "dev_read_loop ok len 0 False (page w) []")
      (auto simp: simple_dev_read_def dev_read_def simple_of_world_def simple_read_loop_view)
qed simp

lemma simple_wait_view:
  "rel_outcome (wait_like shared_event simple_of_world (set es) (\<lambda>_. True))
     (wait_event_interruptible (map shared_event es) w)
     (wait_until simple_env_step is_simple_signal simple_has_room es (simple_of_world w))"
  unfolding wait_event_interruptible_def
proof (rule wait_until_sim [where I = "\<lambda>_. True"])
  show "simple_has_room (simple_of_world v) = has_room (page v)" for v
    by (simp add: simple_has_room_def has_room_def simple_of_world_def simple_next_view)
  show "is_simple_signal e = is_signal (shared_event e)" for e by (cases e) simp_all
qed (rule simple_env_step_view TrueI)+

lemma simple_of_world_update:
  "simple_of_world (upd_page raise_asleep w) = simple_of_world w"
  "simple_of_world (upd_page clear_asleep w) = simple_of_world w"
  by (simp_all add: simple_of_world_def raise_asleep_def clear_asleep_def simple_view_update)

lemma simple_of_world_page:
  "simple_page (simple_of_world w) = simple_view (page w)"
  "(simple_of_world w)\<lparr>simple_page := simple_store b (simple_view (page w))\<rparr>
     = simple_of_world (upd_page (store_char (char_wr (page w)) b) w)"
  "(simple_of_world w)\<lparr>simple_page := (simple_store b (simple_view (page w)))
       \<lparr>char_write_index := uint (char_next (char_wr (page w)))\<rparr>\<rparr>
     = simple_of_world (upd_page (set_char_wr (char_next (char_wr (page w))) \<circ> store_char (char_wr (page w)) b) w)"
  by (simp_all add: simple_of_world_def simple_view_update)

lemmas simple_write_simps = dev_write_loop.simps(2) simple_write_loop.simps(2)
  simple_of_world_update simple_of_world_page simple_next_view Let_def

lemma simple_write_loop_view:
  "rel_outcome (wait_like shared_event simple_of_world UNIV (\<lambda>_. True))
     (dev_write_loop bs n (map shared_event es) w) (simple_write_loop bs n es (simple_of_world w))"
proof (induction "length bs + length es" arbitrary: bs es n w rule: less_induct)
  case less
  show ?case
  proof (cases bs)
    case (Cons b bs')
    show ?thesis
    proof (cases "has_room (page w)")
      case True
      note stops = True [unfolded has_room_def]
      have IH: "rel_outcome (wait_like shared_event simple_of_world UNIV (\<lambda>_. True))
          (dev_write_loop bs' (n + 1) (map shared_event es) v)
          (simple_write_loop bs' (n + 1) es (simple_of_world v))" for v
        by (rule less) (simp add: Cons)
      show ?thesis
        using stops IH by (cases b)
          (simp_all add: Cons simple_write_simps)
    next
      case False
      note full = False [unfolded has_room_def not_not]
      show ?thesis
        using simple_wait_view [of es "upd_page raise_asleep w"]
      proof (cases rule: outcome.rel_cases)
        case (Return p q)
        then obtain res es' v where p: "p = (res, map shared_event es', v)"
          "q = (res, es', simple_of_world v)" by (cases p; cases q) auto
        show ?thesis
        proof (cases res)
          case Woken
          have "length es' < length es"
            using wait_shortens [of "map shared_event es"] Return p False Woken by fastforce
          then have "rel_outcome (wait_like shared_event simple_of_world UNIV (\<lambda>_. True))
              (dev_write_loop bs n (map shared_event es') (upd_page clear_asleep v))
              (simple_write_loop bs n es' (simple_of_world (upd_page clear_asleep v)))"
            by (intro less) simp
          then show ?thesis
            using full Return p Woken by (simp add: Cons simple_write_simps)
        qed (use full Return p in \<open>simp_all add: Cons simple_write_simps\<close>)
      qed (use full in \<open>simp_all add: Cons simple_write_simps\<close>)
    qed
  qed simp
qed

section \<open>The writer without the flag against the writer with it\<close>

definition unflagged :: "world \<Rightarrow> world" where
  "unflagged w = upd_page (set_char_flags 0) w"

lemma set_flags_simps:
  "char_wr (set_char_flags f r) = char_wr r" "char_rd (set_char_flags f r) = char_rd r"
  "char_buffer (set_char_flags f r) = char_buffer r"
  "set_char_rd i (set_char_flags f r) = set_char_flags f (set_char_rd i r)"
  "set_char_wr i (set_char_flags f r) = set_char_flags f (set_char_wr i r)"
  "store_char i b (set_char_flags f r) = set_char_flags f (store_char i b r)"
  "set_char_flags f (set_char_flags g r) = set_char_flags f r"
  by (simp_all add: page_update_defs)

lemma dev_read_loop_flags:
  "rel_outcome (\<lambda>p q. q = (\<lambda>(ret, woke, r', xs). (ret, woke, set_char_flags f r', xs)) p
       \<and> char_wr (fst (snd (snd p))) = char_wr r)
     (dev_read_loop ok len n ready r out) (dev_read_loop ok len n ready (set_char_flags f r) out)"
proof (induction ok len n ready r out rule: dev_read_loop.induct)
  case (2 ok len n ready r out)
  have wr: "char_wr (set_char_rd i r) = char_wr r" for i by (simp add: set_char_rd_def)
  show ?case using 2 by (auto simp: Let_def set_flags_simps wr)
qed simp

lemma env_step_flags:
  assumes "e \<noteq> ZeroCopyPass" "char_wr (page w) = c"
  shows "rel_outcome (\<lambda>p q. q = map_prod id unflagged p \<and> char_wr (page (snd p)) = c)
    (env_step e w) (env_step e (unflagged w))"
proof (cases e)
  case (Reader ok len)
  show ?thesis
    using dev_read_loop_flags [of 0 "page w" ok len 0 False "[]"] assms(2)
    by (cases "dev_read_loop ok len 0 False (page w) []";
        cases "dev_read_loop ok len 0 False (set_char_flags 0 (page w)) []")
      (auto simp: Reader dev_read_def unflagged_def upd_page_def)
qed (use assms in simp_all)

lemma unflagged_simps [simp]:
  "char_wr (page (unflagged w)) = char_wr (page w)" "char_rd (page (unflagged w)) = char_rd (page w)"
  "char_buffer (page (unflagged w)) = char_buffer (page w)"
  "unflagged (upd_page raise_asleep w) = unflagged w" "unflagged (upd_page clear_asleep w) = unflagged w"
  "upd_page (store_char i b) (unflagged w) = unflagged (upd_page (store_char i b) w)"
  "upd_page (commit_byte i b) (unflagged w)
     = unflagged (upd_page (set_char_wr i \<circ> store_char (char_wr (page w)) b) w)"
  by (simp_all add: unflagged_def upd_page_def raise_asleep_def clear_asleep_def set_flags_simps
      commit_byte_def)

lemma lock_wait:
  assumes "ZeroCopyPass \<notin> set es" "char_wr (page w) = c"
  shows "rel_outcome (wait_like (\<lambda>e. e) unflagged (set es) (\<lambda>v. char_wr (page v) = c)) (wait_event_interruptible es w)
    (wait_until env_step is_signal (\<lambda>v. char_next c \<noteq> char_rd (page v)) es (unflagged w))"
proof -
  have "rel_outcome (wait_like (\<lambda>e. e) unflagged (set es) (\<lambda>v. char_wr (page v) = c))
      (wait_until env_step is_signal (\<lambda>v. has_room (page v)) (map (\<lambda>e. e) es) w)
      (wait_until env_step is_signal (\<lambda>v. char_next c \<noteq> char_rd (page v)) es (unflagged w))"
  proof (rule wait_until_sim [where I = "\<lambda>v. char_wr (page v) = c"])
    show "rel_outcome (\<lambda>p q. q = map_prod id unflagged p \<and> char_wr (page (snd p)) = c)
        (env_step e v) (env_step e (unflagged v))" if "e \<in> set es" "char_wr (page v) = c" for e v
      by (rule env_step_flags [OF _ that(2)]) (use that(1) assms(1) in auto)
  qed (auto simp: has_room_def assms(2))
  then show ?thesis by (simp add: wait_event_interruptible_def)
qed

lemmas lock_write_simps = dev_write_loop.simps(2) lock_write_loop.simps(2) Let_def

lemma lock_write_loop_flags:
  assumes "ZeroCopyPass \<notin> set es"
  shows "rel_outcome (wait_like (\<lambda>e. e) unflagged UNIV (\<lambda>_. True))
    (dev_write_loop bs n es w) (lock_write_loop bs n es (unflagged w))"
  using assms
proof (induction bs arbitrary: n es w)
  case Nil
  then show ?case by simp
next
  case (Cons b bs)
  let ?R = "wait_like (\<lambda>e. e) unflagged UNIV (\<lambda>_. True)"
  have byte: "rel_outcome ?R (dev_write_loop (b # bs) n es v)
      (if length (char_buffer (page v)) \<le> unat (char_wr (page v)) then OutOfBounds
       else case b of
         None \<Rightarrow> Return (Wrote (Inl EFAULT), es, upd_page (store_char (char_wr (page v)) 0) (unflagged v))
       | Some x \<Rightarrow> lock_write_loop bs (n + 1) es
           (upd_page (commit_byte (char_next (char_wr (page v))) x) (unflagged v)))"
    if "has_room (page v)" "ZeroCopyPass \<notin> set es" for v es
    using that Cons.IH [of es "n + 1"]
    by (cases b) (auto simp: has_room_def dev_write_loop.simps(2) Let_def)
  show ?case
  proof (cases "has_room (page w)")
    case True
    then show ?thesis using byte [OF True Cons.prems]
      by (cases b) (auto simp: lock_write_loop.simps(2) Let_def wait_until_def has_room_def)
  next
    case False
    let ?c = "char_wr (page w)"
    note full = False [unfolded has_room_def not_not]
    have "char_wr (page (upd_page raise_asleep w)) = ?c"
      by (simp add: raise_asleep_def set_flags_simps)
    from lock_wait [OF Cons.prems this] show ?thesis
    proof (cases rule: outcome.rel_cases)
      case (Return p q)
      then obtain res es' v where p: "p = (res, es', v)" "q = (res, es', unflagged v)"
        "set es' \<subseteq> set es" "char_wr (page v) = ?c" by (cases p; cases q) auto
      show ?thesis
      proof (cases res)
        case Woken
        have room: "has_room (page v)"
          using wait_until_Woken(1) Return(1) p Woken unfolding wait_event_interruptible_def by fastforce
        have "has_room (page (upd_page clear_asleep v))" "ZeroCopyPass \<notin> set es'"
          using room Cons.prems p(3) by auto
        from byte [OF this] show ?thesis
          using full Return p Woken room [unfolded has_room_def]
          by (cases b) (auto simp: lock_write_simps clear_asleep_def set_flags_simps)
      qed (use full Return p in \<open>simp_all add: lock_write_simps\<close>)
    qed (use full in \<open>simp_all add: lock_write_simps\<close>)
  qed
qed

section \<open>The rest of the disabled code\<close>

text \<open>
  The mapping call of the simple driver, its table of operations (which names the mapping only
  when the simple driver is not selected, inside code compiled only when it is), the base
  driver's read of a fixed message, which ignores the length of the user buffer, and the old
  initialisation and exit. The message is an argument, as no file defines it, and so is
  \<open>copy_to_user\<close>: the number of bytes it did not copy, and those it did.
\<close>

definition dev_mmap ::
  "('p \<Rightarrow> 'p) \<Rightarrow> u64 \<Rightarrow> bool \<Rightarrow> 'p vm_area
   \<Rightarrow> (errno + unit) \<times> 'p vm_area \<times> (u64 \<times> u64 \<times> u64) option" where
  "dev_mmap pgprot_noncached pfn remap_ok vma =
    (let size = vm_end vma - vm_start vma in
     if of_nat PAGE_SIZE_4K < size then (Inl EINVAL, vma, None)
     else let vma' = vma\<lparr>vm_page_prot := pgprot_noncached (vm_page_prot vma)\<rparr> in
     if \<not> remap_ok then (Inl EAGAIN, vma', None)
     else (Inr (), vma', Some (vm_start vma', pfn, size)))"

definition simple_fops_offers :: "bool \<Rightarrow> file_op \<Rightarrow> bool" where
  "simple_fops_offers SIMPLE_CHAR_DRIVER x \<longleftrightarrow>
     x = Op_open \<or> x = Op_read \<or> x = Op_write \<or> (x = Op_mmap \<and> \<not> SIMPLE_CHAR_DRIVER)"

definition c_strlen :: "u8 list \<Rightarrow> nat" where
  "c_strlen msg = length (takeWhile (\<lambda>b. b \<noteq> 0) msg)"

definition dev_read_old ::
  "(u8 list \<Rightarrow> nat \<times> u8 list) \<Rightarrow> u8 list \<Rightarrow> nat \<Rightarrow> nat \<Rightarrow> (errno + nat) \<times> nat \<times> u8 list" where
  "dev_read_old copy_to_user msg len offset =
    (let msg_len = c_strlen msg in
     if msg_len \<le> offset then (Inr 0, offset, [])
     else let (left, out) = copy_to_user (take msg_len msg) in
     if left \<noteq> 0 then (Inl EFAULT, offset, out)
     else (Inr msg_len, offset + msg_len, out))"

record old_state =
  major_number :: int
  chrdev_registered :: bool
  old_buffer_live :: bool

definition telemetry_init :: "int \<Rightarrow> bool \<Rightarrow> old_state \<Rightarrow> (errno + unit) \<times> old_state" where
  "telemetry_init register_ret buffer_ok s0 =
    (let s1 = s0\<lparr>major_number := register_ret\<rparr> in
     if major_number s1 < 0 then (Inl (EKernel (major_number s1)), s1)
     else let s2 = s1\<lparr>chrdev_registered := True\<rparr> in
     if \<not> buffer_ok then (Inl ENOMEM, s2\<lparr>chrdev_registered := False\<rparr>)
     else (Inr (), s2\<lparr>old_buffer_live := True\<rparr>))"

definition telemetry_exit :: "old_state \<Rightarrow> old_state" where
  "telemetry_exit s = s\<lparr>chrdev_registered := False, old_buffer_live := False\<rparr>"

definition old_released :: "old_state \<Rightarrow> bool" where
  "old_released s \<longleftrightarrow> \<not> chrdev_registered s \<and> \<not> old_buffer_live s"

text \<open>
  One pass of the disabled \<open>zero_copy_consumer\<close> of \<open>user/telemetry_user.c\<close>: it issues the
  wake-up command if the ring was full before it took its byte, without looking at the flag. The
  result is that of the compiled pass, without its locals.
\<close>

definition old_zero_copy_iter ::
  "bool \<Rightarrow> shared_ring \<Rightarrow> (shared_ring \<times> u8 list \<times> bool \<times> bool) outcome" where
  "old_zero_copy_iter writer_is_finished r =
    (let current_read_index = char_rd r; current_write_index = char_wr r;
         was_full = (char_next (char_wr r) = char_rd r)
     in if current_read_index \<noteq> current_write_index then
          (if length (char_buffer r) \<le> unat current_read_index then OutOfBounds
           else Return (set_char_rd (char_next current_read_index) r,
             [char_buffer r ! unat current_read_index], was_full, False))
        else Return (r, [], False, writer_is_finished))"

text \<open>The two mapping calls agree, and no build of the table offers this one.\<close>

lemma dev_mmap_is_telemetry_mmap_io: "dev_mmap = telemetry_mmap_io"
  by (intro ext) (simp add: dev_mmap_def telemetry_mmap_io_def)

lemma simple_fops_is_char_fops: "simple_fops_offers True x = fops_offers Char_fops x"
  by (cases x) (simp_all add: simple_fops_offers_def)

text \<open>
  Loading the old module is all or nothing, and unloading releases both acquisitions.
\<close>

lemma old_init_all_or_nothing:
  assumes "telemetry_init ret ok s0 = (res, s)" "old_released s0"
  shows "(\<forall>e. res = Inl e \<longrightarrow> old_released s \<and> e = (if ret < 0 then EKernel ret else ENOMEM))
    \<and> (res = Inr () \<longrightarrow> chrdev_registered s \<and> old_buffer_live s \<and> major_number s = ret)
    \<and> old_released (telemetry_exit s)"
  using assms by (auto simp: telemetry_init_def telemetry_exit_def old_released_def Let_def
      split: if_splits)

text \<open>A zero-copy consumer that does not see the flag wakes nobody.\<close>

lemma sleep_unflagged:
  assumes "char_inv (page w)" "\<not> writer_asleep (page w)" "cond = (\<lambda>v. c \<noteq> char_rd (page v))"
  shows "\<exists>w'. sleep_until env_step is_signal cond (replicate p ZeroCopyPass) w = Return (StillAsleep, [], w')
    \<and> char_content (page w') = drop p (char_content (page w)) \<and> char_inv (page w')"
  using assms(1,2)
proof (induction p arbitrary: w)
  case 0
  then show ?case by simp
next
  case (Suc p)
  have d: "modulo_divisor \<noteq> 0" by (simp add: modulo_divisor_def layout_simps)
  show ?case
  proof (cases "char_content (page w)")
    case Nil
    obtain z' where "zero_copy_iter modulo_divisor False (zc w) (page w)
        = Return (z', page w, [], writer_asleep (page w), False)"
      using zero_copy_iter_nil [OF Suc.prems(1) Nil] by blast
    then show ?thesis
      using Suc.prems Nil Suc.IH [of "w\<lparr>page := page w, zc := z', delivered := delivered w @ []\<rparr>"] by simp
  next
    case (Cons x xs)
    obtain z1 r1 where "zero_copy_iter modulo_divisor False (zc w) (page w)
        = Return (z1, r1, [x], writer_asleep (page w) \<and> kick_count (zc w) = 0, False)"
      "char_inv r1" "char_content r1 = xs" "writer_asleep r1 = writer_asleep (page w)"
      using zero_copy_iter_cons [OF Suc.prems(1) Cons d] by blast
    then show ?thesis
      using Suc.prems(2) Cons Suc.IH [of "w\<lparr>page := r1, zc := z1, delivered := delivered w @ [x]\<rparr>"]
      by simp
  qed
qed

section \<open>Properties of the disabled code\<close>

text \<open>
  C26. The simple driver and the compiled driver are the same stream. On the same ring, buffer and
  length a read gives the same result; and for any readers and signals while the writer sleeps, a
  write has the same result, leaves the same events and the same ring. The flags and the shared
  page change nothing but who can see them.
\<close>

theorem simple_driver_agrees:
  assumes "char_inv (page w)"
  shows "simple_dev_read ok len (simple_view (page w))
      = map_outcome (\<lambda>(ret, woke, r, xs). (ret, woke, simple_view r, xs)) (dev_read ok len (page w))
    \<and> (\<exists>woke res es' w'. dev_write bs (map shared_event es) w = Return (woke, res, map shared_event es', w')
        \<and> simple_dev_write bs es (simple_of_world w) = Return (res, es', simple_of_world w'))"
proof
  show "simple_dev_read ok len (simple_view (page w))
      = map_outcome (\<lambda>(ret, woke, r, xs). (ret, woke, simple_view r, xs)) (dev_read ok len (page w))"
    by (simp add: simple_dev_read_def dev_read_def simple_read_loop_view)
  obtain res es1 w' where loop: "dev_write_loop bs 0 (map shared_event es) w = Return (res, es1, w')"
    using dev_write_loop_stream [OF assms, of bs 0 "map shared_event es"] by blast
  with simple_write_loop_view [of bs 0 es w] obtain es' where "es1 = map shared_event es'"
    "simple_write_loop bs 0 es (simple_of_world w) = Return (res, es', simple_of_world w')"
    by (cases "simple_write_loop bs 0 es (simple_of_world w)") auto
  then show "\<exists>woke res es' w'. dev_write bs (map shared_event es) w
        = Return (woke, res, map shared_event es', w')
      \<and> simple_dev_write bs es (simple_of_world w) = Return (res, es', simple_of_world w')"
    using dev_write_of_loop [OF loop] unfolding simple_dev_write_def by blast
qed

theorem simple_driver_agrees_witness:
  "\<exists>woke res es' w'. dev_write [Some 65] [Reader (\<lambda>_. True) 2] full_world
       = Return (woke, res, map shared_event es', w')
     \<and> simple_dev_write [Some 65] [S_reader (\<lambda>_. True) 2] (simple_of_world full_world)
       = Return (res, es', simple_of_world w')"
  using simple_driver_agrees [OF full_world(1), of _ _ "[Some 65]" "[S_reader (\<lambda>_. True) 2]"] by simp

text \<open>
  As long as no zero-copy consumer is involved the sleep flag is not needed: the disabled
  writer, started on the page with the flags cleared, ends with the same result, the same events
  left and the same page, flags aside, as the compiled one.
\<close>

theorem lock_writer_agrees:
  assumes "char_inv (page w)" "ZeroCopyPass \<notin> set es"
  shows "\<exists>woke res es' w'. dev_write bs es w = Return (woke, res, es', w')
    \<and> lock_dev_write bs es (unflagged w) = Return (woke, res, es', unflagged w')"
proof -
  obtain res es' w' where loop: "dev_write_loop bs 0 es w = Return (res, es', w')"
    using dev_write_loop_stream [OF assms(1), of bs 0 es] by blast
  with lock_write_loop_flags [OF assms(2), of bs 0 w]
  have "lock_write_loop bs 0 es (unflagged w) = Return (res, es', unflagged w')"
    by (cases "lock_write_loop bs 0 es (unflagged w)") auto
  then have "lock_dev_write bs es (unflagged w) = Return (bs = [], res, es', unflagged w')"
    by (cases bs) (auto simp: lock_dev_write_def)
  then show ?thesis using dev_write_of_loop [OF loop] by blast
qed

theorem lock_writer_agrees_witness:
  "\<exists>woke res es' w'. dev_write [Some 65] [Kick, Reader (\<lambda>_. True) 2] full_world
       = Return (woke, res, es', w')
     \<and> lock_dev_write [Some 65] [Kick, Reader (\<lambda>_. True) 2] (unflagged full_world)
       = Return (woke, res, es', unflagged w')"
  by (rule lock_writer_agrees [OF full_world(1)]) simp

text \<open>
  With a zero-copy consumer the flag is needed: the disabled writer, asleep on a full ring
  whose flag is down, is not woken by any number of passes, although the first of them makes room,
  because the consumer issues the wake-up command only when it sees the flag.
\<close>

theorem lock_writer_never_kicked:
  assumes "char_inv (page w)" "\<not> has_room (page w)" "\<not> writer_asleep (page w)"
  shows "\<exists>w'. lock_dev_write (b # bs) (replicate p ZeroCopyPass) w = Return (False, Asleep, [], w')
    \<and> has_room (page w') = (p \<noteq> 0)"
proof -
  let ?cond = "\<lambda>v. char_next (char_wr (page w)) \<noteq> char_rd (page v)"
  obtain w' where w': "sleep_until env_step is_signal ?cond (replicate p ZeroCopyPass) w
      = Return (StillAsleep, [], w')" "char_content (page w') = drop p (char_content (page w))"
    "char_inv (page w')" using sleep_unflagged [OF assms(1,3) refl] by blast
  have "length (char_content (page w)) = TELEMETRY_RING_BUFFER_CAPACITY - 1"
    using assms(1,2) char_fifo.content_le [OF assms(1)] by (simp add: has_room_iff)
  then have "has_room (page w') = (p \<noteq> 0)"
    using w'(2,3) by (simp add: has_room_iff layout_simps) arith
  moreover have "wait_until env_step is_signal ?cond (replicate p ZeroCopyPass) w
      = Return (StillAsleep, [], w')"
    using w'(1) assms(2) by (simp add: wait_until_def has_room_def)
  ultimately show ?thesis by (simp add: lock_dev_write_def lock_write_loop.simps(2))
qed

theorem lock_writer_never_kicked_witness:
  "\<exists>w'. lock_dev_write [Some 65] (replicate 5000 ZeroCopyPass) full_world
      = Return (False, Asleep, [], w') \<and> has_room (page w')"
proof -
  have "\<not> writer_asleep (page full_world)"
    by (simp add: full_world_def writer_asleep_def set_char_rd_def zeroed_page_def zero_lane_def)
  from lock_writer_never_kicked [OF full_world(1,3) this, of "Some 65" "[]" 5000] show ?thesis by simp
qed

text \<open>
  The disabled consumer fits the disabled writer: it takes the oldest byte, and it kicks exactly
  when the writer's wait condition is false, after having made it true.
\<close>

lemma old_consumer_kicks_when_full:
  assumes "char_inv r"
  shows "\<exists>r' out kick left. old_zero_copy_iter fin r = Return (r', out, kick, left) \<and> char_inv r'
    \<and> out @ char_content r' = char_content r \<and> kick = (\<not> has_room r) \<and> (kick \<longrightarrow> has_room r')"
proof (cases "char_content r")
  case Nil
  then have "char_rd r = char_wr r"
    using assms ring_content_nil_iff by (auto simp: char_ring_defs)
  then show ?thesis using assms Nil by (auto simp: old_zero_copy_iter_def has_room_iff layout_simps)
next
  case (Cons x xs)
  then obtain r' where r': "char_get r = Some (x, r')" "char_inv r'" "char_content r' = xs"
    using char_fifo.get_cons [OF assms] by blast
  then have get: "char_rd r \<noteq> char_wr r" "x = char_buffer r ! unat (char_rd r)"
    "r' = set_char_rd (char_next (char_rd r)) r"
    by (auto simp: char_get_def split: if_splits)
  have "has_room r'"
    using char_fifo.content_le [OF assms] Cons r'(2,3) by (simp add: has_room_iff layout_simps)
  then show ?thesis
    using get r'(2,3) Cons char_inv_bounds [OF assms]
    by (auto simp: old_zero_copy_iter_def has_room_def Let_def)
qed

text \<open>
  The disabled writer loses bytes when two of them race. Both compute the same target index
  before either takes the lock; the second one still passes the comparison under the lock, puts
  its byte beyond the ring and sets the index that is already set: the byte is counted as written
  and never read.
\<close>

theorem stale_index_loses_byte:
  fixes x y :: u8
  assumes "char_inv r" "has_room r"
  defines "n \<equiv> char_next (char_wr r)"
  defines "first \<equiv> commit_byte n x r"
  defines "second \<equiv> commit_byte n y first"
  shows "n \<noteq> char_rd first \<and> char_content first = char_content r @ [x]
    \<and> char_content second = char_content r @ [x] \<and> char_wr second = char_wr first"
proof -
  have put: "char_put x r = Some first"
    using assms(2) by (simp add: char_put_def has_room_def n_def first_def commit_byte_def)
  note first = char_fifo.put_SomeD [OF assms(1) put]
  have wr: "char_wr first = n" "char_rd first = char_rd r"
    by (simp_all add: first_def commit_byte_def page_update_defs)
  then have second: "second = store_char (char_wr first) y first"
    by (simp add: second_def commit_byte_def page_update_defs)
  have "char_content (store_char (char_wr first) y first) = char_content first"
    using store_fault(2) [of "empty_world\<lparr>page := first\<rparr>" y] first by (simp add: stream_def empty_world_def)
  then show ?thesis
    using first wr assms(2) second by (simp add: has_room_def n_def store_char_def)
qed

theorem stale_index_loses_byte_witness:
  "char_content (commit_byte 1 66 (commit_byte 1 65 zeroed_page)) = [65]"
proof -
  have "char_next (char_wr zeroed_page) = 1" "has_room zeroed_page"
    by (simp_all add: char_next_def ring_next_def zeroed_page_def zero_lane_def layout_simps has_room_def)
  with stale_index_loses_byte [OF char_inv_zeroed this(2), of 65 66] show ?thesis by simp
qed

text \<open>
  The base driver sends its message once, and all of it: a first read delivers every byte of
  the message however short the user's buffer is, and says so; the second one is the end of file.
\<close>

theorem old_read_ignores_length:
  assumes "0 < c_strlen msg" "copy (take (c_strlen msg) msg) = (0, take (c_strlen msg) msg)"
  shows "dev_read_old copy msg len 0 = (Inr (c_strlen msg), c_strlen msg, take (c_strlen msg) msg)
    \<and> dev_read_old copy msg len' (c_strlen msg) = (Inr 0, c_strlen msg, [])"
  using assms by (simp add: dev_read_old_def Let_def)

theorem old_read_ignores_length_witness:
  "dev_read_old (Pair 0) [72, 105, 0] 1 0 = (Inr 2, 2, [72, 105])"
proof -
  have "c_strlen [72, 105, 0] = 2" by (simp add: c_strlen_def)
  then show ?thesis
    using old_read_ignores_length [of "[72, 105, 0]" "Pair 0" 1] by (simp add: numeral_2_eq_2)
qed

end
