(* ===== verification/OldStress.thy ===== *)
theory OldStress
  imports Stress DriverVariants
begin

text \<open>
  The first version of the thread \<open>zero_copy_consumer\<close> of \<open>user/telemetry_user.c\<close>, which is kept
  under \<open>#if 0\<close>, around its pass in \<open>DriverVariants\<close>. It ks a writer when it finds the ring
  full; the compiled thread goes by the sleep flag. What they do to the stream is the same.
\<close>

section \<open>The thread\<close>

text \<open>The loop as in \<open>zero_copy_loop\<close>; the third component is the kick of each pass.\<close>

fun old_zero_copy_loop ::
  "((shared_ring \<Rightarrow> shared_ring) \<times> bool) list \<Rightarrow> shared_ring \<Rightarrow>
     (shared_ring \<times> u8 list \<times> bool list \<times> bool) outcome" where
  "old_zero_copy_loop [] r = Return (r, [], [], False)"
| "old_zero_copy_loop ((env, fin) # envs) r =
     bind_outcome (old_zero_copy_iter fin (env r)) (\<lambda>(r1, out1, kick, left).
       if left then Return (r1, out1, [kick], True)
       else bind_outcome (old_zero_copy_loop envs r1) (\<lambda>(r2, out2, ks, left2).
         Return (r2, out1 @ out2, kick # ks, left2)))"

definition old_zero_copy_consumer ::
  "int \<Rightarrow> client_services \<Rightarrow> ((shared_ring \<Rightarrow> shared_ring) \<times> bool) list \<Rightarrow> shared_ring \<Rightarrow>
     (unit event list \<times> (shared_ring \<times> u8 list \<times> bool list \<times> bool) option) outcome" where
  "old_zero_copy_consumer runtime_page_size k envs r =
     (if runtime_page_size \<noteq> int TELEMETRY_PAGE_SIZE then Return ([], None)
      else if open_ret k < 0 then Return ([], None)
      else (case mmap_ret k of
          None \<Rightarrow> Return ([Open (open_ret k), Close (open_ret k)], None)
        | Some m \<Rightarrow>
            bind_outcome (old_zero_copy_loop envs r) (\<lambda>result.
              Return ([Open (open_ret k), Map m]
                @ (case result of (r', out, ks, left) \<Rightarrow> if left then [Unmap m, Close (open_ret k)] else []),
                Some result))))"

section \<open>The same stream\<close>

text \<open>A pass without its locals and its kick, which is where the two differ.\<close>

lemma old_iter_agrees:
  "d \<noteq> 0 \<Longrightarrow> map_outcome (\<lambda>(z, r', out, kick, left). (r', out, left)) (zero_copy_iter d fin z r)
    = map_outcome (\<lambda>(r', out, kick, left). (r', out, left)) (old_zero_copy_iter fin r)"
  by (simp add: zero_copy_iter_def old_zero_copy_iter_def Let_def)

lemma old_loop_agrees:
  assumes "d \<noteq> 0"
  shows "map_outcome (\<lambda>(z, r', out, left). (r', out, left)) (zero_copy_loop d envs z r)
    = map_outcome (\<lambda>(r', out, ks, left). (r', out, left)) (old_zero_copy_loop envs r)"
proof (induction envs arbitrary: z r)
  case Nil
  then show ?case by simp
next
  case (Cons e envs)
  obtain env fin where e: "e = (env, fin)" by (cases e)
  note iter = old_iter_agrees [OF assms, of fin z "env r"]
  show ?case
  proof (cases "zero_copy_iter d fin z (env r)")
    case (Return x)
    obtain z1 r1 out1 kick1 left where x: "x = (z1, r1, out1, kick1, left)" by (cases x) auto
    then obtain kick where old: "old_zero_copy_iter fin (env r) = Return (r1, out1, kick, left)"
      using iter Return by (cases "old_zero_copy_iter fin (env r)") auto
    show ?thesis
    proof (cases left)
      case True
      then show ?thesis using Return x old e by simp
    next
      case False
      have "map_outcome (\<lambda>(r', out, left). (r', out1 @ out, left))
            (map_outcome (\<lambda>(z, r', out, left). (r', out, left)) (zero_copy_loop d envs z1 r1))
          = map_outcome (\<lambda>(r', out, left). (r', out1 @ out, left))
            (map_outcome (\<lambda>(r', out, ks, left). (r', out, left)) (old_zero_copy_loop envs r1))"
        by (simp only: Cons.IH)
      then show ?thesis
        using False Return x old e
        by (cases "zero_copy_loop d envs z1 r1"; cases "old_zero_copy_loop envs r1") auto
    qed
  next
    case OutOfBounds
    then have "old_zero_copy_iter fin (env r) = OutOfBounds"
      using iter by (cases "old_zero_copy_iter fin (env r)") auto
    then show ?thesis using OutOfBounds e by simp
  next
    case DivideByZero
    then have "old_zero_copy_iter fin (env r) = DivideByZero"
      using iter by (cases "old_zero_copy_iter fin (env r)") auto
    then show ?thesis using DivideByZero e by simp
  qed
qed

section \<open>Properties of the disabled thread\<close>

text \<open>
  The disabled thread and the compiled one do the same to the page and to what they acquire, under
  every schedule of the writers, on every failure of the services and on every page, well formed
  or not: the same events, bytes, end and out-of-bounds accesses. They differ in their kicks alone
  (and in the division by a divisor that is 0).
\<close>

theorem old_thread_agrees:
  assumes "divisor \<noteq> 0"
  shows "map_outcome (\<lambda>(evs, res). (evs, map_option (\<lambda>(z, r', out, left). (r', out, left)) res))
      (zero_copy_consumer page_size k divisor envs r)
    = map_outcome (\<lambda>(evs, res). (evs, map_option (\<lambda>(r', out, ks, left). (r', out, left)) res))
      (old_zero_copy_consumer page_size k envs r)"
proof (cases "mmap_ret k")
  case None
  then show ?thesis by (simp add: zero_copy_consumer_def old_zero_copy_consumer_def)
next
  case (Some m)
  then show ?thesis
    using old_loop_agrees [OF assms, of envs zc_start r]
    by (cases "zero_copy_loop divisor envs zc_start r"; cases "old_zero_copy_loop envs r")
      (auto simp: zero_copy_consumer_def old_zero_copy_consumer_def)
qed

end
