(* ===== verification/Spec2Isabelle.thy ===== *)
theory Spec2Isabelle
  imports NetRead Whole WaitFree StressRead OldStress
begin

text \<open>
  A verification development for the telemetry subsystem: one 4096-byte page that kernel
  producers fill and that user-space consumers drain through a mapping or a character device.

  The program. \<open>kernel/telemetry_base.c\<close> allocates the page (\<open>ring_ptr\<close>), registers
  the device and routes an open by its minor number. \<open>kernel/telemetry_core.c\<close> is the
  byte stream in the character buffer of the page: \<open>dev_read\<close>, the sleeping
  \<open>dev_write\<close>, and two functions that push packet metrics byte by byte.
  \<open>net_filter/net_filter_kernel.c\<close> is a Netfilter hook that records TCP packets in the 24
  slots of the network buffer, and \<open>block_filter/telemetry_block.c\<close> a kprobe on
  \<open>submit_bio\<close> that records requests in the 8 slots of the block buffer; both draw a ticket
  from an atomic counter, fill slot \<open>ticket mod N\<close> and stamp it.
  \<open>kernel/telemetry_net.c\<close> prints the network slots. In user space
  \<open>user/telemetry_user.c\<close> writes and drains the byte stream,
  \<open>user/net_filter_client.c\<close> and \<open>user/block_filter_client.cpp\<close> drain the slots
  with two engines, and \<open>user/telemetry_client.c\<close> opens and maps the device for them.

  The theories, in the order of their imports.

  \<^item> \<open>Prelude\<close>: the word types, error codes, the outcome of an operation that indexes memory
    (\<open>OutOfBounds\<close> and \<open>DivideByZero\<close> where C has undefined behaviour), byte strings with
    little-endian loads and stores, and the shared lemmas and hints.
  \<^item> \<open>Layout\<close> (\<open>include/\<close>): constants, structures as records, and the C layout of the page
    computed by an executable function. The page is a record of its lanes and byte buffers;
    the layout theorems justify that: all parts lie disjoint inside the 4096 bytes, and the
    casts of the code (the network lane, the slot pools) are overlays.
  \<^item> \<open>ByteRing\<close>: the contract of a bounded queue (locales \<open>bounded_buffer\<close> and
    \<open>bounded_fifo\<close>) with the lemmas on whole messages, and the index arithmetic of a ring.
  \<^item> \<open>CharDev\<close>, \<open>UserStream\<close>, \<open>CharWrite\<close>: \<open>dev_open\<close>, \<open>dev_read\<close>,
    the two push functions, one pass of each stream consumer, and \<open>dev_write\<close>. The rings are
    interpretations of the queue locales. While the writer sleeps, a list of events (reads,
    zero-copy passes, kicks, signals) acts; the loop ends because each sleep consumes an event,
    and a writer that is never woken is the result \<open>Asleep\<close>.
  \<^item> \<open>CharSMP\<close>: \<open>dev_write\<close> and the push into the character ring by any number of parties at
    the same time as the zero-copy consumer, as an interleaved step relation: the spinlock, the
    snapshot of the read index, the byte, the write index, the wait condition, the flag and the
    wake-up are steps of their own; faults, signals and empty writes are steps too.
  \<^item> \<open>ReadSMP\<close>, \<open>ReadWake\<close>: \<open>dev_read\<close> at the same time, without a lock, one step per access;
    and the sleep of the writers against it.
  \<^item> \<open>DriverVariants\<close>: the code of \<open>telemetry_core.c\<close> and \<open>telemetry_user.c\<close> that is kept
    but not compiled (the writer without the flag, the simple and the base driver, the old
    initialisation, the first zero-copy consumer), compared with the compiled code.
  \<^item> \<open>Base\<close>: loading, unloading, routing, mapping and the wake-up command of the core module.
  \<^item> \<open>TicketRing\<close>: the contract of a ring of ticketed slots (locale \<open>ticket_ring\<close>) with the
    history it holds; the walks of the consumers, \<open>gather\<close> (Scatter-Gather) and
    \<open>skip\<close> with \<open>scan\<close> (Skip-Ahead). \<open>gather\<close> ends because two of \<open>n + 1\<close>
    successive tickets share a slot, \<open>skip\<close> because the cyclic distance to the hint falls.
  \<^item> \<open>NetFilter\<close>, \<open>BlockFilter\<close>: the two hooks down to the stores into the buffer bytes, each an
    interpretation of \<open>ticket_ring\<close>. The compare-and-swap loop on the hint takes the
    interference of other CPUs as a list; the loop ends because each failure consumes one entry.
  \<^item> \<open>PacketSMP\<close>: the packet hook on any number of CPUs as an interleaved step relation, the stores
    between two barriers in any order; what the slots hold in every reachable state, with the
    tickets marked that are drawn while a lapped CPU still stores into their slot (\<open>late\<close>); and
    the sequential hook as one of the runs.
  \<^item> \<open>SlotConsumer\<close>, \<open>NetConsumer\<close>, \<open>BlockConsumer\<close>: the consumer threads. The locale
    \<open>ticket_consumer\<close> extends \<open>ticket_ring\<close> by the store of the read position and says what a
    consumer gets from any sequence of batches; both threads are interpretations of it.
  \<^item> \<open>BlockSMP\<close>: the block probe on any number of CPUs, word by word, in any order where C leaves
    the order of a structure copy open, and two fragments of the block consumer against it.
  \<^item> \<open>LiveSlots\<close>, \<open>NetLive\<close>, \<open>BlockLive\<close>: the whole consumer threads, and the dump of
    the diagnostic read, against a ring that is being filled: each load of a hint, a stamp or a
    word of a slot is a step, and anything the ring can do may happen in between. The locale
    \<open>live_slots\<close> is the promise of a ring to such a reader; the packet ring and the block ring
    are its interpretations, on the step relations of \<open>PacketSMP\<close> and \<open>BlockSMP\<close>.
  \<^item> \<open>WaitFree\<close>: the own steps of the consumer threads that are left of a batch, for any ring.
  \<^item> \<open>CText\<close>, \<open>NetRead\<close>: formatted output and the diagnostic read with its buffer arithmetic.
  \<^item> \<open>Client\<close>: contexts, the session on the device, and the two main functions.
  \<^item> \<open>Stress\<close>, \<open>StressRead\<close>, \<open>OldStress\<close>: the threads of \<open>user/telemetry_user.c\<close> on the
    concurrent device: \<open>producer\<close> with \<open>zero_copy_consumer\<close>, with \<open>consumer\<close>, and the
    disabled version of the former consumer. The runs of the producer are lemmas of a locale
    (\<open>producer_runs\<close>) that both programs interpret, those of the writers of another
    (\<open>writer_runs\<close>).
  \<^item> \<open>CheckedSlots\<close>: the hooks and the consumer threads once more with every load and store
    checked against the length of its array, as the operations on the character ring are from the
    start; on a page whose arrays have their lengths they return what the unchecked ones compute.
  \<^item> \<open>Tenants\<close>: all these operations on the page as one datatype, their effect on the lanes
    and buffers of the others, and the invariant that makes any sequence of them return.
  \<^item> \<open>Whole\<close>: all concurrent components on the one page, their step relations interleaved.
    A step of one is a step in its own part of the page only, so each component evolves as in its
    own theory and what was shown there holds in the whole.

  What the properties show. For the whole system: any sequence of operations on the page that
  loading hands out returns, with every access to the character ring and to a slot checked, and the tenants of the page do not disturb
  each other, the one exported push function aside that shares the counters of the packet hook;
  and when all of them run at once, on any number of CPUs, each keeps what it promises alone.
  For the byte stream: reads and writes are first-in first-out, under every interleaving of
  writers, pushers and one consumer or reader, and with every event during a sleep; which
  schedules let a write complete; the exact results of faults and signals; a run in which the
  zero-copy consumer loses the wake-up of a second writer, while one reader whose buffer is writable never loses one; a
  run in which two reads corrupt the ring; the counters of the stress program with either
  consumer, and the thread that never ends when its device does not open. For the slot rings: what one call of a hook changes;
  that any sequence of calls, and for packets any interleaving of CPUs in which none is lapped in
  the middle of its stores, leaves the last 24 (or 8) records with their tickets, for the block ring even beyond the wrap-around of the
  counter, at which the packet ring breaks; that a consumer that runs at the same time accepts
  each ticket once and prints what was recorded for it, tickets other than 0, unless it is lapped, the ticket was late
  or, in the Scatter-Gather copy, the record was not yet complete, and that then it may print a
  mixture; that a lapped CPU undoes records that were complete; that no consumer ever waits for a
  producer; what each engine
  delivers when the page stands still during a pass, from the first record on: everything
  while not lapped, everything
  that is left after a lap for the block Skip-Ahead engine, nothing any more for a lapped
  Scatter-Gather engine and for the packet Skip-Ahead engine, whose hint is a slot number. For
  the rest: the layout of the page, the round trips from a packet or bio to the printed line, the
  bounds of the diagnostic text, the release of every resource on every path of loading,
  unloading and the clients, and the agreement of the disabled drivers with the compiled one.

  Parameters. Results of kernel and library services (page allocation, device registration,
  \<open>copy_to_user\<close>, \<open>open\<close>, \<open>mmap\<close>, \<open>pthread_create\<close>, the macros on device numbers) are arguments;
  no law is assumed about them beyond the arguments' types. Bounds: the history theorems hold
  below \<open>2 ^ 32\<close> tickets for the packet ring, as 24 does not divide \<open>2 ^ 32\<close>, and without
  bound for the block ring; those on Skip-Ahead and on consumers at the same time hold below
  \<open>2 ^ 31\<close>, the range of the signed comparison. The counters of the stress program are integers;
  in C they have the type \<open>int\<close>, whose range they do not leave while the messages together have
  fewer than \<open>2 ^ 31\<close> bytes (shown with the accounting of the program).

  Not modelled: memory reordering across the barriers of the code (the step relations are
  sequentially consistent there, which the barriers are there to provide; the stores and loads
  of a record, which no barrier orders, come in any order); the conversion of the printed line of
  \<open>process_metric\<close> (it prints the modelled values through a conversion that only the kernel
  has); thread creation, core pinning and sleeping times of the
  stress program; log messages; build files and scripts.
\<close>

section \<open>Properties that span the components\<close>

text \<open>
  C9. The whole system is type sound. Whatever operations of all components follow one another on
  the page that loading hands out (reads, writes and zero-copy passes of the stream, both pushes,
  packets, requests, and passes of the two slot consumers in both modes), in any order and with any
  arguments (faulting buffers, signals and empty schedules included), each of them returns. Every
  load and store of an operation, in the character ring and in each slot that a hook fills or a
  walk looks at, is checked against the length of its array, so none is outside; and nothing is
  divided by zero. The arrays keep their lengths and the indices their ranges.
\<close>

theorem system_type_sound:
  "\<exists>r. run_ops xs zeroed_page = Return r \<and> page_ok r \<and> char_inv r
     \<and> unat (wr_idx (net_ctl r)) < TELEMETRY_NETFILTER_RING_BUFFER_CAPACITY"
  using run_ops_returns [OF sys_ok_zeroed, of xs] by (simp add: sys_ok_def)

text \<open>
  C12. The tenants of the page do not interfere. What a tenant's lane and buffer are after any
  sequence of operations is what they are after the operations of that tenant alone: the
  operations of the others can be left out without a trace, and those that are left still return.
\<close>

theorem tenants_do_not_interfere:
  assumes "run_ops xs r = Return r'"
  shows "\<exists>s. run_ops (filter (\<lambda>x. op_tenant x = k) xs) r = Return s \<and> same_tenant k r' s"
proof -
  have "same_tenant k r r" by (cases k) simp_all
  from run_ops_purge [OF assms this] show ?thesis .
qed

theorem tenants_do_not_interfere_witness:
  "\<exists>r' s. run_ops [Packet_op [] sample_packet, Read_op (\<lambda>_. True) 4, Net_pass_op MODE_SKIP_AHEAD]
       two_byte_page = Return r'
     \<and> run_ops [Read_op (\<lambda>_. True) 4] two_byte_page = Return s \<and> same_tenant Tenant_char r' s"
proof -
  let ?xs = "[Packet_op [] sample_packet, Read_op (\<lambda>_. True) 4, Net_pass_op MODE_SKIP_AHEAD]"
  have "sys_ok two_byte_page"
    using two_byte_page(1) by (simp add: sys_ok_def layout_simps)
      (simp add: two_byte_page_def page_ok_def page_update_defs zeroed_page_def layout_simps)
  then obtain r' where r': "run_ops ?xs two_byte_page = Return r'" using run_ops_returns by blast
  from tenants_do_not_interfere [OF this, of Tenant_char] r' show ?thesis by auto
qed

text \<open>
  The exported push of a packet metric and the packet hook must not be used together. After
  one recorded packet the hint 1 is taken for a byte position: the push succeeds and writes its
  16 bytes over the slot of that packet, from byte 1 of its metric to the first byte of its
  stamp, which then reads as the top byte of the pushed length.
\<close>

theorem push_clobbers_slot:
  assumes "traced_metric skb = Some m"
  shows "\<exists>r'. run_ops [Packet_op others skb, Push_net_op n] zeroed_page = Return r'
    \<and> read_at 1 16 (net_buffer r') = metric_bytes n
    \<and> net_slot_ticket (net_buffer r') 0 = drop_bit 24 (pkt_len n)"
proof -
  let ?r = "record_packet others m zeroed_page"
  let ?pool = "net_buffer ?r"
  have run: "run_op (Packet_op others skb) zeroed_page = Return ?r"
    using assms packet_telemetry_hook_checked_eq [OF page_ok_zeroed, of others skb]
    by (simp add: packet_telemetry_hook_def)
  have r: "page_ok ?r" "net_wr ?r = 1" "net_rd ?r = 0"
    using page_ok_record [OF page_ok_zeroed]
    by (simp_all add: record_packet_effect Let_def slot_index_def zeroed_page_def)
  obtain r' where push: "net_push_loop (metric_bytes n) ?r = Return (Inr (), r')"
    "net_buffer r' = write_at 1 (metric_bytes n) ?pool"
    using net_push_bytes [OF r(1), of "metric_bytes n"] r(2,3) by (auto simp: layout_simps)
  have len: "length ?pool = 768" using r(1) by (rule net_buffer_length)
  have "read_at 16 4 ?pool = le_bytes 4 (0 :: u32)"
    using stamp_bytes [of "store_net_metric 0 m (net_buffer zeroed_page)" 0]
    by (simp add: record_packet_effect Let_def zeroed_page_def layout_simps length_store_net)
  then have "read_at 16 4 ?pool = [0, 0, 0, 0]" by (simp add: le_bytes_def upt_rec)
  from push_over_stamp [OF len this, of n]
  have "net_slot_ticket (net_buffer r') 0 = drop_bit 24 (pkt_len n)" by (simp add: push(2))
  moreover have "read_at 1 16 (net_buffer r') = metric_bytes n"
    using len by (simp add: push(2) read_at_write_same)
  moreover have "run_op (Push_net_op n) ?r = Return r'"
    using push(1) by (simp add: telemetry_net_dev_push_metric_def layout_simps)
  ultimately show ?thesis using run by simp
qed

theorem push_clobbers_slot_witness:
  "\<exists>r'. run_ops [Packet_op [] sample_packet,
       Push_net_op \<lparr>src_ip = 1, dest_ip = 2, src_port = 3, dest_port = 4, pkt_len = 0x05000000\<rparr>]
       zeroed_page = Return r' \<and> net_slot_ticket (net_buffer r') 0 = 5"
  using push_clobbers_slot [OF sample_metric, of "[]"
      "\<lparr>src_ip = 1, dest_ip = 2, src_port = 3, dest_port = 4, pkt_len = 0x05000000\<rparr>"]
  by auto

end
